(* ===== verification/Prelude.thy ===== *)
theory Prelude
  imports Main "HOL-Library.Word" "HOL-Library.Char_ord" "HOL-Library.List_Lexorder"
    "HOL-Library.Code_Target_Nat"
begin

text \<open>
  What every component shares.  A Go \<^verbatim>\<open>string\<close> or \<^verbatim>\<open>[]byte\<close> is a list of bytes, which is
  HOL's \<open>string\<close> (a \<open>char\<close> is eight bits).  A Go \<^verbatim>\<open>map[string]T\<close> is an association list
  kept sorted by key, so that two maps with the same bindings are the same list and the
  functions over it compute; \<open>map_of\<close> is its abstraction.  An \<^verbatim>\<open>int64\<close> is an \<open>int\<close> with the
  wrap-around written out (\<open>i64\<close>).
\<close>

type_synonym bytes = string

named_theorems gmap_simps \<open>rewriting of look-ups in updated maps\<close>
named_theorems go_defs \<open>definitions of the small helpers that proofs unfold\<close>

section \<open>Signed 64-bit integers\<close>

text \<open>The two's complement reading of an integer result in 64 bits.\<close>

definition i64 :: "int \<Rightarrow> int" where
  "i64 x = (x + 2 ^ 63) mod 2 ^ 64 - 2 ^ 63"

definition in_i64 :: "int \<Rightarrow> bool" where
  "in_i64 x \<longleftrightarrow> - (2 ^ 63) \<le> x \<and> x < 2 ^ 63"

lemma i64_in [simp]: "in_i64 (i64 x)"
proof -
  have "0 \<le> (x + 2 ^ 63) mod 2 ^ 64" "(x + 2 ^ 63) mod 2 ^ 64 < (2 ^ 64 :: int)"
    by (rule pos_mod_sign pos_mod_bound; simp)+
  then show ?thesis unfolding in_i64_def i64_def by simp
qed

lemma i64_id: "in_i64 x \<Longrightarrow> i64 x = x"
  unfolding in_i64_def i64_def by (subst mod_pos_pos_trivial) auto

lemma i64_i64 [simp]: "i64 (i64 x) = i64 x"
  by (rule i64_id) simp

lemma i64_mod: "i64 x mod 2 ^ 64 = x mod 2 ^ 64"
  unfolding i64_def by (simp add: mod_diff_left_eq)

lemma i64_cong: "x mod 2 ^ 64 = y mod 2 ^ 64 \<Longrightarrow> i64 x = i64 y"
  unfolding i64_def by (metis mod_add_left_eq)

text \<open>One step past the end wraps around once.\<close>

lemma i64_wrap:
  assumes "- (2 ^ 63) \<le> x" and "x < 2 ^ 64"
  shows "i64 x = (if 2 ^ 63 \<le> x then x - 2 ^ 64 else x)"
proof (cases "2 ^ 63 \<le> x")
  case True
  have "i64 x = i64 (x - 2 ^ 64)" by (rule i64_cong) simp
  moreover have "in_i64 (x - 2 ^ 64)" using True assms by (simp add: in_i64_def)
  ultimately show ?thesis using True by (simp add: i64_id)
next
  case False
  then show ?thesis using assms by (simp add: i64_id in_i64_def)
qed

lemma i64_add_left: "i64 (i64 x + y) = i64 (x + y)"
  by (rule i64_cong) (metis i64_mod mod_add_left_eq)

lemma i64_diff_right: "i64 (x - i64 y) = i64 (x - y)"
  by (rule i64_cong) (metis i64_mod mod_diff_right_eq)

section \<open>Go maps\<close>

type_synonym 'v gomap = "(string \<times> 'v) list"

fun gm_upd :: "string \<Rightarrow> 'v \<Rightarrow> 'v gomap \<Rightarrow> 'v gomap" where
  "gm_upd k v [] = [(k, v)]"
| "gm_upd k v ((k', v') # m) =
     (if k < k' then (k, v) # (k', v') # m
      else if k = k' then (k, v) # m
      else (k', v') # gm_upd k v m)"

fun gm_del :: "string \<Rightarrow> 'v gomap \<Rightarrow> 'v gomap" where
  "gm_del k [] = []"
| "gm_del k ((k', v') # m) = (if k = k' then gm_del k m else (k', v') # gm_del k m)"

abbreviation gm_get :: "'v gomap \<Rightarrow> string \<Rightarrow> 'v option" where
  "gm_get m k \<equiv> map_of m k"

definition gm_ok :: "'v gomap \<Rightarrow> bool" where
  "gm_ok m \<longleftrightarrow> sorted_wrt (<) (map fst m)"

lemma gm_ok_Nil [simp]: "gm_ok []"
  by (simp add: gm_ok_def)

lemma gm_ok_Cons: "gm_ok ((k, v) # m) \<longleftrightarrow> gm_ok m \<and> (\<forall>k' \<in> fst ` set m. k < k')"
  by (auto simp: gm_ok_def)

lemma gm_ok_distinct: "gm_ok m \<Longrightarrow> distinct (map fst m)"
  by (induction m) (auto simp: gm_ok_def)

lemma map_of_gm_upd [simp, gmap_simps]: "map_of (gm_upd k v m) = (map_of m)(k \<mapsto> v)"
  by (induction m) (auto simp: fun_eq_iff)

lemma map_of_gm_del [simp, gmap_simps]: "map_of (gm_del k m) = (map_of m)(k := None)"
  by (induction m) (auto simp: fun_eq_iff)

lemma fst_set_gm_upd: "fst ` set (gm_upd k v m) = insert k (fst ` set m)"
proof -
  have "dom (map_of (gm_upd k v m)) = insert k (dom (map_of m))" by simp
  then show ?thesis by (simp only: dom_map_of_conv_image_fst)
qed

lemma set_gm_upd: "set (gm_upd k v m) \<subseteq> insert (k, v) (set m)"
  by (induction m) (auto split: if_splits)

lemma gm_del_filter: "gm_del k m = filter (\<lambda>p. fst p \<noteq> k) m"
  by (induction m) auto

lemma gm_ok_upd [simp, intro]: "gm_ok m \<Longrightarrow> gm_ok (gm_upd k v m)"
proof (induction m)
  case (Cons p m)
  obtain k' v' where p: "p = (k', v')" by force
  consider "k < k'" | "k = k'" | "\<not> k < k'" "k \<noteq> k'" "k' < k" by (meson neq_iff)
  then show ?case
  proof cases
    case 1
    with Cons.prems show ?thesis by (auto simp: p gm_ok_Cons dest: less_trans)
  next
    case 2
    with Cons.prems show ?thesis by (simp add: p gm_ok_Cons)
  next
    case 3
    with Cons show ?thesis by (simp add: p gm_ok_Cons fst_set_gm_upd)
  qed
qed (simp add: gm_ok_Cons)

lemma gm_ok_filter [intro]: "gm_ok m \<Longrightarrow> gm_ok (filter P m)"
  by (induction m) (auto simp: gm_ok_Cons)

lemma gm_ok_del [simp, intro]: "gm_ok m \<Longrightarrow> gm_ok (gm_del k m)"
  unfolding gm_del_filter by (rule gm_ok_filter)

lemma gm_del_absent: "k \<notin> fst ` set m \<Longrightarrow> gm_del k m = m"
  by (induction m) auto

lemma length_gm_del: "length (gm_del k m) \<le> length m"
  by (induction m) auto

text \<open>Maps with the same bindings are equal: the list is a canonical form.\<close>

lemma gm_ok_eqI:
  assumes "gm_ok m" and "gm_ok m'" and "map_of m = map_of m'"
  shows "m = m'"
proof (rule map_sorted_distinct_set_unique [of fst])
  show s: "set m = set m'"
    using assms by (metis gm_ok_distinct map_of_inject_set)
  show "inj_on fst (set m \<union> set m')"
    using s gm_ok_distinct [OF assms(1)] by (simp add: distinct_map)
  show "sorted (map fst m)" "sorted (map fst m')"
    using assms(1,2) by (simp_all add: gm_ok_def strict_sorted_imp_sorted)
qed (use assms(1,2) gm_ok_distinct in blast)+

lemma gm_upd_upd: "gm_ok m \<Longrightarrow> gm_upd k v (gm_upd k w m) = gm_upd k v m"
  by (rule gm_ok_eqI) auto

lemma gm_upd_swap:
  "gm_ok m \<Longrightarrow> k \<noteq> k' \<Longrightarrow> gm_upd k v (gm_upd k' v' m) = gm_upd k' v' (gm_upd k v m)"
  by (rule gm_ok_eqI) (auto simp: fun_eq_iff)

text \<open>Building a map from bindings in the order they are written, a later one winning.\<close>

definition gm_of_list :: "(string \<times> 'v) list \<Rightarrow> 'v gomap" where
  "gm_of_list ps = fold (\<lambda>(k, v). gm_upd k v) ps []"

lemma gm_ok_fold: "gm_ok m \<Longrightarrow> gm_ok (fold (\<lambda>(k, v). gm_upd k v) ps m)"
  by (induction ps arbitrary: m) auto

lemma gm_ok_of_list [simp]: "gm_ok (gm_of_list ps)"
  unfolding gm_of_list_def by (rule gm_ok_fold) simp

lemma map_of_gm_fold:
  "map_of (fold (\<lambda>(k, v). gm_upd k v) ps m) = map_of m ++ map_of (rev ps)"
  by (induction ps arbitrary: m) (auto simp: map_add_def fun_eq_iff split: option.splits)

lemma map_of_gm_of_list: "map_of (gm_of_list ps) = map_of (rev ps)"
  by (simp add: gm_of_list_def map_of_gm_fold)

lemma gm_of_list_id: "gm_ok m \<Longrightarrow> gm_of_list m = m"
proof (rule gm_ok_eqI)
  assume "gm_ok m"
  then have "map_of (rev m) = map_of m"
    by (metis distinct_rev gm_ok_distinct map_of_inject_set rev_map set_rev)
  then show "map_of (gm_of_list m) = map_of m" by (simp add: map_of_gm_of_list)
qed simp_all

text \<open>Sizes, and changing every value.\<close>

lemma gm_length: "gm_ok m \<Longrightarrow> length m = card (dom (map_of m))"
  by (metis dom_map_of_conv_image_fst gm_ok_distinct distinct_card length_map set_map)

lemma length_gm_upd_new: "gm_ok m \<Longrightarrow> map_of m k = None \<Longrightarrow> length (gm_upd k v m) = Suc (length m)"
  by (simp add: gm_length card_insert_if finite_dom_map_of domIff)

lemma length_gm_upd_old:
  "gm_ok m \<Longrightarrow> map_of m k \<noteq> None \<Longrightarrow> length (gm_upd k v m) = length m"
  by (simp add: gm_length insert_absorb domIff)

lemma length_gm_del_old:
  "gm_ok m \<Longrightarrow> map_of m k \<noteq> None \<Longrightarrow> Suc (length (gm_del k m)) = length m"
proof -
  assume ok: "gm_ok m" and k: "map_of m k \<noteq> None"
  have "dom (map_of (gm_del k m)) = dom (map_of m) - {k}" by auto
  moreover have "Suc (card (dom (map_of m) - {k})) = card (dom (map_of m))"
    by (rule card_Suc_Diff1) (use k in \<open>auto simp: finite_dom_map_of\<close>)
  ultimately show ?thesis using ok by (simp only: gm_length gm_ok_del)
qed

lemma map_of_apsnd: "map_of (map (apsnd f) m) k = map_option f (map_of m k)"
  by (induction m) auto

lemma gm_ok_apsnd [simp]: "gm_ok (map (apsnd f) m) = gm_ok m"
  by (simp add: gm_ok_def comp_def)

section \<open>Bytes and words\<close>

definition byte_of :: "char \<Rightarrow> nat" where
  [go_defs]: "byte_of c = of_char c"

lemma byte_of_less: "byte_of c < 256"
  by (simp add: byte_of_def)

text \<open>\<^verbatim>\<open>binary.BigEndian.PutUint32\<close> and \<^verbatim>\<open>binary.BigEndian.Uint32\<close>.\<close>

definition PutUint32 :: "32 word \<Rightarrow> bytes" where
  "PutUint32 w = (let n = unat w in
     [char_of (n div 2 ^ 24 mod 256), char_of (n div 2 ^ 16 mod 256),
      char_of (n div 2 ^ 8 mod 256), char_of (n mod 256)])"

fun Uint32 :: "bytes \<Rightarrow> 32 word" where
  "Uint32 (a # b # c # d # _) =
     of_nat (((byte_of a * 256 + byte_of b) * 256 + byte_of c) * 256 + byte_of d)"
| "Uint32 _ = 0"

lemma length_PutUint32 [simp]: "length (PutUint32 w) = 4"
  by (simp add: PutUint32_def Let_def)

lemma base256:
  assumes "n < 2 ^ 32"
  shows "((n div 2 ^ 24 mod 256 * 256 + n div 2 ^ 16 mod 256) * 256 + n div 2 ^ 8 mod 256) * 256
    + n mod 256 = (n :: nat)"
proof -
  have d: "n div 2 ^ 8 div 256 = n div 2 ^ 16" "n div 2 ^ 16 div 256 = n div 2 ^ 24"
    by (simp_all flip: div_mult2_eq)
  have "n div 2 ^ 24 < 256" using assms by (simp add: div_less_iff_less_mult)
  then have "n div 2 ^ 24 mod 256 * 256 + n div 2 ^ 16 mod 256 = n div 2 ^ 16"
    using div_mult_mod_eq [of "n div 2 ^ 16" 256] by (simp only: d mod_less)
  then have "(n div 2 ^ 24 mod 256 * 256 + n div 2 ^ 16 mod 256) * 256 + n div 2 ^ 8 mod 256
      = n div 2 ^ 8"
    using div_mult_mod_eq [of "n div 2 ^ 8" 256] by (simp only: d)
  moreover have "n div 2 ^ 8 * 256 + n mod 256 = n"
    using div_mult_mod_eq [of n 256] by simp
  ultimately show ?thesis by (simp only:)
qed

lemma Uint32_PutUint32 [simp]: "Uint32 (PutUint32 w @ rest) = w"
proof -
  have "unat w < 2 ^ 32" using unsigned_less [of w] by simp
  then show ?thesis
    using base256 [of "unat w"]
    by (simp only: PutUint32_def Let_def append.simps Uint32.simps byte_of_def of_char_of
        mod_mod_trivial of_nat_unat ucast_id)
qed

end
