(* ===== verification/Crc32.thy ===== *)
theory Crc32
  imports Prelude
begin

text \<open>
  Go's \<^verbatim>\<open>hash/crc32\<close> with the two reversed polynomials Fleare uses: \<open>ChecksumIEEE\<close> places keys
  and nodes on the hash ring, \<open>ChecksumC\<close> (Castagnoli) guards the records of the write-ahead
  log.  The lemmas show what the checksum is good for there: a record of which one byte was
  changed has another checksum.
\<close>

unbundle bit_operations_syntax

definition crc_step :: "32 word \<Rightarrow> 32 word \<Rightarrow> 32 word" where
  "crc_step poly c = (if bit c 0 then drop_bit 1 c XOR poly else drop_bit 1 c)"

definition crc_byte :: "32 word \<Rightarrow> 32 word \<Rightarrow> char \<Rightarrow> 32 word" where
  "crc_byte poly c b = (crc_step poly ^^ 8) (c XOR of_nat (byte_of b))"

definition crc :: "32 word \<Rightarrow> bytes \<Rightarrow> 32 word" where
  "crc poly s = NOT (foldl (crc_byte poly) (NOT 0) s)"

definition ieee :: "32 word" where "ieee = 0xEDB88320"
definition castagnoli :: "32 word" where "castagnoli = 0x82F63B78"

definition ChecksumIEEE :: "bytes \<Rightarrow> 32 word" where
  "ChecksumIEEE = crc ieee"

definition ChecksumC :: "bytes \<Rightarrow> 32 word" where
  "ChecksumC = crc castagnoli"

section \<open>The checksum detects a changed byte\<close>

lemma bit31_step:
  assumes "bit poly 31"
  shows "bit (crc_step poly c) 31 \<longleftrightarrow> bit c 0"
  using assms by (auto simp: crc_step_def bit_simps dest: bit_imp_le_length)

lemma xor_cancel: "c XOR a = c XOR b \<longleftrightarrow> a = (b :: 32 word)"
  by (metis xor.left_neutral xor.assoc xor_self_eq)

lemma xor_cancel_right: "a XOR c = b XOR c \<longleftrightarrow> a = (b :: 32 word)"
  by (metis xor_cancel xor.commute)

lemma inj_crc_step:
  assumes "bit poly 31"
  shows "inj (crc_step poly)"
proof (rule injI)
  fix c d assume e: "crc_step poly c = crc_step poly d"
  then have o: "bit c 0 \<longleftrightarrow> bit d 0" using bit31_step [OF assms] by metis
  then have "drop_bit 1 c = drop_bit 1 d"
    using e by (simp add: crc_step_def xor_cancel_right split: if_splits)
  then have "bit c (Suc n) \<longleftrightarrow> bit d (Suc n)" for n
    by (metis bit_drop_bit_eq comp_apply plus_1_eq_Suc)
  with o have "bit c n \<longleftrightarrow> bit d n" for n by (cases n) simp_all
  then show "c = d" by (simp add: bit_eq_iff)
qed

lemma inj_crc_steps: "bit poly 31 \<Longrightarrow> inj (crc_step poly ^^ n)"
  by (induction n) (simp_all add: inj_crc_step inj_compose del: funpow.simps add: funpow_Suc_right)

lemma crc_byte_state:
  assumes "bit poly 31" and "crc_byte poly c b = crc_byte poly d b"
  shows "c = d"
  using injD [OF inj_crc_steps [OF assms(1)] assms(2) [unfolded crc_byte_def]]
  by (simp only: xor_cancel_right)

lemma crc_byte_byte:
  assumes "bit poly 31" and "crc_byte poly c a = crc_byte poly c b"
  shows "a = b"
proof -
  have "of_nat (byte_of a) = (of_nat (byte_of b) :: 32 word)"
    using injD [OF inj_crc_steps [OF assms(1)] assms(2) [unfolded crc_byte_def]]
    by (simp add: xor_cancel)
  then have "unat (of_nat (byte_of a) :: 32 word) = unat (of_nat (byte_of b) :: 32 word)" by simp
  then have "byte_of a = byte_of b"
    using byte_of_less [of a] byte_of_less [of b] by (simp add: unat_of_nat)
  then show ?thesis by (simp add: byte_of_def)
qed

lemma crc_state:
  assumes "bit poly 31"
  shows "foldl (crc_byte poly) c s = foldl (crc_byte poly) d s \<Longrightarrow> c = d"
  by (induction s arbitrary: c d) (auto dest: crc_byte_state [OF assms])

lemma crc_one_byte:
  assumes "bit poly 31" and "crc poly (s @ a # t) = crc poly (s @ b # t)"
  shows "a = b"
proof -
  have "foldl (crc_byte poly) (NOT 0) (s @ a # t) = foldl (crc_byte poly) (NOT 0) (s @ b # t)"
    using assms(2) unfolding crc_def by (metis bit.double_compl)
  then show ?thesis
    using crc_state [OF assms(1)] crc_byte_byte [OF assms(1)] by fastforce
qed

lemma ChecksumC_one_byte: "ChecksumC (s @ a # t) = ChecksumC (s @ b # t) \<Longrightarrow> a = b"
  unfolding ChecksumC_def by (rule crc_one_byte [of castagnoli]) (simp_all add: castagnoli_def)

section \<open>Evaluation\<close>

text \<open>The same on integers, which the simplifier computes; the checksums are evaluated this way.\<close>

definition step_int :: "int \<Rightarrow> int \<Rightarrow> int" where
  "step_int p c = (if odd c then (c div 2) XOR p else c div 2)"

definition byte_int :: "int \<Rightarrow> int \<Rightarrow> char \<Rightarrow> int" where
  "byte_int p c b =
     step_int p (step_int p (step_int p (step_int p (step_int p (step_int p (step_int p
       (step_int p (c XOR int (byte_of b)))))))))"

definition crc_int :: "int \<Rightarrow> bytes \<Rightarrow> int" where
  "crc_int p s = 4294967295 - foldl (byte_int p) 4294967295 s"

lemmas crc_int_eval = crc_int_def byte_int_def step_int_def byte_of_def

lemma uint_step: "uint (crc_step p c) = step_int (uint p) (uint c)"
proof -
  have "bit (uint c) 0 = bit c 0" by (simp add: bit_uint_iff del: bit_0)
  then have "bit c 0 = odd (uint c)" by (simp only: bit_0)
  moreover have "uint (drop_bit 1 c) = uint c div 2"
    by (simp add: uint_div drop_bit_eq_div)
  ultimately show ?thesis by (simp add: crc_step_def step_int_def unsigned_xor_eq)
qed

lemma uint_byte: "uint (crc_byte p c b) = byte_int (uint p) (uint c) b"
proof -
  have "uint (of_nat (byte_of b) :: 32 word) = int (byte_of b)"
    using byte_of_less [of b] by (simp add: unsigned_of_nat take_bit_nat_eq_self)
  then show ?thesis
    by (simp add: crc_byte_def byte_int_def eval_nat_numeral uint_step unsigned_xor_eq)
qed

lemma uint_crc: "uint (crc p s) = crc_int (uint p) s"
proof -
  have "uint (foldl (crc_byte p) c s) = foldl (byte_int (uint p)) (uint c) s" for c
    by (induction s arbitrary: c) (simp_all add: uint_byte)
  moreover have "uint (NOT w) = 4294967295 - uint w" for w :: "32 word"
    using bintr_uint [of 32 w]
    by (simp add: unsigned_not_eq take_bit_not_eq_mask_diff mask_eq_exp_minus_1)
  moreover have "uint (NOT 0 :: 32 word) = 4294967295" by (simp add: unsigned_minus_1_eq_mask mask_eq_exp_minus_1)
  ultimately show ?thesis by (simp add: crc_def crc_int_def)
qed

lemma ChecksumIEEE_eval: "ChecksumIEEE s = word_of_int (crc_int 0xEDB88320 s)"
proof -
  have "uint (ChecksumIEEE s) = crc_int 0xEDB88320 s"
    by (simp add: ChecksumIEEE_def uint_crc ieee_def)
  then show ?thesis by (metis word_of_int_uint)
qed

lemma ChecksumC_eval: "ChecksumC s = word_of_int (crc_int 0x82F63B78 s)"
proof -
  have "uint (ChecksumC s) = crc_int 0x82F63B78 s"
    by (simp add: ChecksumC_def uint_crc castagnoli_def)
  then show ?thesis by (metis word_of_int_uint)
qed

declare ChecksumIEEE_eval [code] ChecksumC_eval [code]

text \<open>The check values of the two checksums.\<close>

lemma check_values:
  "ChecksumIEEE ''123456789'' = 0xCBF43926" "ChecksumC ''123456789'' = 0xE3069283"
  by (simp_all add: ChecksumIEEE_eval ChecksumC_eval crc_int_eval)

end
