(* ===== verification/Consistent_Hash.thy ===== *)
theory Consistent_Hash
  imports Crc32
begin

text \<open>
  \<^verbatim>\<open>src/internal/helper/consistent_hash.go\<close>: the ring that maps a key to the node with the
  least hash that is not below the key's.  \<open>ring_ok\<close> is the invariant; the lemmas show the
  binary search finds that node and that adding or removing a node moves only its own keys.
  The locale \<open>router\<close> is what the shard manager and the write-ahead log rely on.
\<close>

record chash =
  nodes :: "32 word list"
  nodeMap :: "32 word \<Rightarrow> string option"

definition NewConsistentHash :: chash where
  "NewConsistentHash = \<lparr>nodes = [], nodeMap = Map.empty\<rparr>"

definition hashKey :: "string \<Rightarrow> 32 word" where
  "hashKey key = ChecksumIEEE key"

definition AddNode :: "string \<Rightarrow> chash \<Rightarrow> chash" where
  "AddNode nodeID c = (let hash = hashKey nodeID in
     c\<lparr>nodes := sort (nodes c @ [hash]), nodeMap := (nodeMap c)(hash \<mapsto> nodeID)\<rparr>)"

definition RemoveNode :: "string \<Rightarrow> chash \<Rightarrow> chash" where
  "RemoveNode nodeID c = (let hash = hashKey nodeID in
     c\<lparr>nodeMap := (nodeMap c)(hash := None), nodes := remove1 hash (nodes c)\<rparr>)"

text \<open>\<^verbatim>\<open>sort.Search\<close> between \<open>i\<close> and \<open>j\<close>.\<close>

function Search :: "nat \<Rightarrow> nat \<Rightarrow> (nat \<Rightarrow> bool) \<Rightarrow> nat" where
  "Search i j f =
     (if i < j then (let h = (i + j) div 2 in if f h then Search i h f else Search (h + 1) j f)
      else i)"
  by auto
termination by (relation "measure (\<lambda>(i, j, f). j - i)") auto

declare Search.simps [simp del]

text \<open>A node that is in \<open>nodes\<close> but not in \<open>nodeMap\<close> reads as Go's zero value, the empty string.\<close>

definition GetNode :: "chash \<Rightarrow> string \<Rightarrow> string" where
  "GetNode c key =
     (if nodes c = [] then []
      else let hash = hashKey key;
               idx = Search 0 (length (nodes c)) (\<lambda>i. hash \<le> nodes c ! i);
               idx' = (if idx = length (nodes c) then 0 else idx)
           in (case nodeMap c (nodes c ! idx') of Some n \<Rightarrow> n | None \<Rightarrow> []))"

section \<open>The binary search\<close>

lemma Search_spec:
  assumes "i \<le> j" and "\<And>a b. a \<le> b \<Longrightarrow> b < n \<Longrightarrow> f a \<Longrightarrow> f b" and "j \<le> n"
    and "\<And>a. a < i \<Longrightarrow> \<not> f a" and "\<And>a. j \<le> a \<Longrightarrow> a < n \<Longrightarrow> f a"
  shows "Search i j f \<le> n \<and> (\<forall>a < Search i j f. \<not> f a) \<and> (\<forall>a. Search i j f \<le> a \<longrightarrow> a < n \<longrightarrow> f a)"
  using assms
proof (induction i j f rule: Search.induct)
  case (1 i j f)
  show ?case
  proof (cases "i < j")
    case False
    with "1.prems" show ?thesis by (subst (1 2 3) Search.simps) auto
  next
    case True
    define h where "h = (i + j) div 2"
    have h: "i \<le> h" "h < j" using True by (auto simp: h_def)
    then have hj: "h + 1 \<le> j" by simp
    show ?thesis
    proof (cases "f h")
      case fh: True
      have "Search i h f \<le> n \<and> (\<forall>a < Search i h f. \<not> f a)
          \<and> (\<forall>a. Search i h f \<le> a \<longrightarrow> a < n \<longrightarrow> f a)"
      proof (rule "1.IH"(1) [OF True h_def fh h(1) "1.prems"(2) _ "1.prems"(4)])
        show "h \<le> n" using h(2) "1.prems"(3) by simp
        show "f a" if "h \<le> a" "a < n" for a by (rule "1.prems"(2) [OF that fh])
      qed
      then show ?thesis using True fh by (subst (1 2 3) Search.simps) (simp add: h_def Let_def)
    next
      case fh: False
      have "\<not> f a" if "a < h + 1" for a
      proof
        assume "f a"
        then have "f h" by (rule "1.prems"(2) [rotated 2]) (use that h "1.prems"(3) in auto)
        with fh show False ..
      qed
      note low = this
      have "Search (h + 1) j f \<le> n \<and> (\<forall>a < Search (h + 1) j f. \<not> f a)
          \<and> (\<forall>a. Search (h + 1) j f \<le> a \<longrightarrow> a < n \<longrightarrow> f a)"
        by (rule "1.IH"(2) [OF True h_def fh hj "1.prems"(2,3) low "1.prems"(5)])
      then show ?thesis using True fh by (subst (1 2 3) Search.simps) (simp add: h_def Let_def)
    qed
  qed
qed

text \<open>The search over a sorted list is the reference definition: the first entry not below \<open>h\<close>.\<close>

fun succ_of :: "32 word \<Rightarrow> 32 word list \<Rightarrow> 32 word option" where
  "succ_of h [] = None"
| "succ_of h (x # xs) = (if h \<le> x then Some x else succ_of h xs)"

lemma succ_of_eq:
  assumes "idx \<le> length xs" and "\<And>a. a < idx \<Longrightarrow> \<not> h \<le> xs ! a"
    and "idx < length xs \<Longrightarrow> h \<le> xs ! idx"
  shows "succ_of h xs = (if idx = length xs then None else Some (xs ! idx))"
  using assms
proof (induction xs arbitrary: idx)
  case (Cons x xs)
  show ?case
  proof (cases idx)
    case 0
    with Cons.prems show ?thesis by simp
  next
    case (Suc i)
    have "\<not> h \<le> x" using Cons.prems(2) [of 0] Suc by simp
    moreover have "succ_of h xs = (if i = length xs then None else Some (xs ! i))"
      by (rule Cons.IH) (use Cons.prems Suc in force)+
    ultimately show ?thesis using Suc by simp
  qed
qed simp

definition GetNode_ref :: "chash \<Rightarrow> string \<Rightarrow> string" where
  "GetNode_ref c key =
     (case (case succ_of (hashKey key) (nodes c) of None \<Rightarrow> succ_of 0 (nodes c) | s \<Rightarrow> s) of
        None \<Rightarrow> []
      | Some h \<Rightarrow> (case nodeMap c h of Some n \<Rightarrow> n | None \<Rightarrow> []))"

lemma GetNode_eq_ref:
  assumes "sorted (nodes c)"
  shows "GetNode c key = GetNode_ref c key"
proof (cases "nodes c = []")
  case True
  then show ?thesis by (simp add: GetNode_def GetNode_ref_def)
next
  case False
  let ?n = "length (nodes c)" and ?h = "hashKey key"
  define idx where "idx = Search 0 ?n (\<lambda>i. ?h \<le> nodes c ! i)"
  have m: "\<And>a b. a \<le> b \<Longrightarrow> b < ?n \<Longrightarrow> ?h \<le> nodes c ! a \<Longrightarrow> ?h \<le> nodes c ! b"
    using assms by (meson order_trans sorted_nth_mono)
  have "idx \<le> ?n \<and> (\<forall>a < idx. \<not> ?h \<le> nodes c ! a) \<and> (\<forall>a. idx \<le> a \<longrightarrow> a < ?n \<longrightarrow> ?h \<le> nodes c ! a)"
    unfolding idx_def by (rule Search_spec) (use m in auto)
  then have s: "succ_of ?h (nodes c) = (if idx = ?n then None else Some (nodes c ! idx))"
    by (intro succ_of_eq) auto
  have "succ_of 0 (nodes c) = Some (nodes c ! 0)" using False by (cases "nodes c") auto
  then show ?thesis
    using False s by (simp add: GetNode_def GetNode_ref_def Let_def flip: idx_def)
qed

section \<open>The ring\<close>

definition ring_ok :: "chash \<Rightarrow> bool" where
  "ring_ok c \<longleftrightarrow> sorted (nodes c) \<and> distinct (nodes c) \<and> dom (nodeMap c) = set (nodes c) \<and>
     (\<forall>h n. nodeMap c h = Some n \<longrightarrow> hashKey n = h)"

text \<open>What holds however nodes are added, also when hashes collide.\<close>

definition ring_wf :: "chash \<Rightarrow> bool" where
  "ring_wf c \<longleftrightarrow> sorted (nodes c) \<and> dom (nodeMap c) = set (nodes c)"

lemma ring_ok_wf: "ring_ok c \<Longrightarrow> ring_wf c"
  by (simp add: ring_ok_def ring_wf_def)

definition members :: "chash \<Rightarrow> string set" where
  "members c = ran (nodeMap c)"

lemma ring_ok_New: "ring_ok NewConsistentHash"
  by (simp add: ring_ok_def NewConsistentHash_def)

lemma members_New: "members NewConsistentHash = {}"
  by (simp add: members_def NewConsistentHash_def)

lemma ring_wf_New: "ring_wf NewConsistentHash"
  by (simp add: ring_wf_def NewConsistentHash_def)

lemma ring_wf_AddNode: "ring_wf c \<Longrightarrow> ring_wf (AddNode nd c)"
  by (auto simp: ring_wf_def AddNode_def Let_def)

lemma members_AddNode_sub: "members (AddNode nd c) \<subseteq> insert nd (members c)"
  by (auto simp: members_def AddNode_def Let_def ran_def)

lemma nd_AddNode: "nd \<in> members (AddNode nd c)"
  by (auto simp: members_def AddNode_def Let_def ran_def)

lemma ring_ok_AddNode:
  assumes "ring_ok c" and "\<forall>n \<in> members c. hashKey n \<noteq> hashKey nd"
  shows "ring_ok (AddNode nd c)"
proof -
  have "hashKey nd \<notin> set (nodes c)"
    using assms unfolding ring_ok_def members_def by (metis domD ranI)
  then show ?thesis using assms(1) by (auto simp: ring_ok_def AddNode_def Let_def)
qed

lemma members_AddNode:
  assumes "ring_ok c" and "\<forall>n \<in> members c. hashKey n \<noteq> hashKey nd"
  shows "members (AddNode nd c) = insert nd (members c)"
proof -
  have "nodeMap c (hashKey nd) = None"
    using assms unfolding ring_ok_def members_def by (metis not_None_eq ranI)
  then show ?thesis by (simp add: members_def AddNode_def Let_def)
qed

lemma ring_ok_RemoveNode: "ring_ok c \<Longrightarrow> ring_ok (RemoveNode nd c)"
  by (auto simp: ring_ok_def RemoveNode_def Let_def sorted_remove1)

lemma succ_of_Some:
  "sorted xs \<Longrightarrow> succ_of h xs = Some x \<longleftrightarrow> x \<in> set xs \<and> h \<le> x \<and> (\<forall>y \<in> set xs. h \<le> y \<longrightarrow> x \<le> y)"
  by (induction xs) (auto intro: order.antisym)

lemma succ_of_None: "succ_of h xs = None \<longleftrightarrow> (\<forall>y \<in> set xs. \<not> h \<le> y)"
  by (induction xs) auto

lemma succ_of_in: "succ_of h xs = Some x \<Longrightarrow> x \<in> set xs"
  by (induction xs) (auto split: if_splits)

lemma succ_of_remove1:
  "sorted xs \<Longrightarrow> distinct xs \<Longrightarrow> succ_of h xs \<noteq> Some y \<Longrightarrow> succ_of h (remove1 y xs) = succ_of h xs"
  by (induction xs) auto

lemma succ_of_insert:
  assumes "sorted xs"
  shows "succ_of h (sort (xs @ [y])) = succ_of h xs \<or> succ_of h (sort (xs @ [y])) = Some y"
proof (cases "succ_of h (sort (xs @ [y]))")
  case None
  then have "succ_of h xs = None" by (simp add: succ_of_None)
  with None show ?thesis by simp
next
  case (Some z)
  then have z: "z \<in> insert y (set xs)" "h \<le> z" "\<forall>w \<in> insert y (set xs). h \<le> w \<longrightarrow> z \<le> w"
    using succ_of_Some [of "sort (xs @ [y])" h z] by auto
  show ?thesis
  proof (cases "z = y")
    case False
    then have "succ_of h xs = Some z" using z assms by (simp add: succ_of_Some)
    with Some show ?thesis by simp
  qed (simp add: Some)
qed

lemma GetNode_member:
  assumes "ring_wf c" and "nodes c \<noteq> []"
  shows "GetNode c k \<in> members c"
proof -
  obtain x xs where x: "nodes c = x # xs" using assms(2) by (cases "nodes c") auto
  obtain h where h: "(case succ_of (hashKey k) (nodes c) of None \<Rightarrow> succ_of 0 (nodes c) | s \<Rightarrow> s)
      = Some h" by (cases "succ_of (hashKey k) (nodes c)") (simp_all add: x)
  then have "h \<in> set (nodes c)"
    by (auto split: option.splits dest: succ_of_in)
  then obtain n where "nodeMap c h = Some n"
    using assms(1) unfolding ring_wf_def by (metis domD)
  then show ?thesis
    using h assms(1) by (auto simp: GetNode_eq_ref ring_wf_def GetNode_ref_def members_def intro: ranI)
qed

section \<open>What the users of a ring rely on\<close>

text \<open>A router sends a key to one of its members, always to the same one.\<close>

locale router =
  fixes ok :: "'r \<Rightarrow> bool" and mem :: "'r \<Rightarrow> string set" and route :: "'r \<Rightarrow> string \<Rightarrow> string"
  assumes route_mem: "ok r \<Longrightarrow> mem r \<noteq> {} \<Longrightarrow> route r k \<in> mem r"
begin

text \<open>A table with an entry for every member has one for every key.\<close>

lemma lookup_total:
  assumes "ok r" and "mem r \<noteq> {}" and "mem r \<subseteq> dom t"
  shows "\<exists>x. t (route r k) = Some x"
  using route_mem [OF assms(1,2)] assms(3) by blast

end

interpretation ring: router ring_wf members GetNode
proof unfold_locales
  fix r k assume o: "ring_wf r" and m: "members r \<noteq> {}"
  then have "nodes r \<noteq> []" by (auto simp: ring_wf_def members_def ran_def dom_def)
  with o show "GetNode r k \<in> members r" by (rule GetNode_member)
qed

section \<open>Properties of the ring\<close>

lemma GetNode_ref_owner:
  assumes "ring_ok c" and "nodes c \<noteq> []"
  shows "\<exists>h. (case succ_of (hashKey k) (nodes c) of None \<Rightarrow> succ_of 0 (nodes c) | s \<Rightarrow> s) = Some h \<and>
    h \<in> set (nodes c) \<and> nodeMap c h = Some (GetNode c k)"
proof -
  obtain x xs where x: "nodes c = x # xs" using assms(2) by (cases "nodes c") auto
  obtain h where h: "(case succ_of (hashKey k) (nodes c) of None \<Rightarrow> succ_of 0 (nodes c) | s \<Rightarrow> s)
      = Some h" by (cases "succ_of (hashKey k) (nodes c)") (simp_all add: x)
  then have i: "h \<in> set (nodes c)" by (auto split: option.splits dest: succ_of_in)
  then obtain n where "nodeMap c h = Some n"
    using assms(1) unfolding ring_ok_def by (metis domD)
  with h i show ?thesis
    using assms(1) by (simp add: GetNode_eq_ref ring_ok_def GetNode_ref_def)
qed

text \<open>C38.  A key goes to the node with the least hash that is not below the key's, and to the node
  with the least hash of all if there is none: the binary search with wrap-around finds the
  clockwise successor.\<close>

theorem GetNode_successor:
  assumes "ring_ok c" and "nodes c \<noteq> []"
  shows "\<exists>h \<in> set (nodes c). nodeMap c h = Some (GetNode c key) \<and>
    (if \<exists>n \<in> set (nodes c). hashKey key \<le> n
     then hashKey key \<le> h \<and> (\<forall>n \<in> set (nodes c). hashKey key \<le> n \<longrightarrow> h \<le> n)
     else \<forall>n \<in> set (nodes c). h \<le> n)"
proof -
  have s: "sorted (nodes c)" using assms(1) by (simp add: ring_ok_def)
  from GetNode_ref_owner [OF assms, of key] obtain h where
    h: "(case succ_of (hashKey key) (nodes c) of None \<Rightarrow> succ_of 0 (nodes c) | s \<Rightarrow> s) = Some h"
      "h \<in> set (nodes c)" "nodeMap c h = Some (GetNode c key)" by blast
  show ?thesis
  proof (cases "succ_of (hashKey key) (nodes c)")
    case None
    then have "succ_of 0 (nodes c) = Some h" using h(1) by simp
    then have "\<forall>n \<in> set (nodes c). h \<le> n" using succ_of_Some [OF s] by simp
    with None h(2,3) show ?thesis by (auto simp: succ_of_None)
  next
    case (Some x)
    then have "x = h" using h(1) by simp
    with Some have "hashKey key \<le> h \<and> (\<forall>n \<in> set (nodes c). hashKey key \<le> n \<longrightarrow> h \<le> n)"
      using succ_of_Some [OF s] by blast
    with h(2,3) show ?thesis by auto
  qed
qed

definition ring3 :: chash where
  "ring3 = AddNode ''2'' (AddNode ''1'' (AddNode ''0'' NewConsistentHash))"

lemma ring3_ok: "ring_ok ring3"
proof -
  have h: "hashKey ''0'' \<noteq> hashKey ''1''" "hashKey ''0'' \<noteq> hashKey ''2''" "hashKey ''1'' \<noteq> hashKey ''2''"
    by code_simp+
  let ?r1 = "AddNode ''0'' NewConsistentHash" and ?r2 = "AddNode ''1'' (AddNode ''0'' NewConsistentHash)"
  have 1: "ring_ok ?r1" by (rule ring_ok_AddNode) (simp_all add: ring_ok_New members_New)
  have m1: "members ?r1 \<subseteq> {''0''}" using members_AddNode_sub members_New by blast
  have 2: "ring_ok ?r2" by (rule ring_ok_AddNode [OF 1]) (use m1 h(1) in blast)
  have m2: "members ?r2 \<subseteq> {''0'', ''1''}" using members_AddNode_sub m1 by blast
  show ?thesis unfolding ring3_def by (rule ring_ok_AddNode [OF 2]) (use m2 h in blast)
qed

lemma ring3_nodes: "nodes ring3 \<noteq> []"
  by code_simp

theorem GetNode_successor_witness:
  "\<exists>h \<in> set (nodes ring3). nodeMap ring3 h = Some (GetNode ring3 ''user'')"
  using GetNode_successor [OF ring3_ok ring3_nodes] by blast

text \<open>Removing a node moves no key but those the node had.\<close>

lemma RemoveNode_moves:
  assumes "ring_ok c" and "n \<in> members c" and "GetNode c k \<noteq> n"
  shows "GetNode (RemoveNode n c) k = GetNode c k"
proof -
  obtain h0 where h0: "nodeMap c h0 = Some n" using assms(2) by (auto simp: members_def ran_def)
  then have hn: "hashKey n = h0" using assms(1) by (simp add: ring_ok_def)
  have ne: "nodes c \<noteq> []"
    using h0 assms(1) unfolding ring_ok_def by (metis domI empty_iff empty_set)
  have s: "sorted (nodes c)" "distinct (nodes c)" using assms(1) by (simp_all add: ring_ok_def)
  from GetNode_ref_owner [OF assms(1) ne, of k] obtain h where
    h: "(case succ_of (hashKey k) (nodes c) of None \<Rightarrow> succ_of 0 (nodes c) | s \<Rightarrow> s) = Some h"
      "nodeMap c h = Some (GetNode c k)" by blast
  have hh: "h \<noteq> h0" using h(2) h0 assms(3) by auto
  have r: "nodes (RemoveNode n c) = remove1 h0 (nodes c)"
    "nodeMap (RemoveNode n c) = (nodeMap c)(h0 := None)"
    by (simp_all add: RemoveNode_def Let_def hn)
  have "(case succ_of (hashKey k) (remove1 h0 (nodes c)) of
      None \<Rightarrow> succ_of 0 (remove1 h0 (nodes c)) | s \<Rightarrow> s) = Some h"
  proof (cases "succ_of (hashKey k) (nodes c)")
    case None
    then have "succ_of 0 (nodes c) = Some h" using h(1) by simp
    then have "succ_of 0 (remove1 h0 (nodes c)) = Some h" using hh s by (simp add: succ_of_remove1)
    then show ?thesis using None s by (simp add: succ_of_remove1)
  next
    case (Some x)
    with h(1) have "x = h" by simp
    with Some hh s show ?thesis by (simp add: succ_of_remove1)
  qed
  then have "GetNode_ref (RemoveNode n c) k = GetNode c k"
    using h(2) hh unfolding GetNode_ref_def r by simp
  moreover have "sorted (nodes (RemoveNode n c))" using s by (simp add: r sorted_remove1)
  ultimately show ?thesis by (simp add: GetNode_eq_ref)
qed

text \<open>Adding a node whose hash is new moves keys to it and none between the others.\<close>

lemma AddNode_moves:
  assumes "ring_ok c" and "nodes c \<noteq> []" and "hashKey n \<notin> set (nodes c)"
  shows "GetNode (AddNode n c) k = n \<or> GetNode (AddNode n c) k = GetNode c k"
proof -
  let ?h0 = "hashKey n" and ?d = "AddNode n c"
  have s: "sorted (nodes c)" using assms(1) by (simp add: ring_ok_def)
  have d: "nodes ?d = sort (nodes c @ [?h0])" "nodeMap ?d = (nodeMap c)(?h0 \<mapsto> n)"
    by (simp_all add: AddNode_def Let_def)
  from GetNode_ref_owner [OF assms(1,2), of k] obtain h where
    h: "(case succ_of (hashKey k) (nodes c) of None \<Rightarrow> succ_of 0 (nodes c) | s \<Rightarrow> s) = Some h"
      "h \<in> set (nodes c)" "nodeMap c h = Some (GetNode c k)" by blast
  have "(case succ_of (hashKey k) (nodes ?d) of None \<Rightarrow> succ_of 0 (nodes ?d) | s \<Rightarrow> s) \<in> {Some h, Some ?h0}"
    using succ_of_insert [OF s, of "hashKey k" ?h0] succ_of_insert [OF s, of 0 ?h0] h(1)
    by (auto simp: d(1) split: option.splits)
  moreover have "h \<noteq> ?h0" using h(2) assms(3) by auto
  ultimately have "GetNode_ref ?d k \<in> {n, GetNode c k}"
    using h(3) by (auto simp: GetNode_ref_def d(2))
  then show ?thesis by (simp add: GetNode_eq_ref d(1))
qed

end
