(* ===== verification/Store.thy ===== *)
theory Store
  imports Prelude
begin

text \<open>
  \<^verbatim>\<open>src/internal/store/\<close>: the objects and the map of one shard, with lazy expiry.  The clock
  readings an operation makes are its arguments.  \<open>live\<close> is the abstract view at an instant:
  the binding a client can still see; the lemmas relate every operation to it, and the locale
  \<open>imemory\<close> is the contract of \<^verbatim>\<open>IMem.go\<close> that the command handlers use.
\<close>

type_synonym kind = "32 word"

definition KDefault :: kind where "KDefault = 0"
definition KString :: kind where "KString = 1"
definition KNumber :: kind where "KNumber = 2"
definition KMap :: kind where "KMap = 3"
definition KSet :: kind where "KSet = 4"
definition KList :: kind where "KList = 5"
definition KJSON :: kind where "KJSON = 6"

lemmas kind_defs = KDefault_def KString_def KNumber_def KMap_def KSet_def KList_def KJSON_def

text \<open>\<^verbatim>\<open>comm.Object\<close>.\<close>

record object =
  Value :: bytes
  Kind :: kind
  Timestamp :: int

type_synonym memory = "object gomap"

definition i32 :: "int \<Rightarrow> int" where
  "i32 x = (x + 2 ^ 31) mod 2 ^ 32 - 2 ^ 31"

definition NewMemory :: memory where
  "NewMemory = []"

definition Length :: "memory \<Rightarrow> int" where
  "Length m = i32 (int (length m))"

definition Get :: "int \<Rightarrow> string \<Rightarrow> memory \<Rightarrow> memory \<times> object option" where
  "Get now key m =
     (case gm_get m key of
        None \<Rightarrow> (m, None)
      | Some obj \<Rightarrow>
          if 0 < Timestamp obj \<and> Timestamp obj < now then (gm_del key m, None)
          else (m, Some obj))"

definition Set :: "string \<Rightarrow> bytes \<Rightarrow> kind \<Rightarrow> memory \<Rightarrow> memory" where
  "Set key v k m = gm_upd key \<lparr>Value = v, Kind = k, Timestamp = 0\<rparr> m"

definition SetWithTTL :: "int \<Rightarrow> string \<Rightarrow> bytes \<Rightarrow> kind \<Rightarrow> int \<Rightarrow> memory \<Rightarrow> memory" where
  "SetWithTTL now key v k ttlSeconds m =
     (let expirationTime = (if 0 < ttlSeconds then i64 (now + ttlSeconds) else 0)
      in gm_upd key \<lparr>Value = v, Kind = k, Timestamp = expirationTime\<rparr> m)"

definition Delete :: "string \<Rightarrow> memory \<Rightarrow> memory \<times> bool" where
  "Delete key m = (if gm_get m key \<noteq> None then (gm_del key m, True) else (m, False))"

definition TTL :: "int \<Rightarrow> string \<Rightarrow> memory \<Rightarrow> memory \<times> int" where
  "TTL now key m =
     (case gm_get m key of
        None \<Rightarrow> (m, -2)
      | Some obj \<Rightarrow>
          if Timestamp obj = 0 then (m, -1)
          else if Timestamp obj \<le> now then (gm_del key m, -2)
          else (m, i64 (Timestamp obj - now)))"

text \<open>\<open>Expire\<close> reads the clock once for the check and once for the new expiration time.\<close>

definition Expire :: "int \<Rightarrow> int \<Rightarrow> string \<Rightarrow> int \<Rightarrow> memory \<Rightarrow> memory \<times> bool" where
  "Expire now now' key ttlSeconds m =
     (case gm_get m key of
        None \<Rightarrow> (m, False)
      | Some obj \<Rightarrow>
          if 0 < Timestamp obj \<and> Timestamp obj \<le> now then (gm_del key m, False)
          else if 0 < ttlSeconds
          then (gm_upd key (obj\<lparr>Timestamp := i64 (now' + ttlSeconds)\<rparr>) m, True)
          else (gm_upd key (obj\<lparr>Timestamp := 0\<rparr>) m, True))"

definition CleanupExpired :: "int \<Rightarrow> memory \<Rightarrow> memory \<times> int" where
  "CleanupExpired now m =
     (let dead = (\<lambda>obj. 0 < Timestamp obj \<and> Timestamp obj \<le> now)
      in (filter (\<lambda>p. \<not> dead (snd p)) m, i32 (int (length (filter (\<lambda>p. dead (snd p)) m)))))"

section \<open>The abstract view\<close>

text \<open>What \<open>Get\<close> at time \<open>now\<close> can see.\<close>

definition expired :: "int \<Rightarrow> object \<Rightarrow> bool" where
  "expired now obj \<longleftrightarrow> 0 < Timestamp obj \<and> Timestamp obj < now"

definition live :: "int \<Rightarrow> memory \<Rightarrow> string \<Rightarrow> object option" where
  "live now m key =
     (case gm_get m key of None \<Rightarrow> None | Some obj \<Rightarrow> if expired now obj then None else Some obj)"

lemma Get_live: "snd (Get now key m) = live now m key"
  by (simp add: Get_def live_def expired_def split: option.split)

lemma Get_fst: "fst (Get now key m) =
    (if gm_get m key \<noteq> None \<and> live now m key = None then gm_del key m else m)"
  by (simp add: Get_def live_def expired_def split: option.split)

lemma Get_eq: "Get now key m =
    (if gm_get m key \<noteq> None \<and> live now m key = None then gm_del key m else m, live now m key)"
  by (simp add: prod_eq_iff Get_live Get_fst)

lemma live_Get: "now \<le> t \<Longrightarrow> live t (fst (Get now key m)) = live t m"
  by (rule ext) (auto simp: Get_def live_def expired_def split: option.splits)

lemma live_upd: "live now (gm_upd key obj m) k =
    (if k = key then (if expired now obj then None else Some obj) else live now m k)"
  by (simp add: live_def)

lemma live_del: "live now (gm_del key m) k = (if k = key then None else live now m k)"
  by (simp add: live_def)

lemma live_Set: "live now (Set key v kd m) =
    (live now m)(key \<mapsto> \<lparr>Value = v, Kind = kd, Timestamp = 0\<rparr>)"
  by (rule ext) (simp add: Set_def live_upd expired_def)

lemma live_Delete: "live now (fst (Delete key m)) = (live now m)(key := None)"
  by (rule ext) (simp add: Delete_def live_def)

text \<open>Time only takes bindings away.\<close>

lemma live_mono: "s \<le> t \<Longrightarrow> live t m k = Some obj \<Longrightarrow> live s m k = Some obj"
  by (auto simp: live_def expired_def split: option.splits if_splits)

lemma gm_ok_Get [simp]: "gm_ok m \<Longrightarrow> gm_ok (fst (Get now key m))"
  by (simp add: Get_fst)

lemma gm_ok_store [simp]:
  assumes "gm_ok m"
  shows "gm_ok (Set key v kd m)" "gm_ok (SetWithTTL now key v kd ttl m)"
    "gm_ok (fst (Delete key m))" "gm_ok (fst (TTL now key m))"
    "gm_ok (fst (Expire now now' key ttl m))" "gm_ok (fst (CleanupExpired now m))"
  using assms
  by (simp_all add: Set_def SetWithTTL_def Delete_def TTL_def Expire_def CleanupExpired_def Let_def
      gm_ok_filter split: option.split)

text \<open>No operation on one key touches another.\<close>

lemma store_frame:
  assumes "k \<noteq> key"
  shows "gm_get (fst (Get now key m)) k = gm_get m k" "gm_get (Set key v kd m) k = gm_get m k"
    "gm_get (SetWithTTL now key v kd ttl m) k = gm_get m k"
    "gm_get (fst (Delete key m)) k = gm_get m k" "gm_get (fst (TTL now key m)) k = gm_get m k"
    "gm_get (fst (Expire now now' key ttl m)) k = gm_get m k"
  using assms
  by (simp_all add: Get_def Set_def SetWithTTL_def Delete_def TTL_def Expire_def Let_def
      split: option.split)

lemma map_of_filter_value:
  "distinct (map fst m) \<Longrightarrow>
   map_of (filter (\<lambda>p. P (snd p)) m) k = (case map_of m k of Some v \<Rightarrow> if P v then Some v else None | None \<Rightarrow> None)"
proof (induction m)
  case (Cons p m)
  have "map_of m (fst p) = None" using Cons.prems by (simp add: map_of_eq_None_iff)
  with Cons show ?case by (cases p) (auto split: option.splits)
qed simp

section \<open>The interface\<close>

text \<open>
  The laws of \<^verbatim>\<open>IMemory\<close>.  \<open>view now m\<close> is what a client can see at time \<open>now\<close>: setting and
  deleting a key replace its binding and leave the others, a look-up reads the view and does
  not change it.
\<close>

locale imemory =
  fixes view :: "int \<Rightarrow> 'm \<Rightarrow> string \<Rightarrow> object option"
    and get :: "int \<Rightarrow> string \<Rightarrow> 'm \<Rightarrow> 'm \<times> object option"
    and set :: "string \<Rightarrow> bytes \<Rightarrow> kind \<Rightarrow> 'm \<Rightarrow> 'm"
    and del :: "string \<Rightarrow> 'm \<Rightarrow> 'm \<times> bool"
    and inv :: "'m \<Rightarrow> bool"
  assumes get_view: "snd (get now k m) = view now m k"
    and get_same: "now \<le> t \<Longrightarrow> view t (fst (get now k m)) = view t m"
    and set_view: "view now (set k v kd m) = (view now m)(k \<mapsto> \<lparr>Value = v, Kind = kd, Timestamp = 0\<rparr>)"
    and del_view: "view now (fst (del k m)) = (view now m)(k := None)"
    and inv_get: "inv m \<Longrightarrow> inv (fst (get now k m))"
    and inv_set: "inv m \<Longrightarrow> inv (set k v kd m)"
    and inv_del: "inv m \<Longrightarrow> inv (fst (del k m))"
begin

lemma get_after_set:
  "snd (get now k (set k v kd m)) = Some \<lparr>Value = v, Kind = kd, Timestamp = 0\<rparr>"
  by (simp add: get_view set_view)

lemma get_after_set_other: "k \<noteq> k' \<Longrightarrow> snd (get now k (set k' v kd m)) = snd (get now k m)"
  by (simp add: get_view set_view)

lemma get_after_del: "snd (get now k (fst (del k m))) = None"
  by (simp add: get_view del_view)

text \<open>Reading a key, even one that has expired, is invisible to later readers.\<close>

lemma get_get: "now \<le> t \<Longrightarrow> snd (get t k' (fst (get now k m))) = snd (get t k' m)"
  by (simp add: get_view get_same)

end

interpretation mem: imemory live Get Set Delete gm_ok
  by unfold_locales (simp_all add: Get_live live_Get live_Set live_Delete)

end
