(* ===== verification/Gostd.thy ===== *)
theory Gostd
  imports Prelude
begin

text \<open>
  The routines of Go's \<^verbatim>\<open>strings\<close> and \<^verbatim>\<open>strconv\<close> packages that Fleare calls, over bytes.
  \<open>ParseInt64\<close> is \<^verbatim>\<open>strconv.ParseInt(s, 10, 64)\<close> (and \<^verbatim>\<open>strconv.Atoi\<close>, which reads the same
  numbers on a 64-bit machine), \<open>None\<close> for any of its errors; \<open>Itoa\<close> is \<^verbatim>\<open>strconv.Itoa\<close> and
  \<^verbatim>\<open>fmt.Sprintf("%d", n)\<close>.
\<close>

section \<open>Decimal digits\<close>

definition is_digit :: "char \<Rightarrow> bool" where
  "is_digit c \<longleftrightarrow> 48 \<le> byte_of c \<and> byte_of c \<le> 57"

definition dig :: "nat \<Rightarrow> char" where
  "dig d = char_of (48 + d)"

definition dval :: "char \<Rightarrow> nat" where
  "dval c = byte_of c - 48"

lemma byte_of_dig: "d < 10 \<Longrightarrow> byte_of (dig d) = 48 + d"
  by (simp add: byte_of_def dig_def of_char_of)

lemma is_digit_dig [simp]: "d < 10 \<Longrightarrow> is_digit (dig d)"
  by (simp add: is_digit_def byte_of_dig)

lemma dval_dig [simp]: "d < 10 \<Longrightarrow> dval (dig d) = d"
  by (simp add: dval_def byte_of_dig)

lemma byte_of_inj: "byte_of c = byte_of d \<longleftrightarrow> c = d"
  by (simp add: byte_of_def)

lemma dig_dval: "is_digit c \<Longrightarrow> dig (dval c) = c"
  by (simp add: is_digit_def dig_def dval_def byte_of_def)

lemma dval_less: "is_digit c \<Longrightarrow> dval c < 10"
  unfolding is_digit_def dval_def by linarith

fun dec_of_nat :: "nat \<Rightarrow> string" where
  "dec_of_nat n = (if n < 10 then [dig n] else dec_of_nat (n div 10) @ [dig (n mod 10)])"

declare dec_of_nat.simps [simp del]

definition nat_of_dec :: "string \<Rightarrow> nat" where
  "nat_of_dec s = foldl (\<lambda>n c. n * 10 + dval c) 0 s"

lemma nat_of_dec_Nil [simp]: "nat_of_dec [] = 0"
  by (simp add: nat_of_dec_def)

lemma nat_of_dec_snoc [simp]: "nat_of_dec (s @ [c]) = nat_of_dec s * 10 + dval c"
  by (simp add: nat_of_dec_def)

lemma nat_of_dec_append: "nat_of_dec (s @ t) = nat_of_dec s * 10 ^ length t + nat_of_dec t"
  by (induction t rule: rev_induct) (simp_all add: algebra_simps flip: append_assoc)

lemma nat_of_dec_of_nat [simp]: "nat_of_dec (dec_of_nat n) = n"
proof (induction n rule: dec_of_nat.induct)
  case (1 n)
  show ?case
  proof (cases "n < 10")
    case True
    then show ?thesis by (subst dec_of_nat.simps) (simp add: nat_of_dec_def)
  next
    case False
    with 1 show ?thesis by (subst dec_of_nat.simps) simp
  qed
qed

lemma dec_of_nat_digits: "list_all is_digit (dec_of_nat n)"
proof (induction n rule: dec_of_nat.induct)
  case (1 n)
  then show ?case by (subst dec_of_nat.simps) simp
qed

lemma dec_of_nat_not_Nil [simp]: "dec_of_nat n \<noteq> []"
  by (subst dec_of_nat.simps) simp

lemma nat_of_dec_less: "list_all is_digit s \<Longrightarrow> nat_of_dec s < 10 ^ length s"
  by (induction s rule: rev_induct) (auto dest: dval_less)

section \<open>Integers as text\<close>

definition Itoa :: "int \<Rightarrow> string" where
  "Itoa i = (if i < 0 then CHR ''-'' # dec_of_nat (nat (- i)) else dec_of_nat (nat i))"

definition strip_sign :: "string \<Rightarrow> bool \<times> string" where
  "strip_sign s = (case s of
     [] \<Rightarrow> (False, [])
   | c # cs \<Rightarrow> if c = CHR ''+'' then (False, cs)
               else if c = CHR ''-'' then (True, cs) else (False, s))"

definition ParseInt64 :: "string \<Rightarrow> int option" where
  "ParseInt64 s =
     (case strip_sign s of (neg, ds) \<Rightarrow>
        if ds = [] \<or> \<not> list_all is_digit ds then None
        else let un = nat_of_dec ds in
          if \<not> neg \<and> 2 ^ 63 \<le> un then None
          else if neg \<and> 2 ^ 63 < un then None
          else Some (if neg then - int un else int un))"

lemma strip_sign_dec [simp]: "strip_sign (dec_of_nat n) = (False, dec_of_nat n)"
proof (cases "dec_of_nat n")
  case (Cons c cs)
  with dec_of_nat_digits [of n] have "is_digit c" by simp
  then have "c \<noteq> CHR ''+''" "c \<noteq> CHR ''-''"
    by (auto simp: is_digit_def byte_of_def)
  with Cons show ?thesis by (simp add: strip_sign_def)
qed simp

lemma ParseInt64_Itoa: "in_i64 i \<Longrightarrow> ParseInt64 (Itoa i) = Some i"
proof (cases "i < 0")
  case True
  assume "in_i64 i"
  with True have "nat (- i) \<le> 2 ^ 63" by (simp add: in_i64_def)
  then show ?thesis using True dec_of_nat_digits [of "nat (- i)"]
    by (simp add: Itoa_def ParseInt64_def strip_sign_def Let_def)
next
  case False
  assume "in_i64 i"
  with False have "nat i < 2 ^ 63" by (simp add: in_i64_def)
  then show ?thesis using False dec_of_nat_digits [of "nat i"]
    by (simp add: Itoa_def ParseInt64_def Let_def)
qed

lemma ParseInt64_in: "ParseInt64 s = Some i \<Longrightarrow> in_i64 i"
  by (auto simp: ParseInt64_def in_i64_def Let_def split: prod.splits if_splits)

section \<open>Strings\<close>

definition HasPrefix :: "string \<Rightarrow> string \<Rightarrow> bool" where
  "HasPrefix s p \<longleftrightarrow> take (length p) s = p"

definition HasSuffix :: "string \<Rightarrow> string \<Rightarrow> bool" where
  "HasSuffix s p \<longleftrightarrow> length p \<le> length s \<and> drop (length s - length p) s = p"

definition TrimPrefix :: "string \<Rightarrow> string \<Rightarrow> string" where
  "TrimPrefix s p = (if HasPrefix s p then drop (length p) s else s)"

text \<open>\<^verbatim>\<open>strings.Index\<close>: \<open>None\<close> for its \<open>-1\<close>.\<close>

fun Index :: "string \<Rightarrow> string \<Rightarrow> nat option" where
  "Index [] p = (if p = [] then Some 0 else None)"
| "Index (c # s) p = (if HasPrefix (c # s) p then Some 0 else map_option Suc (Index s p))"

text \<open>\<^verbatim>\<open>strings.Split(s, sep)\<close> for a separator of one byte; never the empty list.\<close>

fun Split :: "char \<Rightarrow> string \<Rightarrow> string list" where
  "Split c [] = [[]]"
| "Split c (x # xs) =
     (if x = c then [] # Split c xs
      else case Split c xs of [] \<Rightarrow> [[x]] | y # ys \<Rightarrow> (x # y) # ys)"

text \<open>\<^verbatim>\<open>strings.SplitN(s, sep, 2)\<close> for a separator of one byte.\<close>

definition SplitN2 :: "char \<Rightarrow> string \<Rightarrow> string list" where
  "SplitN2 c s = (case dropWhile (\<lambda>x. x \<noteq> c) s of
     [] \<Rightarrow> [s] | _ # rest \<Rightarrow> [takeWhile (\<lambda>x. x \<noteq> c) s, rest])"

fun Join :: "string list \<Rightarrow> string \<Rightarrow> string" where
  "Join [] sep = []"
| "Join [s] sep = s"
| "Join (s # ss) sep = s @ sep @ Join ss sep"

lemma Split_not_Nil [simp]: "Split c s \<noteq> []"
  by (induction s) (auto split: list.splits)

lemma Split_no_sep: "p \<in> set (Split c s) \<Longrightarrow> c \<notin> set p"
  by (induction s arbitrary: p) (auto split: list.splits if_splits)

lemma Join_Split: "Join (Split c s) [c] = s"
proof (induction s)
  case (Cons x xs)
  obtain y ys where s: "Split c xs = y # ys" by (meson Split_not_Nil neq_Nil_conv)
  with Cons show ?case by (cases ys) auto
qed simp

lemma Split_append: "c \<notin> set s \<Longrightarrow> Split c (s @ c # t) = s # Split c t"
  by (induction s) auto

lemma Split_absent: "c \<notin> set s \<Longrightarrow> Split c s = [s]"
  by (induction s) auto

lemma Split_Join:
  "ks \<noteq> [] \<Longrightarrow> \<forall>k \<in> set ks. c \<notin> set k \<Longrightarrow> Split c (Join ks [c]) = ks"
  by (induction ks "[c]" rule: Join.induct) (auto simp: Split_absent Split_append)

lemma HasPrefix_append [simp]: "HasPrefix (p @ s) p"
  by (simp add: HasPrefix_def)

lemma HasPrefixD: "HasPrefix s p \<Longrightarrow> s = p @ drop (length p) s"
  by (metis HasPrefix_def append_take_drop_id)

lemma TrimPrefix_append [simp]: "TrimPrefix (p @ s) p = s"
  by (simp add: TrimPrefix_def)

lemma Index_Some: "Index s p = Some i \<Longrightarrow>
  i + length p \<le> length s \<and> take (length p) (drop i s) = p"
proof (induction s p arbitrary: i rule: Index.induct)
  case (2 c s p)
  show ?case
  proof (cases "HasPrefix (c # s) p")
    case True
    with "2.prems" show ?thesis
      by (auto simp: HasPrefix_def) (metis length_Cons length_take min.cobounded1)
  next
    case False
    with 2 show ?thesis by auto
  qed
qed (auto split: if_splits)

end
