(* ===== verification/Wal.thy ===== *)
theory Wal
  imports Consistent_Hash Store Gostd
begin

text \<open>
  \<^verbatim>\<open>src/internal/wal/wal.go\<close>: the write-ahead log.  A shard is the channel between the clients and
  its goroutine, the batch buffer, and the file, of which the first \<open>synced\<close> bytes are known to
  be on the disk.  The goroutine \<^verbatim>\<open>run\<close> is a step relation with a program counter; clients
  enqueue between its steps.  Durations are integers (nanoseconds).  Writes to the file are
  taken to succeed: the code logs their errors and goes on.  The protobuf library is a
  parameter (\<open>proto\<close>), with its round trip as the hypothesis \<open>proto_ok\<close>.  An entry is taken as
  it is when it is enqueued.
\<close>

section \<open>Entries and their encoding\<close>

record walEntry =
  Op :: int
  EKey :: string
  EObject :: "object option"

definition UPDATE :: int where "UPDATE = 0"
definition DELETE :: int where "DELETE = 1"

record proto =
  Marshal :: "walEntry \<Rightarrow> bytes option"
  Unmarshal :: "bytes \<Rightarrow> walEntry option"

text \<open>What the protobuf documentation promises: a marshalled message, at most 2 GiB long, reads
  back as itself.\<close>

definition proto_ok :: "proto \<Rightarrow> bool" where
  "proto_ok P \<longleftrightarrow>
     (\<forall>e d. Marshal P e = Some d \<longrightarrow> Unmarshal P d = Some e \<and> length d \<le> 2 ^ 31)"

section \<open>Options\<close>

record wal_options =
  ShardCount :: int
  WALPath :: string
  BufSize :: int
  BatchBytes :: int
  FlushInterval :: int
  WriteChanSize :: int
  SyncPolicy :: int
  SyncEveryN :: int
  SegmentMaxSize :: int

definition SyncNever :: int where "SyncNever = 0"
definition SyncEveryBatch :: int where "SyncEveryBatch = 1"
definition SyncEveryNBatch :: int where "SyncEveryNBatch = 2"

definition defaultBufSize :: int where "defaultBufSize = 4194304"
definition defaultBatchBytes :: int where "defaultBatchBytes = 1048576"
definition defaultFlushInterval :: int where "defaultFlushInterval = 5000000"

text \<open>\<open>gomaxprocs\<close> is the value of \<^verbatim>\<open>runtime.GOMAXPROCS(0)\<close>.\<close>

definition withDefaults :: "int \<Rightarrow> wal_options \<Rightarrow> wal_options" where
  "withDefaults gomaxprocs n0 =
     (let n1 = (if BufSize n0 \<le> 0 then n0\<lparr>BufSize := defaultBufSize\<rparr> else n0);
          n2 = (if BatchBytes n1 \<le> 0 then n1\<lparr>BatchBytes := defaultBatchBytes\<rparr> else n1);
          n3 = (if FlushInterval n2 \<le> 0 then n2\<lparr>FlushInterval := defaultFlushInterval\<rparr> else n2);
          n4 = (if WriteChanSize n3 \<le> 0 then n3\<lparr>WriteChanSize := 65536\<rparr> else n3);
          n5 = (if ShardCount n4 \<le> 0 then n4\<lparr>ShardCount := max 2 gomaxprocs\<rparr> else n4);
          n6 = (if SyncEveryN n5 \<le> 0 then n5\<lparr>SyncEveryN := 10\<rparr> else n5)
      in if WALPath n6 = [] then n6\<lparr>WALPath := ''.''\<rparr> else n6)"

definition options_ok :: "wal_options \<Rightarrow> bool" where
  "options_ok n \<longleftrightarrow> 0 < BufSize n \<and> 0 < BatchBytes n \<and> 0 < FlushInterval n \<and>
     0 < WriteChanSize n \<and> 0 < ShardCount n \<and> 0 < SyncEveryN n \<and> WALPath n \<noteq> []"

section \<open>A shard\<close>

text \<open>Where the goroutine is: at the outer select, in the inner drain loop, at the label
  \<^verbatim>\<open>FLUSH_CHECK\<close>, or returned.\<close>

datatype pc = PSelect | PDrain | PCheck | PDone

record walShard =
  wid :: string
  opts :: wal_options
  ch :: "walEntry list"
  sclosed :: bool
  batchBuf :: bytes
  batchBytes :: int
  batchCount :: int
  wfile :: bytes
  synced :: nat
  fclosed :: bool
  wpc :: pc

definition newWalShard :: "string \<Rightarrow> bytes \<Rightarrow> wal_options \<Rightarrow> walShard" where
  "newWalShard i content o' =
     \<lparr>wid = i, opts = o', ch = [], sclosed = False, batchBuf = [], batchBytes = 0,
      batchCount = 0, wfile = content, synced = length content, fclosed = False, wpc = PSelect\<rparr>"

text \<open>\<^verbatim>\<open>encodeAppend\<close>: an entry that does not marshal is logged and skipped.\<close>

definition encodeAppend :: "proto \<Rightarrow> walEntry \<Rightarrow> walShard \<Rightarrow> walShard" where
  "encodeAppend P e s =
     (case Marshal P e of
        None \<Rightarrow> s
      | Some data \<Rightarrow>
          let recLen = 4 + length data;
              header = PutUint32 (of_nat recLen) @ PutUint32 (ChecksumC data)
          in s\<lparr>batchBuf := batchBuf s @ header @ data,
               batchBytes := batchBytes s + (8 + int (length data)),
               batchCount := batchCount s + 1\<rparr>)"

definition wflush :: "bool \<Rightarrow> walShard \<Rightarrow> walShard" where
  "wflush forceSync s =
     (if batchBytes s = 0 then s
      else let file' = wfile s @ batchBuf s;
               needSync =
                 (if SyncPolicy (opts s) = SyncEveryBatch then True
                  else if SyncPolicy (opts s) = SyncEveryNBatch
                  then batchCount s mod SyncEveryN (opts s) = 0
                  else False);
               needSync' = (if forceSync then True else needSync)
           in s\<lparr>wfile := file', synced := (if needSync' then length file' else synced s),
                batchBuf := [], batchBytes := 0\<rparr>)"

text \<open>
  The branches of \<^verbatim>\<open>run\<close>.  \<open>Recv\<close> takes an entry, in the outer select or in the drain loop;
  \<open>Closed\<close> finds the channel closed and empty; \<open>Timeout\<close> is the timer of the outer select;
  \<open>Default\<close> leaves the drain loop when the channel is empty, \<open>Full\<close> when the batch is; \<open>Check\<close>
  tests the batch and the deadline (\<open>late\<close> is \<^verbatim>\<open>time.Now().After(batchDeadline)\<close>).
\<close>

datatype branch = Recv | Closed | Timeout | Default | Full | Check bool

fun run_branch :: "proto \<Rightarrow> branch \<Rightarrow> walShard \<Rightarrow> walShard option" where
  "run_branch P Recv s =
     (if wpc s = PSelect \<or> (wpc s = PDrain \<and> batchBytes s < BatchBytes (opts s)) then
        (case ch s of
           e # r \<Rightarrow> Some ((encodeAppend P e (s\<lparr>ch := r\<rparr>))\<lparr>wpc := PDrain\<rparr>)
         | [] \<Rightarrow> None)
      else None)"
| "run_branch P Closed s =
     (if (wpc s = PSelect \<or> (wpc s = PDrain \<and> batchBytes s < BatchBytes (opts s)))
         \<and> ch s = [] \<and> sclosed s
      then Some ((wflush True s)\<lparr>wpc := PDone\<rparr>) else None)"
| "run_branch P Timeout s = (if wpc s = PSelect then Some (s\<lparr>wpc := PDrain\<rparr>) else None)"
| "run_branch P Default s =
     (if wpc s = PDrain \<and> batchBytes s < BatchBytes (opts s) \<and> ch s = [] \<and> \<not> sclosed s
      then Some (s\<lparr>wpc := PCheck\<rparr>) else None)"
| "run_branch P Full s =
     (if wpc s = PDrain \<and> \<not> batchBytes s < BatchBytes (opts s)
      then Some (s\<lparr>wpc := PCheck\<rparr>) else None)"
| "run_branch P (Check late) s =
     (if wpc s = PCheck then
        Some ((if BatchBytes (opts s) \<le> batchBytes s \<or> late then wflush False s else s)\<lparr>wpc := PSelect\<rparr>)
      else None)"

text \<open>A send that finds room; \<^verbatim>\<open>Close\<close> of a shard, first closing the channel and, once the
  goroutine has returned, syncing and closing the file.\<close>

definition send :: "walEntry \<Rightarrow> walShard \<Rightarrow> walShard option" where
  "send e s = (if int (length (ch s)) < WriteChanSize (opts s) then Some (s\<lparr>ch := ch s @ [e]\<rparr>) else None)"

definition close_begin :: "walShard \<Rightarrow> walShard" where
  "close_begin s = s\<lparr>sclosed := True\<rparr>"

definition close_end :: "walShard \<Rightarrow> walShard option" where
  "close_end s =
     (if sclosed s \<and> wpc s = PDone \<and> \<not> fclosed s then
        Some (s\<lparr>synced := (if SyncPolicy (opts s) \<noteq> SyncNever then length (wfile s) else synced s),
                fclosed := True\<rparr>)
      else None)"

text \<open>One step of a shard, with the entries it accepts.\<close>

inductive shard_step :: "proto \<Rightarrow> walShard \<Rightarrow> walEntry list \<Rightarrow> walShard \<Rightarrow> bool" for P where
  run: "run_branch P b s = Some t \<Longrightarrow> shard_step P s [] t"
| send: "\<not> sclosed s \<Longrightarrow> send e s = Some t \<Longrightarrow> shard_step P s [e] t"
| close: "shard_step P s [] (close_begin s)"
| closed: "close_end s = Some t \<Longrightarrow> shard_step P s [] t"

inductive shard_steps :: "proto \<Rightarrow> walShard \<Rightarrow> walEntry list \<Rightarrow> walShard \<Rightarrow> bool" for P where
  refl: "shard_steps P s [] s"
| step: "shard_steps P s es t \<Longrightarrow> shard_step P t fs u \<Longrightarrow> shard_steps P s (es @ fs) u"

inductive_cases shard_stepE: "shard_step P s es t"

section \<open>Recovery\<close>

datatype wal_error = BadRecLen | ReadEOF | ChecksumMismatch | BadProto | WalClosed | Backpressure

type_synonym delivery = "string \<times> object option \<times> bool"

text \<open>The calls of the callback for one entry; an operation that is neither is ignored.\<close>

definition deliver :: "walEntry \<Rightarrow> delivery list" where
  "deliver e = (if Op e = UPDATE then [(EKey e, EObject e, False)]
     else if Op e = DELETE then [(EKey e, None, True)] else [])"

text \<open>The loop of \<^verbatim>\<open>recoverShard\<close>: the calls of the callback it makes, and its error.  A header cut
  short ends it well, and so do data cut short, except that data of which no byte is left are
  reported as \<^verbatim>\<open>io.EOF\<close>.\<close>

function recover_bytes :: "proto \<Rightarrow> bytes \<Rightarrow> delivery list \<times> wal_error option" where
  "recover_bytes P r =
     (if length r < 8 then ([], None)
      else let recLen = Uint32 (take 4 r);
               expectedCRC = Uint32 (take 4 (drop 4 r));
               r' = drop 8 r
           in if recLen < 4 then ([], Some BadRecLen)
              else let n = unat (recLen - 4) in
                if 0 < n \<and> r' = [] then ([], Some ReadEOF)
                else if length r' < n then ([], None)
                else let data = take n r' in
                  if ChecksumC data \<noteq> expectedCRC then ([], Some ChecksumMismatch)
                  else case Unmarshal P data of
                    None \<Rightarrow> ([], Some BadProto)
                  | Some e \<Rightarrow> apfst ((@) (deliver e)) (recover_bytes P (drop n r')))"
  by auto
termination by (relation "measure (length \<circ> snd)") auto

declare recover_bytes.simps [simp del]

definition recoverShard :: "proto \<Rightarrow> bytes option \<Rightarrow> delivery list \<times> wal_error option" where
  "recoverShard P f = (case f of None \<Rightarrow> ([], None) | Some s \<Rightarrow> recover_bytes P s)"

section \<open>The system\<close>

record walSystem =
  wshards :: "walShard gomap"
  wchash :: chash
  writeCount :: "64 word"
  wclosed :: bool

text \<open>\<^verbatim>\<open>filepath.Join(p, "data-file-" + i + ".db")\<close>: nothing comes before the name when the path is empty or
  the current directory.  What else \<^verbatim>\<open>Join\<close> tidies up in a path does not change which file it names.\<close>

definition segPath :: "string \<Rightarrow> string \<Rightarrow> string" where
  "segPath p i = (if p = [] \<or> p = ''.'' then [] else p @ ''/'') @ ''data-file-'' @ i @ ''.db''"

text \<open>\<open>disk\<close> gives the contents of the files that exist when the log is opened.\<close>

definition NewWALSystem :: "int \<Rightarrow> (string \<Rightarrow> bytes option) \<Rightarrow> wal_options \<Rightarrow> walSystem" where
  "NewWALSystem gomaxprocs disk opts0 =
     (let o' = withDefaults gomaxprocs opts0 in
      fold (\<lambda>i ws. let ident = Itoa i;
                        content = (case disk (segPath (WALPath o') ident) of Some s \<Rightarrow> s | None \<Rightarrow> [])
                    in ws\<lparr>wshards := gm_upd ident (newWalShard ident content o') (wshards ws),
                          wchash := AddNode ident (wchash ws)\<rparr>)
        (map int [0..<nat (ShardCount o')])
        \<lparr>wshards = [], wchash = NewConsistentHash, writeCount = 0, wclosed = False\<rparr>)"

definition wGetShardByKey :: "walSystem \<Rightarrow> string \<Rightarrow> walShard option" where
  "wGetShardByKey ws key = gm_get (wshards ws) (GetNode (wchash ws) key)"

datatype wal_result = WOk | WErr wal_error | WPanic

text \<open>What a goroutine does in a stretch of time: the branches it takes, those that are not
  enabled left out.\<close>

fun run_branches :: "proto \<Rightarrow> branch list \<Rightarrow> walShard \<Rightarrow> walShard" where
  "run_branches P [] s = s"
| "run_branches P (b # bs) s =
     run_branches P bs (case run_branch P b s of Some t \<Rightarrow> t | None \<Rightarrow> s)"

text \<open>
  \<^verbatim>\<open>enqueue\<close>.  When the channel is full, the sender waits four flush intervals; \<open>bs\<close> is what
  the goroutine of the shard does meanwhile.  A send on a closed channel panics, and so does a
  key without a shard.
\<close>

definition enqueue ::
  "proto \<Rightarrow> branch list \<Rightarrow> string \<Rightarrow> walEntry \<Rightarrow> walSystem \<Rightarrow> walSystem \<times> wal_result" where
  "enqueue P bs key e ws =
     (let node = GetNode (wchash ws) key in
      case gm_get (wshards ws) node of
        None \<Rightarrow> (ws, WPanic)
      | Some sh \<Rightarrow>
          if sclosed sh then (ws, WPanic)
          else case send e sh of
            Some sh' \<Rightarrow> (ws\<lparr>wshards := gm_upd node sh' (wshards ws)\<rparr>, WOk)
          | None \<Rightarrow>
              let sh1 = run_branches P bs sh in
              case send e sh1 of
                Some sh' \<Rightarrow> (ws\<lparr>wshards := gm_upd node sh' (wshards ws)\<rparr>, WOk)
              | None \<Rightarrow> (ws\<lparr>wshards := gm_upd node sh1 (wshards ws)\<rparr>, WErr Backpressure))"

definition wPut ::
  "proto \<Rightarrow> branch list \<Rightarrow> string \<Rightarrow> object option \<Rightarrow> walSystem \<Rightarrow> walSystem \<times> wal_result" where
  "wPut P bs key obj ws =
     (if wclosed ws then (ws, WErr WalClosed)
      else enqueue P bs key \<lparr>Op = UPDATE, EKey = key, EObject = obj\<rparr>
             (ws\<lparr>writeCount := writeCount ws + 1\<rparr>))"

definition wDelete ::
  "proto \<Rightarrow> branch list \<Rightarrow> string \<Rightarrow> walSystem \<Rightarrow> walSystem \<times> wal_result" where
  "wDelete P bs key ws =
     (if wclosed ws then (ws, WErr WalClosed)
      else enqueue P bs key \<lparr>Op = DELETE, EKey = key, EObject = None\<rparr>
             (ws\<lparr>writeCount := writeCount ws + 1\<rparr>))"

text \<open>The goroutine of shard \<open>i\<close> takes a branch.\<close>

definition wal_run :: "proto \<Rightarrow> string \<Rightarrow> branch \<Rightarrow> walSystem \<Rightarrow> walSystem" where
  "wal_run P i b ws =
     (case gm_get (wshards ws) i of
        None \<Rightarrow> ws
      | Some sh \<Rightarrow> (case run_branch P b sh of
          None \<Rightarrow> ws
        | Some sh' \<Rightarrow> ws\<lparr>wshards := gm_upd i sh' (wshards ws)\<rparr>))"

text \<open>\<^verbatim>\<open>walShard.Close\<close>: the goroutine receives what is in the channel (\<open>drain_closed\<close>), then the
  file is synced and closed.  \<^verbatim>\<open>WALSystem.Close\<close> closes every shard, once.\<close>

fun drain_closed :: "proto \<Rightarrow> walEntry list \<Rightarrow> walShard \<Rightarrow> walShard" where
  "drain_closed P [] s = (wflush True s)\<lparr>wpc := PDone\<rparr>"
| "drain_closed P (e # es) s =
     (let s1 = (encodeAppend P e (s\<lparr>ch := es\<rparr>))\<lparr>wpc := PDrain\<rparr>
      in drain_closed P es
           (if batchBytes s1 < BatchBytes (opts s1) then s1 else (wflush False s1)\<lparr>wpc := PSelect\<rparr>))"

definition sClose :: "proto \<Rightarrow> walShard \<Rightarrow> walShard" where
  "sClose P s =
     (if sclosed s then s
      else case close_end (drain_closed P (ch s) (close_begin s)) of Some t \<Rightarrow> t | None \<Rightarrow> s)"

definition wClose :: "proto \<Rightarrow> walSystem \<Rightarrow> walSystem" where
  "wClose P ws =
     (if wclosed ws then ws
      else ws\<lparr>wclosed := True, wshards := map (apsnd (sClose P)) (wshards ws)\<rparr>)"

text \<open>\<^verbatim>\<open>Recover\<close> reads the file of every shard; the order is that of a Go map, here \<open>ids\<close>.  It stops
  at the first error.\<close>

fun recover_shards ::
  "proto \<Rightarrow> (string \<Rightarrow> bytes option) \<Rightarrow> string \<Rightarrow> string list \<Rightarrow> delivery list \<times> wal_error option" where
  "recover_shards P disk walPath [] = ([], None)"
| "recover_shards P disk walPath (i # ids) =
     (case recoverShard P (disk (segPath walPath i)) of
        (ds, Some err) \<Rightarrow> (ds, Some err)
      | (ds, None) \<Rightarrow> apfst ((@) ds) (recover_shards P disk walPath ids))"

definition Recover ::
  "proto \<Rightarrow> (string \<Rightarrow> bytes option) \<Rightarrow> (string list \<Rightarrow> string list) \<Rightarrow> string \<Rightarrow> walSystem
    \<Rightarrow> delivery list \<times> wal_error option" where
  "Recover P disk order walPath ws = recover_shards P disk walPath (order (map fst (wshards ws)))"

end
