(* ===== verification/Wal_Log.thy ===== *)
theory Wal_Log
  imports Wal "HOL-Library.Sublist"
begin

text \<open>
  What the write-ahead log promises.  \<open>record_of\<close> is the record of an entry; the log of a shard
  is its file, then its batch, then the records of the entries in its channel.  Every step of a
  shard keeps the log, extended by what it accepts; recovery of a log, even one cut anywhere,
  delivers the entries that are whole, in order; a shard that is closed ends with everything
  in its file.
\<close>

section \<open>Records\<close>

definition record_of :: "proto \<Rightarrow> walEntry \<Rightarrow> bytes" where
  "record_of P e = (case Marshal P e of
     None \<Rightarrow> [] | Some d \<Rightarrow> PutUint32 (of_nat (4 + length d)) @ PutUint32 (ChecksumC d) @ d)"

definition records :: "proto \<Rightarrow> walEntry list \<Rightarrow> bytes" where
  "records P es = concat (map (record_of P) es)"

lemma records_simps [simp]:
  "records P [] = []" "records P (e # es) = record_of P e @ records P es"
  "records P (es @ fs) = records P es @ records P fs"
  by (simp_all add: records_def)

text \<open>What the callback is told of the entries that marshal.\<close>

definition deliveries :: "proto \<Rightarrow> walEntry list \<Rightarrow> delivery list" where
  "deliveries P es = concat (map deliver (filter (\<lambda>e. Marshal P e \<noteq> None) es))"

lemma deliveries_simps [simp]:
  "deliveries P [] = []"
  "deliveries P (e # es) = (if Marshal P e = None then [] else deliver e) @ deliveries P es"
  "deliveries P (es @ fs) = deliveries P es @ deliveries P fs"
  by (simp_all add: deliveries_def)

section \<open>The log of a shard\<close>

definition log_of :: "proto \<Rightarrow> walShard \<Rightarrow> bytes" where
  "log_of P s = wfile s @ batchBuf s @ records P (ch s)"

definition shard_inv :: "walShard \<Rightarrow> bool" where
  "shard_inv s \<longleftrightarrow> batchBytes s = int (length (batchBuf s)) \<and> synced s \<le> length (wfile s) \<and>
     options_ok (opts s) \<and> (fclosed s \<longrightarrow> sclosed s) \<and> (wpc s = PDone \<longrightarrow> sclosed s \<and> ch s = [] \<and> batchBuf s = [])"

lemma shard_inv_new: "options_ok o' \<Longrightarrow> shard_inv (newWalShard i c o')"
  by (simp add: shard_inv_def newWalShard_def)

lemma log_of_new [simp]: "log_of P (newWalShard i c o') = c"
  by (simp add: log_of_def newWalShard_def)

lemma encodeAppend_fields [simp]:
  "ch (encodeAppend P e s) = ch s" "wfile (encodeAppend P e s) = wfile s"
  "opts (encodeAppend P e s) = opts s" "synced (encodeAppend P e s) = synced s"
  "sclosed (encodeAppend P e s) = sclosed s" "wpc (encodeAppend P e s) = wpc s"
  "fclosed (encodeAppend P e s) = fclosed s"
  "batchBuf (encodeAppend P e s) = batchBuf s @ record_of P e"
  "batchBytes (encodeAppend P e s) = batchBytes s + int (length (record_of P e))"
  by (simp_all add: encodeAppend_def record_of_def Let_def split: option.split)

lemma wflush_fields [simp]:
  "ch (wflush f s) = ch s" "opts (wflush f s) = opts s" "sclosed (wflush f s) = sclosed s"
  "wpc (wflush f s) = wpc s" "fclosed (wflush f s) = fclosed s"
  by (simp_all add: wflush_def Let_def)

lemma wflush_log:
  assumes "shard_inv s"
  shows "wfile (wflush f s) = wfile s @ batchBuf s" "batchBuf (wflush f s) = []"
    "batchBytes (wflush f s) = 0" "synced (wflush f s) \<le> length (wfile s @ batchBuf s)"
  using assms by (simp_all add: wflush_def Let_def shard_inv_def)

lemma run_branch_log:
  assumes "shard_inv s" and "run_branch P b s = Some t"
  shows "shard_inv t \<and> log_of P t = log_of P s"
proof (cases b)
  case Recv
  with assms show ?thesis
    by (auto simp: shard_inv_def log_of_def split: if_splits list.splits)
next
  case Closed
  with assms wflush_log [OF assms(1), of True] show ?thesis
    by (auto simp: shard_inv_def log_of_def split: if_splits)
next
  case (Check late)
  with assms wflush_log [OF assms(1), of False] show ?thesis
    by (auto simp: shard_inv_def log_of_def split: if_splits)
qed (use assms in \<open>auto simp: shard_inv_def log_of_def split: if_splits\<close>)

lemma shard_step_log:
  assumes "shard_step P s es t" and "shard_inv s"
  shows "shard_inv t \<and> log_of P t = log_of P s @ records P es \<and> opts t = opts s"
  using assms
proof cases
  case (run b)
  have "opts t = opts s"
    using run(2) by (cases b) (auto split: if_splits list.splits)
  with run run_branch_log [OF assms(2) run(2)] show ?thesis by simp
next
  case (send e)
  then have "wpc s \<noteq> PDone" using assms(2) by (auto simp: shard_inv_def)
  with send assms(2) show ?thesis
    by (auto simp: send_def shard_inv_def log_of_def split: if_splits)
next
  case close
  with assms(2) show ?thesis by (simp add: close_begin_def shard_inv_def log_of_def)
next
  case closed
  with assms(2) show ?thesis
    by (auto simp: close_end_def shard_inv_def log_of_def split: if_splits)
qed

lemma shard_steps_log:
  "shard_steps P s es t \<Longrightarrow> shard_inv s \<Longrightarrow>
   shard_inv t \<and> log_of P t = log_of P s @ records P es \<and> opts t = opts s"
  by (induction rule: shard_steps.induct) (auto dest!: shard_step_log)

text \<open>The synced part of the file is never rewritten: files grow at the end.\<close>

lemma run_branch_file:
  assumes "run_branch P b s = Some t"
  shows "\<exists>x. wfile t = wfile s @ x"
proof (cases b)
  case Recv
  with assms show ?thesis by (auto split: if_splits list.splits)
qed (use assms in \<open>auto simp: wflush_def Let_def split: if_splits\<close>)

lemma shard_step_file: "shard_step P s es t \<Longrightarrow> \<exists>x. wfile t = wfile s @ x"
  by (erule shard_stepE)
    (auto simp: send_def close_begin_def close_end_def split: if_splits dest: run_branch_file)

lemma shard_steps_file: "shard_steps P s es t \<Longrightarrow> \<exists>x. wfile t = wfile s @ x"
proof (induction rule: shard_steps.induct)
  case (step s es t fs u)
  then show ?case by (metis append.assoc shard_step_file)
qed simp

section \<open>The goroutine after the channel is closed\<close>

lemma shard_steps_trans:
  "shard_steps P t fs u \<Longrightarrow> shard_steps P s es t \<Longrightarrow> shard_steps P s (es @ fs) u"
proof (induction rule: shard_steps.induct)
  case (step t fs u gs v)
  then show ?case by (metis append.assoc shard_steps.step)
qed simp

lemma run_steps:
  "run_branch P b s = Some t \<Longrightarrow> shard_steps P t [] u \<Longrightarrow> shard_steps P s [] u"
  by (metis append_Nil shard_step.run shard_steps.refl shard_steps.step shard_steps_trans)

lemma drain_closed_steps:
  assumes "ch s = es" and "sclosed s"
    and "wpc s = PSelect \<or> (wpc s = PDrain \<and> batchBytes s < BatchBytes (opts s))"
  shows "shard_steps P s [] (drain_closed P es s)"
  using assms
proof (induction es arbitrary: s)
  case Nil
  then have "run_branch P Closed s = Some (drain_closed P [] s)" by auto
  then show ?case using shard_steps.refl by (rule run_steps)
next
  case (Cons e es)
  define s1 where "s1 = (encodeAppend P e (s\<lparr>ch := es\<rparr>))\<lparr>wpc := PDrain\<rparr>"
  have r: "run_branch P Recv s = Some s1" using Cons.prems by (auto simp: s1_def)
  have s1: "ch s1 = es" "sclosed s1" "wpc s1 = PDrain"
    using Cons.prems by (simp_all add: s1_def)
  show ?case
  proof (cases "batchBytes s1 < BatchBytes (opts s1)")
    case True
    then have "shard_steps P s1 [] (drain_closed P es s1)" using Cons.IH s1 by simp
    with r have "shard_steps P s [] (drain_closed P es s1)" by (rule run_steps)
    with True show ?thesis by (simp add: s1_def Let_def)
  next
    case False
    define s2 where "s2 = (wflush False s1)\<lparr>wpc := PSelect\<rparr>"
    have "run_branch P Full s1 = Some (s1\<lparr>wpc := PCheck\<rparr>)" using s1 False by simp
    moreover have "run_branch P (Check False) (s1\<lparr>wpc := PCheck\<rparr>) = Some s2"
      using False s1 by (simp add: s2_def wflush_def Let_def)
    moreover have "shard_steps P s2 [] (drain_closed P es s2)"
      by (rule Cons.IH) (use s1 in \<open>simp_all add: s2_def\<close>)
    ultimately have "shard_steps P s [] (drain_closed P es s2)" using r by (blast intro: run_steps)
    with False show ?thesis by (simp add: s1_def s2_def Let_def)
  qed
qed

lemma drain_closed_done: "wpc (drain_closed P es s) = PDone"
  by (induction es arbitrary: s) (simp_all add: Let_def)

lemma drain_closed_sclosed [simp]:
  "sclosed (drain_closed P es s) = sclosed s" "fclosed (drain_closed P es s) = fclosed s"
proof (induction es arbitrary: s)
  case (Cons e es)
  {
    case 1 then show ?case using Cons by (simp add: Let_def)
  next
    case 2 then show ?case using Cons by (simp add: Let_def encodeAppend_def split: option.split)
  }
qed simp_all

text \<open>Any run of a closed shard that has returned has everything in its file.\<close>

lemma done_file:
  assumes "shard_steps P s es t" and "shard_inv s" and "wpc t = PDone"
  shows "wfile t = log_of P s @ records P es"
proof -
  have "shard_inv t" "log_of P t = log_of P s @ records P es"
    using shard_steps_log [OF assms(1,2)] by simp_all
  with assms(3) show ?thesis by (simp add: shard_inv_def log_of_def [of P t])
qed

section \<open>Recovery\<close>

lemma apfst_Nil [simp]: "apfst ((@) []) p = p" "apfst (\<lambda>a. a) p = p"
  by (cases p; simp)+

lemma unat_len:
  assumes "n \<le> 2 ^ 31"
  shows "\<not> (of_nat (4 + n) :: 32 word) < 4" and "unat ((of_nat (4 + n) :: 32 word) - 4) = n"
proof -
  have u: "unat (of_nat (4 + n) :: 32 word) = 4 + n"
    using assms by (simp only: unat_of_nat) simp
  then show "\<not> (of_nat (4 + n) :: 32 word) < 4"
    by (simp only: word_less_nat_alt) simp
  have "(of_nat (4 + n) :: 32 word) - 4 = of_nat n" by simp
  then show "unat ((of_nat (4 + n) :: 32 word) - 4) = n"
    using assms by (simp add: unat_of_nat)
qed

lemma take4 [simp]: "take 4 (PutUint32 w @ r) = PutUint32 w" "drop 4 (PutUint32 w @ r) = r"
  "drop 8 (PutUint32 w @ PutUint32 v @ r) = r"
  by simp_all

lemma Uint32_Put [simp]: "Uint32 (PutUint32 w) = w"
  by (metis Uint32_PutUint32 append_Nil2)

lemma recover_record:
  assumes "proto_ok P"
  shows "recover_bytes P (record_of P e @ r) =
    apfst ((@) (if Marshal P e = None then [] else deliver e)) (recover_bytes P r)"
proof (cases "Marshal P e")
  case None
  then show ?thesis by (simp add: record_of_def)
next
  case (Some d)
  have d: "Unmarshal P d = Some e" "length d \<le> 2 ^ 31" using assms Some by (auto simp: proto_ok_def)
  have "recover_bytes P (record_of P e @ r) = apfst ((@) (deliver e)) (recover_bytes P r)"
    by (subst recover_bytes.simps)
      (auto simp add: record_of_def Some Let_def unat_len [OF d(2)] d(1) simp del: of_nat_add)
  with Some show ?thesis by simp
qed

lemma recover_records:
  assumes "proto_ok P"
  shows "recover_bytes P (records P es @ r) = apfst ((@) (deliveries P es)) (recover_bytes P r)"
proof (induction es)
  case Nil
  show ?case by simp
next
  case (Cons e es)
  then show ?case
    by (cases "recover_bytes P r") (simp add: recover_record [OF assms])
qed

text \<open>A torn record: recovery stops without a delivery, and without an error unless exactly the
  header is left of it.\<close>

lemma recover_torn:
  assumes "proto_ok P" and "k < length (record_of P e)"
  shows "recover_bytes P (take k (record_of P e)) = ([], if k = 8 then Some ReadEOF else None)"
proof (cases "Marshal P e")
  case None
  with assms(2) show ?thesis by (simp add: record_of_def)
next
  case (Some d)
  have d: "Unmarshal P d = Some e" "length d \<le> 2 ^ 31" using assms Some by (auto simp: proto_ok_def)
  have len: "k < 8 + length d" using assms(2) Some by (simp add: record_of_def)
  show ?thesis
  proof (cases "k < 8")
    case True
    then have "length (take k (record_of P e)) < 8" by simp
    with True show ?thesis by (subst recover_bytes.simps) simp
  next
    case False
    then have t: "take k (record_of P e) =
        PutUint32 (of_nat (4 + length d)) @ PutUint32 (ChecksumC d) @ take (k - 8) d"
      by (simp add: record_of_def Some)
    show ?thesis
      unfolding t using False len
      by (subst recover_bytes.simps)
        (auto simp add: Let_def unat_len [OF d(2)] simp del: of_nat_add)
  qed
qed

lemma recover_bytes_Nil [simp]: "recover_bytes P [] = ([], None)"
  by (subst recover_bytes.simps) simp

text \<open>Recovery of any prefix of a log: the whole records before the cut, in order.\<close>

lemma take_records:
  assumes "n \<le> length (records P es)"
  shows "\<exists>fs r. prefix fs es \<and> take n (records P es) = records P fs @ r \<and>
    (r = [] \<or> (\<exists>e k. prefix (fs @ [e]) es \<and> 0 < k \<and> k < length (record_of P e) \<and> r = take k (record_of P e)))"
  using assms
proof (induction es arbitrary: n)
  case Nil
  then show ?case by auto
next
  case (Cons e es)
  show ?case
  proof (cases "n < length (record_of P e)")
    case True
    then have t: "take n (records P (e # es)) = take n (record_of P e)" by simp
    show ?thesis
    proof (cases "n = 0")
      case True
      then show ?thesis by (intro exI [of _ "[]"]) simp
    next
      case False
      with \<open>n < _\<close> t show ?thesis
        by (intro exI [of _ "[]"] exI [of _ "take n (record_of P e)"]) auto
    qed
  next
    case False
    then have "n - length (record_of P e) \<le> length (records P es)" using Cons.prems by simp
    from Cons.IH [OF this] obtain fs r where
      i: "prefix fs es" "take (n - length (record_of P e)) (records P es) = records P fs @ r"
        "r = [] \<or> (\<exists>e k. prefix (fs @ [e]) es \<and> 0 < k \<and> k < length (record_of P e) \<and> r = take k (record_of P e))"
      by blast
    have "take n (records P (e # es)) = records P (e # fs) @ r" using False i(2) by simp
    then show ?thesis using i(1,3) by (intro exI [of _ "e # fs"] exI [of _ r]) auto
  qed
qed

lemma records_Nil: "records P es = [] \<Longrightarrow> deliveries P es = []"
proof (induction es)
  case (Cons e es)
  then have "length (record_of P e) = 0" by simp
  then have "Marshal P e = None" by (cases "Marshal P e") (simp_all add: record_of_def)
  with Cons show ?case by simp
qed simp

text \<open>What was whole before the cut is among what is left.\<close>

lemma whole_records:
  assumes f: "prefix fs es" and g: "prefix gs es" "length (records P gs) \<le> length (records P fs) + length r"
    and r: "r = [] \<or> (\<exists>e k. prefix (fs @ [e]) es \<and> k < length (record_of P e) \<and> r = take k (record_of P e))"
  shows "prefix (deliveries P gs) (deliveries P fs)"
proof -
  have "prefix gs fs \<or> (\<exists>e us. gs = fs @ e # us)"
    using prefix_same_cases [OF g(1) f]
  proof
    assume "prefix fs gs"
    then obtain us where "gs = fs @ us" by (elim prefixE)
    then show ?thesis by (cases us) auto
  qed simp
  then consider "prefix gs fs" | e us where "gs = fs @ e # us" by blast
  then show ?thesis
  proof cases
    case 1
    then show ?thesis by (auto elim!: prefixE)
  next
    case 2
    have "r = []"
    proof (rule ccontr)
      assume "r \<noteq> []"
      then obtain e' k where e': "prefix (fs @ [e']) es" "k < length (record_of P e')"
        "r = take k (record_of P e')" using r by blast
      moreover have "prefix (fs @ [e]) es" using g(1) 2 by (auto elim!: prefixE)
      ultimately have "e' = e" by (auto elim!: prefixE)
      with e' g(2) 2 show False by simp
    qed
    with g(2) 2 have "records P (e # us) = []" by simp
    then have "deliveries P (e # us) = []" by (rule records_Nil)
    then show ?thesis unfolding 2 by (simp only: deliveries_simps append_Nil2 prefix_order.refl)
  qed
qed

lemma recover_take:
  assumes "proto_ok P" and "n \<le> length (records P es)"
  shows "\<exists>fs err. prefix fs es \<and> recover_bytes P (take n (records P es)) = (deliveries P fs, err) \<and>
    err \<in> {None, Some ReadEOF} \<and>
    (\<forall>gs. prefix gs es \<longrightarrow> length (records P gs) \<le> n \<longrightarrow> prefix (deliveries P gs) (deliveries P fs))"
proof -
  obtain fs r where f: "prefix fs es" "take n (records P es) = records P fs @ r"
    and r: "r = [] \<or> (\<exists>e k. prefix (fs @ [e]) es \<and> 0 < k \<and> k < length (record_of P e)
      \<and> r = take k (record_of P e))"
    using take_records [OF assms(2)] by blast
  have n: "n = length (records P fs) + length r"
    using arg_cong [OF f(2), of length] assms(2) by simp
  have "\<exists>err. recover_bytes P r = ([], err) \<and> err \<in> {None, Some ReadEOF}"
    using r
  proof (elim disjE exE conjE)
    fix e k assume "k < length (record_of P e)" "r = take k (record_of P e)"
    then show ?thesis by (simp add: recover_torn [OF assms(1)])
  qed simp
  then obtain err where err: "recover_bytes P r = ([], err)" "err \<in> {None, Some ReadEOF}" by blast
  have "prefix (deliveries P gs) (deliveries P fs)" if "prefix gs es" "length (records P gs) \<le> n" for gs
    using whole_records [OF f(1) that(1)] that(2) r n by blast
  moreover have "recover_bytes P (take n (records P es)) = (deliveries P fs, err)"
    by (simp add: f(2) recover_records [OF assms(1)] err(1))
  ultimately show ?thesis using f(1) err(2) by blast
qed

section \<open>The system\<close>

definition wal_wf :: "walSystem \<Rightarrow> bool" where
  "wal_wf ws \<longleftrightarrow> ring_wf (wchash ws) \<and> members (wchash ws) \<noteq> {} \<and>
     members (wchash ws) \<subseteq> dom (map_of (wshards ws)) \<and>
     (\<forall>i sh. map_of (wshards ws) i = Some sh \<longrightarrow> shard_inv sh)"

text \<open>\<open>h i\<close> are the entries in the log of shard \<open>i\<close>.\<close>

definition holds :: "proto \<Rightarrow> walSystem \<Rightarrow> (string \<Rightarrow> walEntry list) \<Rightarrow> bool" where
  "holds P ws h \<longleftrightarrow> wal_wf ws \<and>
     (\<forall>i sh. map_of (wshards ws) i = Some sh \<longrightarrow> log_of P sh = records P (h i))"

definition wnode :: "walSystem \<Rightarrow> string \<Rightarrow> string" where
  "wnode ws = GetNode (wchash ws)"

definition log_add ::
  "string \<Rightarrow> walEntry \<Rightarrow> wal_result \<Rightarrow> (string \<Rightarrow> walEntry list) \<Rightarrow> string \<Rightarrow> walEntry list" where
  "log_add n e r h = (if r = WOk then h(n := h n @ [e]) else h)"

lemma run_branches_log:
  "shard_inv s \<Longrightarrow> shard_inv (run_branches P bs s) \<and> log_of P (run_branches P bs s) = log_of P s"
proof (induction bs arbitrary: s)
  case (Cons b bs)
  then show ?case by (cases "run_branch P b s") (auto dest: run_branch_log)
qed simp

lemma run_branches_sclosed: "sclosed (run_branches P bs s) = sclosed s"
proof (induction bs arbitrary: s)
  case (Cons b bs)
  have "sclosed t = sclosed s" if "run_branch P b s = Some t" for t
    using that by (cases b) (auto split: if_splits list.splits)
  with Cons show ?case by (auto split: option.split)
qed simp

lemma send_log:
  assumes "shard_inv s" and "\<not> sclosed s" and "send e s = Some t"
  shows "shard_inv t \<and> log_of P t = log_of P s @ record_of P e"
  using shard_step_log [OF shard_step.send [OF assms(2,3)] assms(1)] by simp

lemma holds_upd:
  assumes "holds P ws h" and "map_of (wshards ws) n = Some sh"
    and "shard_inv sh'" and "log_of P sh' = records P (h' n)" and "\<And>i. i \<noteq> n \<Longrightarrow> h' i = h i"
  shows "holds P (ws\<lparr>wshards := gm_upd n sh' (wshards ws)\<rparr>) h'"
  using assms by (auto simp: holds_def wal_wf_def)

lemma holds_count: "holds P (ws\<lparr>writeCount := n\<rparr>) h = holds P ws h"
  by (simp add: holds_def wal_wf_def)

lemma wal_wf_shard: "wal_wf ws \<Longrightarrow> \<exists>sh. map_of (wshards ws) (wnode ws k) = Some sh"
  unfolding wal_wf_def wnode_def by (blast intro: ring.lookup_total)

lemma enqueue_holds:
  assumes "holds P ws h" and "enqueue P bs k e ws = (ws', r)"
  shows "holds P ws' (log_add (wnode ws k) e r h) \<and> wnode ws' = wnode ws"
proof -
  define n where "n = wnode ws k"
  obtain sh where sh: "map_of (wshards ws) n = Some sh"
    using wal_wf_shard assms(1) unfolding n_def holds_def by blast
  have i: "shard_inv sh" "log_of P sh = records P (h n)"
    using assms(1) sh by (auto simp: holds_def wal_wf_def)
  define sh1 where "sh1 = run_branches P bs sh"
  have s1: "shard_inv sh1" "log_of P sh1 = records P (h n)" "sclosed sh1 = sclosed sh"
    using run_branches_log [OF i(1)] i(2) by (simp_all add: sh1_def run_branches_sclosed)
  have snd: "holds P (ws\<lparr>wshards := gm_upd n t (wshards ws)\<rparr>) (h(n := h n @ [e]))"
    if "send e s = Some t" "shard_inv s" "log_of P s = records P (h n)" "\<not> sclosed s" for s t
    using send_log [OF that(2,4,1)] that(3) by (intro holds_upd [OF assms(1) sh]) auto
  consider "sclosed sh" | t where "\<not> sclosed sh" "send e sh = Some t"
    | t where "\<not> sclosed sh" "send e sh = None" "send e sh1 = Some t"
    | "\<not> sclosed sh" "send e sh = None" "send e sh1 = None" by (meson not_None_eq)
  then show ?thesis
  proof cases
    case 1
    with assms sh show ?thesis by (auto simp: enqueue_def Let_def n_def wnode_def log_add_def)
  next
    case 2
    with assms(2) sh have "ws' = ws\<lparr>wshards := gm_upd n t (wshards ws)\<rparr>" "r = WOk"
      by (auto simp: enqueue_def Let_def n_def wnode_def)
    with snd [OF 2(2) i 2(1)] show ?thesis by (simp add: log_add_def n_def wnode_def)
  next
    case 3
    with assms(2) sh have "ws' = ws\<lparr>wshards := gm_upd n t (wshards ws)\<rparr>" "r = WOk"
      by (auto simp: enqueue_def Let_def n_def wnode_def sh1_def)
    with snd [OF 3(3) s1(1,2)] 3(1) s1(3) show ?thesis by (simp add: log_add_def n_def wnode_def)
  next
    case 4
    with assms(2) sh have "ws' = ws\<lparr>wshards := gm_upd n sh1 (wshards ws)\<rparr>" "r = WErr Backpressure"
      by (auto simp: enqueue_def Let_def n_def wnode_def sh1_def)
    with holds_upd [OF assms(1) sh s1(1), of h] s1(2) show ?thesis by (simp add: log_add_def wnode_def)
  qed
qed

lemma wPut_holds:
  assumes "holds P ws h" and "wPut P bs k obj ws = (ws', r)"
  shows "holds P ws' (log_add (wnode ws k) \<lparr>Op = UPDATE, EKey = k, EObject = obj\<rparr> r h)
    \<and> wnode ws' = wnode ws"
proof (cases "wclosed ws")
  case False
  with assms(2) have "enqueue P bs k \<lparr>Op = UPDATE, EKey = k, EObject = obj\<rparr>
      (ws\<lparr>writeCount := writeCount ws + 1\<rparr>) = (ws', r)" by (simp add: wPut_def)
  from enqueue_holds [OF _ this] assms(1) show ?thesis by (simp add: holds_count wnode_def)
qed (use assms in \<open>auto simp: wPut_def log_add_def\<close>)

lemma wDelete_holds:
  assumes "holds P ws h" and "wDelete P bs k ws = (ws', r)"
  shows "holds P ws' (log_add (wnode ws k) \<lparr>Op = DELETE, EKey = k, EObject = None\<rparr> r h)
    \<and> wnode ws' = wnode ws"
proof (cases "wclosed ws")
  case False
  with assms(2) have "enqueue P bs k \<lparr>Op = DELETE, EKey = k, EObject = None\<rparr>
      (ws\<lparr>writeCount := writeCount ws + 1\<rparr>) = (ws', r)" by (simp add: wDelete_def)
  from enqueue_holds [OF _ this] assms(1) show ?thesis by (simp add: holds_count wnode_def)
qed (use assms in \<open>auto simp: wDelete_def log_add_def\<close>)

lemma wal_run_holds:
  assumes "holds P ws h"
  shows "holds P (wal_run P i b ws) h \<and> wnode (wal_run P i b ws) = wnode ws"
proof (cases "map_of (wshards ws) i")
  case (Some sh)
  then have i: "shard_inv sh" "log_of P sh = records P (h i)"
    using assms by (auto simp: holds_def wal_wf_def)
  show ?thesis
  proof (cases "run_branch P b sh")
    case (Some sh')
    then show ?thesis
      using holds_upd [OF assms \<open>map_of (wshards ws) i = Some sh\<close>, of sh' h]
        run_branch_log [OF i(1) Some] i(2) \<open>map_of (wshards ws) i = Some sh\<close>
      by (simp add: wal_run_def wnode_def)
  qed (use assms Some in \<open>simp add: wal_run_def\<close>)
qed (use assms in \<open>simp add: wal_run_def\<close>)

section \<open>The interface\<close>

text \<open>
  What a client of \<^verbatim>\<open>WAL\<close> relies on: an accepted write is appended to the history of the node of
  its key, a refused one leaves no trace, and the node of a key is fixed.  The history of one
  key is then independent of the writes to others.
\<close>

definition of_key :: "string \<Rightarrow> walEntry list \<Rightarrow> walEntry list" where
  "of_key k es = filter (\<lambda>e. EKey e = k) es"

locale wal_if =
  fixes hist :: "'w \<Rightarrow> (string \<Rightarrow> walEntry list) \<Rightarrow> bool"
    and node :: "'w \<Rightarrow> string \<Rightarrow> string"
    and put :: "string \<Rightarrow> object option \<Rightarrow> 'w \<Rightarrow> 'w \<times> wal_result"
    and del :: "string \<Rightarrow> 'w \<Rightarrow> 'w \<times> wal_result"
  assumes put_hist: "hist w h \<Longrightarrow> put k obj w = (w', r) \<Longrightarrow>
      hist w' (log_add (node w k) \<lparr>Op = UPDATE, EKey = k, EObject = obj\<rparr> r h) \<and> node w' = node w"
    and del_hist: "hist w h \<Longrightarrow> del k w = (w', r) \<Longrightarrow>
      hist w' (log_add (node w k) \<lparr>Op = DELETE, EKey = k, EObject = None\<rparr> r h) \<and> node w' = node w"
begin

lemma put_of_key:
  assumes "hist w h" and "put k obj w = (w', r)"
  shows "\<exists>h'. hist w' h' \<and> node w' = node w \<and> (\<forall>k'. of_key k' (h' (node w' k')) =
    of_key k' (h (node w k')) @ (if k' = k \<and> r = WOk then [\<lparr>Op = UPDATE, EKey = k, EObject = obj\<rparr>] else []))"
  using put_hist [OF assms] by (intro exI conjI) (auto simp: of_key_def log_add_def)

lemma del_of_key:
  assumes "hist w h" and "del k w = (w', r)"
  shows "\<exists>h'. hist w' h' \<and> node w' = node w \<and> (\<forall>k'. of_key k' (h' (node w' k')) =
    of_key k' (h (node w k')) @ (if k' = k \<and> r = WOk then [\<lparr>Op = DELETE, EKey = k, EObject = None\<rparr>] else []))"
  using del_hist [OF assms] by (intro exI conjI) (auto simp: of_key_def log_add_def)

end

interpretation wal: wal_if "holds P" wnode "wPut P bs" "wDelete P bs" for P bs
  by unfold_locales (use wPut_holds wDelete_holds in blast)+

section \<open>A new system\<close>

lemma NewWALSystem_fold:
  assumes "options_ok o'" and "ring_wf (wchash ws)"
    and "members (wchash ws) \<subseteq> dom (map_of (wshards ws))"
    and "\<forall>i sh. map_of (wshards ws) i = Some sh \<longrightarrow> shard_inv sh"
    and "members (wchash ws) \<noteq> {} \<or> is \<noteq> []"
  shows "wal_wf (fold (\<lambda>i ws. ws\<lparr>wshards := gm_upd (f i) (newWalShard (f i) (g i) o') (wshards ws),
    wchash := AddNode (f i) (wchash ws)\<rparr>) is ws)"
  using assms(2-5)
proof (induction "is" arbitrary: ws)
  case Nil
  then show ?case by (simp add: wal_wf_def)
next
  case (Cons i "is")
  let ?ws = "ws\<lparr>wshards := gm_upd (f i) (newWalShard (f i) (g i) o') (wshards ws),
    wchash := AddNode (f i) (wchash ws)\<rparr>"
  have "members (wchash ?ws) \<noteq> {}" using nd_AddNode by auto
  moreover have "members (AddNode (f i) (wchash ws)) \<subseteq> insert (f i) (dom (map_of (wshards ws)))"
    using members_AddNode_sub Cons.prems(2) by blast
  ultimately show ?case
    unfolding fold.simps comp_def using Cons.prems
    by (intro Cons.IH) (auto simp: ring_wf_AddNode shard_inv_new assms(1) split: if_splits)
qed

lemma withDefaults_ok: "options_ok (withDefaults g o0)"
  by (simp add: options_ok_def withDefaults_def Let_def defaultBufSize_def defaultBatchBytes_def
      defaultFlushInterval_def less_max_iff_disj)

lemma NewWALSystem_wf: "wal_wf (NewWALSystem g disk o0)"
proof -
  have ok: "options_ok (withDefaults g o0)" by (rule withDefaults_ok)
  then have "map int [0..<nat (ShardCount (withDefaults g o0))] \<noteq> []"
    by (simp add: options_ok_def)
  then show ?thesis
    unfolding NewWALSystem_def Let_def
    by (intro NewWALSystem_fold [OF ok]) (simp_all add: ring_wf_New members_New)
qed

section \<open>Properties of the log\<close>

text \<open>A codec for finitely many messages, as an instance of the protobuf parameter.\<close>

fun position :: "walEntry \<Rightarrow> walEntry list \<Rightarrow> nat option" where
  "position e [] = None"
| "position e (x # xs) = (if x = e then Some 0 else map_option Suc (position e xs))"

definition table_proto :: "walEntry list \<Rightarrow> proto" where
  "table_proto es =
     \<lparr>Marshal = (\<lambda>e. map_option (\<lambda>i. [char_of i]) (position e es)),
      Unmarshal = (\<lambda>d. case d of [c] \<Rightarrow> if byte_of c < length es then Some (es ! byte_of c) else None
                             | _ \<Rightarrow> None)\<rparr>"

lemma position_Some: "position e es = Some i \<Longrightarrow> i < length es \<and> es ! i = e"
  by (induction es arbitrary: i) (auto split: if_splits)

lemma proto_ok_table: "length es \<le> 256 \<Longrightarrow> proto_ok (table_proto es)"
  by (auto simp: proto_ok_def table_proto_def byte_of_def dest!: position_Some)

definition put1 :: walEntry where
  "put1 = \<lparr>Op = UPDATE, EKey = ''k'', EObject = Some \<lparr>Value = ''v'', Kind = KString, Timestamp = 0\<rparr>\<rparr>"

definition del1 :: walEntry where
  "del1 = \<lparr>Op = DELETE, EKey = ''k'', EObject = None\<rparr>"

definition P2 :: proto where
  "P2 = table_proto [put1, del1]"

lemma P2_ok: "proto_ok P2"
  by (simp add: P2_def proto_ok_table)

definition opts1 :: wal_options where
  "opts1 = withDefaults 4 \<lparr>ShardCount = 1, WALPath = [], BufSize = 0, BatchBytes = 0, FlushInterval = 0,
     WriteChanSize = 0, SyncPolicy = SyncEveryNBatch, SyncEveryN = 0, SegmentMaxSize = 0\<rparr>"

lemma opts1_eq: "opts1 = \<lparr>ShardCount = 1, WALPath = ''.'', BufSize = 4194304, BatchBytes = 1048576,
    FlushInterval = 5000000, WriteChanSize = 65536, SyncPolicy = 2, SyncEveryN = 10, SegmentMaxSize = 0\<rparr>"
  by (simp add: opts1_def withDefaults_def Let_def defaultBufSize_def defaultBatchBytes_def
      defaultFlushInterval_def SyncEveryNBatch_def)

lemma opts1_ok: "options_ok opts1"
  by (simp add: opts1_eq options_ok_def)

definition shard1 :: walShard where
  "shard1 = newWalShard ''0'' [] opts1"

text \<open>A shard that has accepted two entries.\<close>

definition shard2 :: walShard where
  "shard2 = shard1\<lparr>ch := [put1, del1]\<rparr>"

lemma shard1_inv: "shard_inv shard1"
  unfolding shard1_def by (rule shard_inv_new [OF opts1_ok])

lemma shard2_steps: "shard_steps P2 shard1 [put1, del1] shard2"
proof -
  have "send put1 shard1 = Some (shard1\<lparr>ch := [put1]\<rparr>)"
    "send del1 (shard1\<lparr>ch := [put1]\<rparr>) = Some shard2"
    by (simp_all add: send_def shard1_def shard2_def newWalShard_def opts1_eq)
  then have "shard_step P2 shard1 [put1] (shard1\<lparr>ch := [put1]\<rparr>)"
    "shard_step P2 (shard1\<lparr>ch := [put1]\<rparr>) [del1] shard2"
    by (auto intro!: shard_step.send simp: shard1_def newWalShard_def)
  from shard_steps.step [OF shard_steps.step [OF shard_steps.refl this(1)] this(2)]
  show ?thesis by simp
qed

lemma shard2_inv: "shard_inv shard2"
  using shard_steps_log [OF shard2_steps shard1_inv] by blast

lemma drain_closed_file:
  assumes "batchBytes s = int (length (batchBuf s))"
  shows "wfile (drain_closed P es s) = wfile s @ batchBuf s @ records P es \<and>
    opts (drain_closed P es s) = opts s"
  using assms
proof (induction es arbitrary: s)
  case Nil
  then show ?case by (simp add: wflush_def Let_def)
next
  case (Cons e es)
  define s1 where "s1 = (encodeAppend P e (s\<lparr>ch := es\<rparr>))\<lparr>wpc := PDrain\<rparr>"
  have s1: "batchBytes s1 = int (length (batchBuf s1))" "wfile s1 = wfile s" "opts s1 = opts s"
    "batchBuf s1 = batchBuf s @ record_of P e"
    using Cons.prems by (simp_all add: s1_def)
  show ?case
  proof (cases "batchBytes s1 < BatchBytes (opts s1)")
    case True
    with Cons.IH [OF s1(1)] s1 show ?thesis by (simp add: s1_def Let_def)
  next
    case False
    define s2 where "s2 = (wflush False s1)\<lparr>wpc := PSelect\<rparr>"
    have "batchBytes s2 = int (length (batchBuf s2))" "wfile s2 @ batchBuf s2 = wfile s1 @ batchBuf s1"
      "opts s2 = opts s1"
      using s1(1) by (simp_all add: s2_def wflush_def Let_def)
    moreover from this have "wfile s2 @ batchBuf s2 @ records P es = wfile s1 @ batchBuf s1 @ records P es"
      by (metis append_assoc)
    ultimately have "wfile (drain_closed P es s2) = wfile s @ batchBuf s @ records P (e # es) \<and>
        opts (drain_closed P es s2) = opts s"
      using Cons.IH [of s2] s1 by simp
    with False show ?thesis by (simp add: s1_def s2_def Let_def)
  qed
qed

lemma sClose_file:
  assumes "shard_inv s" and "\<not> sclosed s"
  shows "wfile (sClose P s) = log_of P s" and "fclosed (sClose P s)"
    and "SyncPolicy (opts s) \<noteq> SyncNever \<Longrightarrow> synced (sClose P s) = length (log_of P s)"
    and "close_end (drain_closed P (ch s) (close_begin s)) = Some (sClose P s)"
proof -
  let ?t = "drain_closed P (ch s) (close_begin s)"
  have t: "wfile ?t = log_of P s" "opts ?t = opts s"
    using drain_closed_file [of "close_begin s" P "ch s"] assms(1)
    by (simp_all add: shard_inv_def close_begin_def log_of_def)
  have c: "sclosed ?t" "\<not> fclosed ?t"
    using assms by (simp_all add: close_begin_def shard_inv_def)
  then have s: "sClose P s = ?t\<lparr>synced := (if SyncPolicy (opts ?t) \<noteq> SyncNever then length (wfile ?t)
      else synced ?t), fclosed := True\<rparr>"
    using assms(2) by (simp add: sClose_def close_end_def drain_closed_done)
  then show "wfile (sClose P s) = log_of P s" "fclosed (sClose P s)"
    "SyncPolicy (opts s) \<noteq> SyncNever \<Longrightarrow> synced (sClose P s) = length (log_of P s)"
    using t by simp_all
  show "close_end ?t = Some (sClose P s)"
    using c assms(2) by (simp add: sClose_def close_end_def drain_closed_done)
qed

lemma sClose_steps:
  assumes "shard_inv s" and "\<not> sclosed s" and "wpc s = PSelect"
  shows "shard_steps P s [] (sClose P s)"
proof -
  let ?c = "close_begin s"
  have c: "shard_steps P s [] ?c"
    using shard_steps.step [OF shard_steps.refl shard_step.close] by simp
  have "shard_steps P ?c [] (drain_closed P (ch s) ?c)"
    by (rule drain_closed_steps) (simp_all add: close_begin_def assms(3))
  from shard_steps_trans [OF this c] have "shard_steps P s [] (drain_closed P (ch s) ?c)" by simp
  from shard_steps.step [OF this shard_step.closed [OF sClose_file(4) [OF assms(1,2)]]]
  show ?thesis by simp
qed

lemma shard2_facts: "\<not> sclosed shard2" "SyncPolicy (opts shard2) \<noteq> SyncNever" "wpc shard2 = PSelect"
  by (simp_all add: shard2_def shard1_def newWalShard_def opts1_eq SyncNever_def)

text \<open>C2.  After a crash, whatever part of a shard's file has reached the disk, recovery delivers the
  updates and deletions of a prefix of the entries the shard accepted, in their order, and among
  them every entry whose record is whole on the disk.\<close>

theorem crash_recovery:
  assumes "proto_ok P" and "shard_inv s" and "log_of P s = records P es0"
    and "shard_steps P s es t" and "n \<le> length (wfile t)"
  shows "\<exists>fs err. prefix fs (es0 @ es) \<and> err \<in> {None, Some ReadEOF} \<and>
    recoverShard P (Some (take n (wfile t))) = (deliveries P fs, err) \<and>
    (\<forall>gs. prefix gs (es0 @ es) \<longrightarrow> length (records P gs) \<le> n \<longrightarrow> prefix (deliveries P gs) (deliveries P fs))"
proof -
  have l: "log_of P t = records P (es0 @ es)"
    using shard_steps_log [OF assms(4,2)] assms(3) by simp
  then have "records P (es0 @ es) = wfile t @ (batchBuf t @ records P (ch t))"
    by (simp only: log_of_def)
  then obtain x where x: "records P (es0 @ es) = wfile t @ x" by blast
  then have "n \<le> length (records P (es0 @ es))" "take n (wfile t) = take n (records P (es0 @ es))"
    using assms(5) by simp_all
  with recover_take [OF assms(1) this(1)] show ?thesis by (auto simp: recoverShard_def)
qed

theorem crash_recovery_witness:
  "\<exists>fs err. prefix fs [put1, del1] \<and> err \<in> {None, Some ReadEOF} \<and>
    recoverShard P2 (Some (take 12 (wfile (sClose P2 shard2)))) = (deliveries P2 fs, err)"
proof -
  have t: "shard_steps P2 shard1 [put1, del1] (sClose P2 shard2)"
    using shard_steps_trans [OF sClose_steps [OF shard2_inv shard2_facts(1,3)] shard2_steps] by simp
  have "length (log_of P2 shard2) = 18"
    by (simp add: log_of_def shard2_def shard1_def newWalShard_def record_of_def
        P2_def table_proto_def put1_def del1_def UPDATE_def DELETE_def)
  then have "12 \<le> length (wfile (sClose P2 shard2))"
    by (simp add: sClose_file(1) [OF shard2_inv shard2_facts(1)])
  from crash_recovery [OF P2_ok shard1_inv _ t this, of "[]"] show ?thesis
    by (auto simp: shard1_def)
qed

text \<open>C19.  Closing a shard writes all it has accepted: the file ends up as the log, entirely synced
  unless syncing is switched off, and closed; and the goroutine can get there from its outer
  select.\<close>

theorem close_durable:
  assumes "shard_inv s" and "\<not> sclosed s"
  shows "wfile (sClose P s) = log_of P s \<and> fclosed (sClose P s) \<and>
    (SyncPolicy (opts s) \<noteq> SyncNever \<longrightarrow> synced (sClose P s) = length (log_of P s)) \<and>
    (wpc s = PSelect \<longrightarrow> shard_steps P s [] (sClose P s))"
  using sClose_file [OF assms] sClose_steps [OF assms] by blast

theorem close_durable_witness:
  "wfile (sClose P2 shard2) = log_of P2 shard2 \<and> synced (sClose P2 shard2) = length (log_of P2 shard2)
    \<and> shard_steps P2 shard2 [] (sClose P2 shard2)"
  using close_durable [OF shard2_inv shard2_facts(1), of P2] shard2_facts by blast

lemma recover_bad:
  assumes "n \<le> 2 ^ 31" and "length d = n" and "ChecksumC d \<noteq> c"
  shows "recover_bytes P (PutUint32 (of_nat (4 + n)) @ PutUint32 c @ d @ r) = ([], Some ChecksumMismatch)"
  using assms(2,3)
  by (subst recover_bytes.simps) (auto simp add: Let_def unat_len [OF assms(1)] simp del: of_nat_add)

lemma Uint32_inj:
  assumes "length s = 4" and "length t = 4" and "Uint32 s = Uint32 t"
  shows "s = t"
proof -
  have four: "\<exists>a b c d. xs = [a, b, c, d]" if "length xs = 4" for xs :: bytes
    using that by (auto simp: numeral_eq_Suc length_Suc_conv)
  obtain a b c d where s: "s = [a, b, c, d]" using four [OF assms(1)] by blast
  obtain a' b' c' d' where t: "t = [a', b', c', d']" using four [OF assms(2)] by blast
  let ?f = "\<lambda>a b c d. ((byte_of a * 256 + byte_of b) * 256 + byte_of c) * 256 + byte_of d"
  have bound: "?f a b c d < 2 ^ 32" for a b c d
    using byte_of_less [of a] byte_of_less [of b] byte_of_less [of c] byte_of_less [of d] by simp
  have word: "unat (of_nat n :: 32 word) = n" if "n < 2 ^ 32" for n using that by (simp add: unat_of_nat)
  have "(of_nat (?f a b c d) :: 32 word) = of_nat (?f a' b' c' d')" using assms(3) by (simp only: s t Uint32.simps)
  from arg_cong [OF this, of unat] have e: "?f a b c d = ?f a' b' c' d'" by (simp only: word [OF bound])
  have step: "x = x' \<and> y = y'" if "x * 256 + y = x' * 256 + (y' :: nat)" "y < 256" "y' < 256" for x y x' y'
    using arg_cong [OF that(1), of "\<lambda>n. n div 256"] arg_cong [OF that(1), of "\<lambda>n. n mod 256"] that(2,3) by simp
  have "byte_of a = byte_of a'" "byte_of b = byte_of b'" "byte_of c = byte_of c'" "byte_of d = byte_of d'"
    using step [OF e byte_of_less byte_of_less]
      step [OF step [OF e byte_of_less byte_of_less, THEN conjunct1] byte_of_less byte_of_less]
      step [OF step [OF step [OF e byte_of_less byte_of_less, THEN conjunct1] byte_of_less byte_of_less, THEN conjunct1]
        byte_of_less byte_of_less] by simp_all
  then show ?thesis by (simp add: s t byte_of_def)
qed

lemma recover_bad_crc:
  assumes "n \<le> 2 ^ 31" and "length d = n" and "length q = 4" and "q \<noteq> PutUint32 (ChecksumC d)"
  shows "recover_bytes P (PutUint32 (of_nat (4 + n)) @ q @ d @ r) = ([], Some ChecksumMismatch)"
proof -
  have "Uint32 q \<noteq> ChecksumC d" using Uint32_inj [OF assms(3), of "PutUint32 (ChecksumC d)"] assms(4) by auto
  then have "PutUint32 (Uint32 q) = q" "ChecksumC d \<noteq> Uint32 q"
    using Uint32_inj [OF _ assms(3), of "PutUint32 (Uint32 q)"] by auto
  with recover_bad [OF assms(1,2), of "Uint32 q" P r] show ?thesis by simp
qed

text \<open>C20.  A record of which one byte was changed on the disk, in its checksum or in its data, is never
  replayed: recovery delivers what comes before it and stops with a checksum error.  (The four bytes of the
  length, before them, are not covered by the checksum: with one of them changed recovery takes other bytes
  for the record.)\<close>

theorem corrupt_byte:
  assumes "proto_ok P" and "4 \<le> i" and "i < length (record_of P e)" and "b \<noteq> record_of P e ! i"
  shows "recover_bytes P (records P es @ (record_of P e)[i := b] @ r) = (deliveries P es, Some ChecksumMismatch)"
proof -
  obtain d where d: "Marshal P e = Some d" using assms(2,3) by (cases "Marshal P e") (auto simp: record_of_def)
  have len: "length d \<le> 2 ^ 31" using assms(1) d unfolding proto_ok_def by blast
  have rec: "record_of P e = PutUint32 (of_nat (4 + length d)) @ PutUint32 (ChecksumC d) @ d"
    by (simp add: record_of_def d)
  have "recover_bytes P ((record_of P e)[i := b] @ r) = ([], Some ChecksumMismatch)"
  proof (cases "i < 8")
    case True
    have "(PutUint32 (ChecksumC d))[i - 4 := b] \<noteq> PutUint32 (ChecksumC d)"
      using assms(2,4) True unfolding rec by (simp add: nth_append list_update_same_conv less_diff_conv2)
    then show ?thesis
      using recover_bad_crc [OF len, of d "(PutUint32 (ChecksumC d))[i - 4 := b]" P r] True assms(2) unfolding rec
      by (simp add: list_update_append less_diff_conv2)
  next
    case False
    then have i: "i - 8 < length d" "b \<noteq> d ! (i - 8)" using assms(2-4) unfolding rec by (simp_all add: nth_append less_diff_conv2)
    have "d = take (i - 8) d @ d ! (i - 8) # drop (Suc (i - 8)) d" by (rule id_take_nth_drop [OF i(1)])
    then have "ChecksumC (d[i - 8 := b]) \<noteq> ChecksumC d"
      using ChecksumC_one_byte i(2) upd_conv_take_nth_drop [OF i(1)] by metis
    then show ?thesis
      using recover_bad [OF len, of "d[i - 8 := b]" "ChecksumC d" P r] False assms(2) unfolding rec
      by (simp add: list_update_append less_diff_conv2)
  qed
  then show ?thesis by (simp add: recover_records [OF assms(1)])
qed

theorem corrupt_byte_witness:
  "recover_bytes P2 (records P2 [put1] @ (record_of P2 del1)[4 := CHR ''x'']) = (deliveries P2 [put1], Some ChecksumMismatch) \<and>
   recover_bytes P2 (records P2 [put1] @ (record_of P2 del1)[8 := CHR ''x'']) = (deliveries P2 [put1], Some ChecksumMismatch)"
proof -
  have "4 < length (record_of P2 del1)" "8 < length (record_of P2 del1)"
    "CHR ''x'' \<noteq> record_of P2 del1 ! 4" "CHR ''x'' \<noteq> record_of P2 del1 ! 8" by code_simp+
  then show ?thesis
    using corrupt_byte [OF P2_ok, of 4 del1 "CHR ''x''" "[put1]" "[]"]
      corrupt_byte [OF P2_ok, of 8 del1 "CHR ''x''" "[put1]" "[]"] by simp
qed

text \<open>What \<^verbatim>\<open>Put\<close> answers: the entry is accepted, at the end of the channel of its key's shard,
  when the channel has room, or gets room while the sender waits; otherwise the write is refused
  with a backpressure error, and after \<^verbatim>\<open>Close\<close> always.\<close>

lemma put_result:
  assumes "wal_wf ws" and "map_of (wshards ws) (wnode ws k) = Some sh" and "\<not> sclosed sh"
  shows "case wPut P bs k ob ws of (ws', r) \<Rightarrow>
     r = (if wclosed ws then WErr WalClosed
          else if int (length (ch sh)) < WriteChanSize (opts sh)
                \<or> int (length (ch (run_branches P bs sh))) < WriteChanSize (opts sh) then WOk
          else WErr Backpressure) \<and>
     (r = WOk \<longrightarrow> (\<exists>sh' q. map_of (wshards ws') (wnode ws k) = Some sh' \<and>
        ch sh' = q @ [\<lparr>Op = UPDATE, EKey = k, EObject = ob\<rparr>] \<and>
        (q = ch sh \<or> q = ch (run_branches P bs sh))))"
proof -
  have "opts (run_branches P bs s) = opts s" for s
  proof (induction bs arbitrary: s)
    case (Cons b bs)
    have "opts t = opts s" if "run_branch P b s = Some t" for t
      using that by (cases b) (auto split: if_splits list.splits)
    with Cons show ?case by (auto split: option.split)
  qed simp
  then show ?thesis
    using assms(2,3) by (auto simp: wPut_def enqueue_def Let_def wnode_def send_def)
qed

text \<open>C21.  Recovery of any file ends, whatever its bytes: every pass of the loop takes at least the
  eight bytes of a header off the rest, so at most one entry is delivered for every eight bytes.\<close>

theorem recovery_ends: "8 * length (fst (recover_bytes P r)) \<le> length r"
proof (induction P r rule: recover_bytes.induct)
  case (1 P r)
  have step: "8 * length (fst (apfst ((@) (deliver e)) q)) \<le> length r"
    if "8 * length (fst q) \<le> length r - 8" "\<not> length r < 8" for q e
  proof -
    have "8 * length (deliver e) \<le> 8" by (simp add: deliver_def split: option.split)
    with that show ?thesis by simp
  qed
  let ?n = "unat (Uint32 (take 4 r) - 4)" and ?r = "drop 8 r"
  show ?case
  proof (cases "length r < 8 \<or> Uint32 (take 4 r) < 4 \<or> 0 < ?n \<and> ?r = [] \<or> length ?r < ?n \<or>
      ChecksumC (take ?n ?r) \<noteq> Uint32 (take 4 (drop 4 r)) \<or> Unmarshal P (take ?n ?r) = None")
    case True
    then have "fst (recover_bytes P r) = []"
      by (subst recover_bytes.simps) (auto simp: Let_def simp del: drop_eq_Nil)
    then show ?thesis by simp
  next
    case False
    then obtain e where e: "Unmarshal P (take ?n ?r) = Some e" by blast
    have "recover_bytes P r = apfst ((@) (deliver e)) (recover_bytes P (drop ?n ?r))"
      using False e by (subst recover_bytes.simps) (simp add: Let_def del: drop_eq_Nil drop_drop)
    moreover have "8 * length (fst (recover_bytes P (drop ?n ?r))) \<le> length (drop ?n ?r)"
      using False e by (intro 1) (auto simp del: drop_eq_Nil drop_drop)
    ultimately show ?thesis using step [of "recover_bytes P (drop ?n ?r)" e] False by simp
  qed
qed

end
