(* ===== verification/Shard_Manager.thy ===== *)
theory Shard_Manager
  imports Wal_Log
begin

text \<open>
  \<^verbatim>\<open>src/internal/shard/\<close>: the shards of the store, the ring that assigns keys to them, and the
  write-ahead log.  \<open>visible\<close> is the abstract state: the store as one map from keys to the
  objects a client can see.
\<close>

record shard =
  M :: memory
  Name :: string
  ID :: string
  HostAddress :: string

definition NewShard :: "string \<Rightarrow> string \<Rightarrow> string \<Rightarrow> shard" where
  "NewShard i name hostAddress = \<lparr>M = NewMemory, Name = name, ID = i, HostAddress = hostAddress\<rparr>"

record shardManager =
  shards :: "shard gomap"
  smring :: chash
  smwal :: walSystem

text \<open>The part of \<^verbatim>\<open>config.Persistence\<close> it reads: \<open>path\<close> and \<open>afterWriteCount\<close>.\<close>

definition NewShardManager ::
  "int \<Rightarrow> (string \<Rightarrow> bytes option) \<Rightarrow> string \<Rightarrow> int \<Rightarrow> int \<Rightarrow> shardManager" where
  "NewShardManager gomaxprocs disk path afterWriteCount numShards =
     (let w = NewWALSystem gomaxprocs disk
                \<lparr>ShardCount = numShards, WALPath = path, BufSize = 0, BatchBytes = 1048576,
                 FlushInterval = 5000000, WriteChanSize = 0, SyncPolicy = SyncEveryNBatch,
                 SyncEveryN = afterWriteCount, SegmentMaxSize = 0\<rparr>
      in fold (\<lambda>i sm. let ident = Itoa i;
                           sh = NewShard (Itoa i) (''Shard '' @ Itoa i) ''localhost:9291''
                       in sm\<lparr>shards := gm_upd ident sh (shards sm), smring := AddNode ident (smring sm)\<rparr>)
           (map int [0..<nat numShards])
           \<lparr>shards = [], smring = NewConsistentHash, smwal = w\<rparr>)"

text \<open>A key without a shard gives a nil pointer, here \<open>None\<close>: using it panics.\<close>

definition GetShardByKey :: "shardManager \<Rightarrow> string \<Rightarrow> shard option" where
  "GetShardByKey sm key = (let node = GetNode (smring sm) key in gm_get (shards sm) node)"

definition GetShardCount :: "shardManager \<Rightarrow> int" where
  "GetShardCount sm = int (length (shards sm))"

record shard_info =
  key_length :: int
  info_name :: string
  info_ID :: string
  host_address :: string

text \<open>The constant \<^verbatim>\<open>total_size\<close> (the size of a pointer) is left out; the rest is per shard, with
  the number of shards.\<close>

definition GetAllShardInfo :: "shardManager \<Rightarrow> int \<times> shard_info gomap" where
  "GetAllShardInfo sm =
     (GetShardCount sm,
      map (\<lambda>(name, sh). (name, \<lparr>key_length = Length (M sh), info_name = Name sh, info_ID = ID sh,
                                host_address = HostAddress sh\<rparr>)) (shards sm))"

text \<open>Writing back the memory of the shard a key belongs to.\<close>

definition with_mem :: "shardManager \<Rightarrow> string \<Rightarrow> memory \<Rightarrow> shardManager" where
  "with_mem sm key m =
     (case GetShardByKey sm key of
        None \<Rightarrow> sm
      | Some sh \<Rightarrow> sm\<lparr>shards := gm_upd (GetNode (smring sm) key) (sh\<lparr>M := m\<rparr>) (shards sm)\<rparr>)"

text \<open>The callback of \<^verbatim>\<open>RecoverMemory\<close>; \<open>now\<close> and \<open>now'\<close> are its reading of the clock and that of
  \<^verbatim>\<open>SetWithTTL\<close>.\<close>

definition recover_cb :: "int \<Rightarrow> int \<Rightarrow> delivery \<Rightarrow> shardManager \<Rightarrow> shardManager option" where
  "recover_cb now now' d sm =
     (case d of (key, obj, isDeleted) \<Rightarrow>
        let shard = GetShardByKey sm key in
        if isDeleted then
          (case shard of None \<Rightarrow> None | Some sh \<Rightarrow> Some (with_mem sm key (fst (Delete key (M sh)))))
        else case obj of
          None \<Rightarrow> Some sm
        | Some ob \<Rightarrow>
            (case shard of
               None \<Rightarrow> None
             | Some sh \<Rightarrow>
                 if 0 < Timestamp ob
                 then Some (with_mem sm key
                        (SetWithTTL now' key (Value ob) (Kind ob) (i64 (Timestamp ob - now)) (M sh)))
                 else Some (with_mem sm key (Set key (Value ob) (Kind ob) (M sh)))))"

fun recover_all :: "int \<Rightarrow> int \<Rightarrow> delivery list \<Rightarrow> shardManager \<Rightarrow> shardManager option" where
  "recover_all now now' [] sm = Some sm"
| "recover_all now now' (d # ds) sm =
     (case recover_cb now now' d sm of None \<Rightarrow> None | Some sm' \<Rightarrow> recover_all now now' ds sm')"

text \<open>\<^verbatim>\<open>RecoverMemory\<close> ignores the error of \<^verbatim>\<open>Recover\<close>.\<close>

definition RecoverMemory ::
  "proto \<Rightarrow> (string \<Rightarrow> bytes option) \<Rightarrow> (string list \<Rightarrow> string list) \<Rightarrow> int \<Rightarrow> int \<Rightarrow> string
    \<Rightarrow> shardManager \<Rightarrow> shardManager option" where
  "RecoverMemory P disk order now now' path sm =
     recover_all now now' (fst (Recover P disk order path (smwal sm))) sm"

section \<open>Invariant\<close>

definition sm_wf :: "shardManager \<Rightarrow> bool" where
  "sm_wf sm \<longleftrightarrow> ring_wf (smring sm) \<and> members (smring sm) \<noteq> {} \<and>
     members (smring sm) \<subseteq> dom (map_of (shards sm)) \<and> gm_ok (shards sm) \<and>
     (\<forall>i sh. map_of (shards sm) i = Some sh \<longrightarrow> gm_ok (M sh))"

lemma sm_wf_shard: "sm_wf sm \<Longrightarrow> \<exists>sh. GetShardByKey sm k = Some sh"
  unfolding sm_wf_def GetShardByKey_def Let_def by (blast intro: ring.lookup_total)

text \<open>The memory a key lives in, and the object under the key.\<close>

definition mem_of :: "shardManager \<Rightarrow> string \<Rightarrow> memory" where
  "mem_of sm k = (case GetShardByKey sm k of Some sh \<Rightarrow> M sh | None \<Rightarrow> [])"

definition stored :: "shardManager \<Rightarrow> string \<Rightarrow> object option" where
  "stored sm k = gm_get (mem_of sm k) k"

definition visible :: "int \<Rightarrow> shardManager \<Rightarrow> string \<Rightarrow> object option" where
  "visible now sm k = live now (mem_of sm k) k"

lemma visible_stored:
  "visible now sm k = (case stored sm k of None \<Rightarrow> None | Some ob \<Rightarrow> if expired now ob then None else Some ob)"
  by (simp add: visible_def stored_def live_def)

lemma with_mem_ring [simp]: "smring (with_mem sm k m) = smring sm"
  "smwal (with_mem sm k m) = smwal sm"
  by (simp_all add: with_mem_def split: option.split)

lemma mem_of_with_mem:
  assumes "sm_wf sm"
  shows "mem_of (with_mem sm k m) k' =
    (if GetNode (smring sm) k' = GetNode (smring sm) k then m else mem_of sm k')"
proof -
  obtain sh where "GetShardByKey sm k = Some sh" using sm_wf_shard [OF assms] by blast
  then show ?thesis
    by (auto simp: mem_of_def with_mem_def GetShardByKey_def Let_def)
qed

lemma gm_ok_mem_of [simp]: "sm_wf sm \<Longrightarrow> gm_ok (mem_of sm k)"
  by (auto simp: mem_of_def sm_wf_def GetShardByKey_def Let_def split: option.split)

lemma sm_wf_with_mem [simp]:
  assumes "sm_wf sm" and "gm_ok m"
  shows "sm_wf (with_mem sm k m)"
proof -
  obtain sh where "GetShardByKey sm k = Some sh" using sm_wf_shard [OF assms(1)] by blast
  with assms show ?thesis
    by (auto simp: sm_wf_def with_mem_def GetShardByKey_def Let_def)
qed

lemma stored_same_node:
  assumes "sm_wf sm" and "\<And>j. j \<noteq> k \<Longrightarrow> gm_get m j = gm_get (mem_of sm k) j"
  shows "stored (with_mem sm k m) k' = (if k' = k then gm_get m k else stored sm k')"
proof -
  have "mem_of sm k' = mem_of sm k" if "GetNode (smring sm) k' = GetNode (smring sm) k"
    using that by (simp add: mem_of_def GetShardByKey_def)
  then show ?thesis
    using assms by (auto simp: stored_def mem_of_with_mem)
qed

section \<open>The invariant holds from the start\<close>

lemma NewShardManager_fold:
  assumes "ring_wf (smring sm)" and "members (smring sm) \<subseteq> dom (map_of (shards sm))"
    and "gm_ok (shards sm)" and "\<forall>i sh. map_of (shards sm) i = Some sh \<longrightarrow> gm_ok (M sh)"
    and "members (smring sm) \<noteq> {} \<or> is \<noteq> []"
  shows "sm_wf (fold (\<lambda>i sm. sm\<lparr>shards := gm_upd (f i) (NewShard (f i) (g i) h) (shards sm),
    smring := AddNode (f i) (smring sm)\<rparr>) is sm)"
  using assms
proof (induction "is" arbitrary: sm)
  case Nil
  then show ?case by (simp add: sm_wf_def)
next
  case (Cons i "is")
  let ?sm = "sm\<lparr>shards := gm_upd (f i) (NewShard (f i) (g i) h) (shards sm),
    smring := AddNode (f i) (smring sm)\<rparr>"
  have "members (smring ?sm) \<noteq> {}" using nd_AddNode by auto
  moreover have "members (AddNode (f i) (smring sm)) \<subseteq> insert (f i) (dom (map_of (shards sm)))"
    using members_AddNode_sub Cons.prems(2) by blast
  ultimately show ?case
    unfolding fold.simps comp_def using Cons.prems
    by (intro Cons.IH) (auto simp: ring_wf_AddNode NewShard_def NewMemory_def split: if_splits)
qed

lemma fold_smwal:
  "smwal (fold (\<lambda>i sm. sm\<lparr>shards := F i sm, smring := G i sm\<rparr>) is sm) = smwal sm"
  by (induction "is" arbitrary: sm) simp_all

lemma NewShardManager_wf:
  assumes "0 < n"
  shows "sm_wf (NewShardManager g disk path aw n)" and "wal_wf (smwal (NewShardManager g disk path aw n))"
proof -
  have "map int [0..<nat n] \<noteq> []" using assms by simp
  then show "sm_wf (NewShardManager g disk path aw n)"
    unfolding NewShardManager_def Let_def
    by (intro NewShardManager_fold) (simp_all add: ring_wf_New members_New)
  show "wal_wf (smwal (NewShardManager g disk path aw n))"
    unfolding NewShardManager_def Let_def by (simp add: fold_smwal NewWALSystem_wf)
qed

end
