(* ===== verification/Float64.thy ===== *)
theory Float64
  imports Complex_Main Gostd
begin

text \<open>
  IEEE 754 binary64 as Fleare's number commands and \<^verbatim>\<open>encoding/json\<close> use it.
  \<open>Fin neg m e\<close> is the value \<open>(-1)^neg * m * 2^e\<close>; \<open>f64_ok\<close> picks the one pair \<open>(m, e)\<close>
  the format has for a value.  \<open>round_ratio\<close> rounds a non-negative rational to the nearest
  number, ties to even, and is the only place where precision is lost: integers, decimal and
  hexadecimal literals, sums and differences are all computed exactly and then rounded by it.
  \<open>ParseFloat\<close> and the formatting functions follow \<^verbatim>\<open>strconv\<close>.
\<close>

datatype f64 = Fin bool nat int | Inf bool | NaN

definition f64_ok :: "f64 \<Rightarrow> bool" where
  "f64_ok x = (case x of
     Fin s m e \<Rightarrow> m < 2 ^ 53 \<and> - 1074 \<le> e \<and> e \<le> 971 \<and> (m < 2 ^ 52 \<longrightarrow> e = - 1074)
   | _ \<Rightarrow> True)"

section \<open>Rounding\<close>

fun bitlen :: "nat \<Rightarrow> nat" where
  "bitlen n = (if n = 0 then 0 else Suc (bitlen (n div 2)))"

declare bitlen.simps [simp del]

text \<open>\<open>p / q\<close> times \<open>2^k\<close>, as numerator and denominator.\<close>

definition scale2 :: "nat \<Rightarrow> nat \<Rightarrow> int \<Rightarrow> nat \<times> nat" where
  "scale2 p q k = (if 0 \<le> k then (p * 2 ^ nat k, q) else (p, q * 2 ^ nat (- k)))"

definition scale10 :: "nat \<Rightarrow> nat \<Rightarrow> int \<Rightarrow> nat \<times> nat" where
  "scale10 p q k = (if 0 \<le> k then (p * 10 ^ nat k, q) else (p, q * 10 ^ nat (- k)))"

text \<open>The greatest \<open>k\<close> with \<open>2^k \<le> p / q\<close>, for positive \<open>p\<close> and \<open>q\<close>.\<close>

definition flog2 :: "nat \<Rightarrow> nat \<Rightarrow> int" where
  "flog2 p q = (let k = int (bitlen p) - int (bitlen q) in
     case scale2 p q (- k) of (a, b) \<Rightarrow> if b \<le> a then k else k - 1)"

text \<open>Nearest integer to \<open>p / q\<close>, ties to even.\<close>

definition rhe :: "nat \<Rightarrow> nat \<Rightarrow> nat" where
  "rhe p q = (let d = p div q; r = p mod q in
     if 2 * r < q then d else if q < 2 * r then Suc d
     else if even d then d else Suc d)"

definition round_ratio :: "bool \<Rightarrow> nat \<Rightarrow> nat \<Rightarrow> f64" where
  "round_ratio s p q =
     (if p = 0 then Fin s 0 (- 1074)
      else let e = max (- 1074) (flog2 p q - 52);
               m = (case scale2 p q (- e) of (a, b) \<Rightarrow> rhe a b);
               (m', e') = (if m = 2 ^ 53 then (2 ^ 52, e + 1) else (m, e))
           in if 971 < e' then Inf s else Fin s m' e')"

definition round2 :: "bool \<Rightarrow> nat \<Rightarrow> int \<Rightarrow> f64" where
  "round2 s c k = (case scale2 c 1 k of (p, q) \<Rightarrow> round_ratio s p q)"

definition round10 :: "bool \<Rightarrow> nat \<Rightarrow> int \<Rightarrow> f64" where
  "round10 s c k = (case scale10 c 1 k of (p, q) \<Rightarrow> round_ratio s p q)"

section \<open>Arithmetic and comparison\<close>

text \<open>\<^verbatim>\<open>float64(i)\<close>.\<close>

definition f64_of_int :: "int \<Rightarrow> f64" where
  "f64_of_int i = round_ratio (i < 0) (nat \<bar>i\<bar>) 1"

definition smag :: "bool \<Rightarrow> nat \<Rightarrow> int" where
  "smag s m = (if s then - int m else int m)"

instantiation f64 :: "{plus, minus, uminus}"
begin

fun uminus_f64 :: "f64 \<Rightarrow> f64" where
  "- (Fin s m e) = Fin (\<not> s) m e"
| "- (Inf s) = Inf (\<not> s)"
| "- NaN = NaN"

fun plus_f64 :: "f64 \<Rightarrow> f64 \<Rightarrow> f64" where
  "Fin s m e + Fin s' m' e' =
     (let lo = min e e';
          k = smag s (m * 2 ^ nat (e - lo)) + smag s' (m' * 2 ^ nat (e' - lo))
      in if k = 0 then Fin (s \<and> s') 0 (- 1074) else round2 (k < 0) (nat \<bar>k\<bar>) lo)"
| "Fin _ _ _ + Inf s = Inf s"
| "Inf s + Fin _ _ _ = Inf s"
| "Inf s + Inf s' = (if s = s' then Inf s else NaN)"
| "_ + NaN = NaN"
| "NaN + _ = NaN"

definition minus_f64 :: "f64 \<Rightarrow> f64 \<Rightarrow> f64" where
  "x - y = x + - (y :: f64)"

instance ..

end

definition f64_one :: f64 where
  "f64_one = Fin False (2 ^ 52) (- 52)"

text \<open>Go's \<^verbatim>\<open>==\<close> and \<^verbatim>\<open><\<close>: zeros are equal whatever their sign, NaN is equal to nothing.\<close>

fun f_eq :: "f64 \<Rightarrow> f64 \<Rightarrow> bool" where
  "f_eq (Fin s m e) (Fin s' m' e') =
     (let lo = min e e' in smag s (m * 2 ^ nat (e - lo)) = smag s' (m' * 2 ^ nat (e' - lo)))"
| "f_eq (Inf s) (Inf s') = (s = s')"
| "f_eq _ _ = False"

fun f_less :: "f64 \<Rightarrow> f64 \<Rightarrow> bool" where
  "f_less (Fin s m e) (Fin s' m' e') =
     (let lo = min e e' in smag s (m * 2 ^ nat (e - lo)) < smag s' (m' * 2 ^ nat (e' - lo)))"
| "f_less (Inf s) (Inf s') = (s \<and> \<not> s')"
| "f_less (Inf s) (Fin _ _ _) = s"
| "f_less (Fin _ _ _) (Inf s) = (\<not> s)"
| "f_less _ _ = False"

definition f_le :: "f64 \<Rightarrow> f64 \<Rightarrow> bool" where
  "f_le x y \<longleftrightarrow> f_less x y \<or> f_eq x y"

section \<open>Reading\<close>

definition lower :: "char \<Rightarrow> char" where
  "lower c = (let b = byte_of c in if 65 \<le> b \<and> b \<le> 90 then char_of (b + 32) else c)"

definition is_hexletter :: "char \<Rightarrow> bool" where
  "is_hexletter c = (let b = byte_of (lower c) in 97 \<le> b \<and> b \<le> 102)"

text \<open>The state of the digit loop of \<^verbatim>\<open>readFloat\<close>; \<open>mant\<close> keeps every digit, where the code
  keeps nineteen and falls back to an exact decimal for the rest.\<close>

record rdigits =
  sawdot :: bool
  sawdigits :: bool
  nd :: int
  dp :: int
  mant :: nat
  und :: bool

definition rd0 :: rdigits where
  "rd0 = \<lparr>sawdot = False, sawdigits = False, nd = 0, dp = 0, mant = 0, und = False\<rparr>"

fun rd_loop :: "bool \<Rightarrow> rdigits \<Rightarrow> string \<Rightarrow> rdigits \<times> string" where
  "rd_loop hex r [] = (r, [])"
| "rd_loop hex r (c # s) =
     (if c = CHR ''_'' then rd_loop hex (r\<lparr>und := True\<rparr>) s
      else if c = CHR ''.'' then
        (if sawdot r then (r, c # s) else rd_loop hex (r\<lparr>sawdot := True, dp := nd r\<rparr>) s)
      else if is_digit c then
        (if c = CHR ''0'' \<and> nd r = 0
         then rd_loop hex (r\<lparr>sawdigits := True, dp := dp r - 1\<rparr>) s
         else rd_loop hex (r\<lparr>sawdigits := True, nd := nd r + 1,
                mant := mant r * (if hex then 16 else 10) + dval c\<rparr>) s)
      else if hex \<and> is_hexletter c then
        rd_loop hex (r\<lparr>sawdigits := True, nd := nd r + 1,
          mant := mant r * 16 + (byte_of (lower c) - 87)\<rparr>) s
      else (r, c # s))"

text \<open>The exponent's digits, capped as the code caps them; underscores are skipped and noted.\<close>

fun rd_exp :: "nat \<Rightarrow> bool \<Rightarrow> string \<Rightarrow> nat \<times> bool \<times> string" where
  "rd_exp e u [] = (e, u, [])"
| "rd_exp e u (c # s) =
     (if c = CHR ''_'' then rd_exp e True s
      else if is_digit c then rd_exp (if e < 10000 then e * 10 + dval c else e) u s
      else (e, u, c # s))"

fun und_ok_loop :: "bool \<Rightarrow> nat \<Rightarrow> string \<Rightarrow> bool" where
  \<comment> \<open>what was seen last: 0 nothing, 1 a digit, 2 an underscore, 3 anything else\<close>
  "und_ok_loop hex saw [] = (saw \<noteq> 2)"
| "und_ok_loop hex saw (c # s) =
     (if is_digit c \<or> hex \<and> is_hexletter c then und_ok_loop hex 1 s
      else if c = CHR ''_'' then (if saw \<noteq> 1 then False else und_ok_loop hex 2 s)
      else if saw = 2 then False
      else und_ok_loop hex 3 s)"

definition underscoreOK :: "string \<Rightarrow> bool" where
  "underscoreOK s =
     (case snd (strip_sign s) of
        c # d # t \<Rightarrow>
          if c = CHR ''0'' \<and> lower d \<in> {CHR ''b'', CHR ''o'', CHR ''x''}
          then und_ok_loop (lower d = CHR ''x'') 1 t
          else und_ok_loop False 0 (c # d # t)
      | t \<Rightarrow> und_ok_loop False 0 t)"

text \<open>\<^verbatim>\<open>readFloat\<close> on a whole string: sign, base, mantissa and the exponent of the base (2 for a
  hexadecimal literal, 10 otherwise).\<close>

definition readFloat :: "string \<Rightarrow> (bool \<times> bool \<times> nat \<times> int) option" where
  "readFloat s =
     (case strip_sign s of (neg, t) \<Rightarrow>
       let hex = (case t of a # b # _ # _ \<Rightarrow> a = CHR ''0'' \<and> lower b = CHR ''x'' | _ \<Rightarrow> False);
           (r, rest) = rd_loop hex rd0 (if hex then drop 2 t else t)
       in if \<not> sawdigits r then None
          else
            let dp0 = (if sawdot r then dp r else nd r);
                (dp1, nd1) = (if hex then (dp0 * 4, nd r * 4) else (dp0, nd r))
            in (case rest of
                  [] \<Rightarrow> if hex \<or> und r \<and> \<not> underscoreOK s then None
                        else Some (neg, hex, mant r, dp1 - nd1)
                | c # rest1 \<Rightarrow>
                    if lower c = (if hex then CHR ''p'' else CHR ''e'') then
                      (case strip_sign rest1 of (eneg, rest2) \<Rightarrow>
                         if rest2 = [] \<or> \<not> is_digit (hd rest2) then None
                         else (case rd_exp 0 False rest2 of (e, u, rest3) \<Rightarrow>
                           if rest3 \<noteq> [] \<or> (und r \<or> u) \<and> \<not> underscoreOK s then None
                           else Some (neg, hex, mant r,
                                  dp1 + (if eneg then - int e else int e) - nd1)))
                    else None))"

definition special :: "string \<Rightarrow> f64 option" where
  "special s =
     (let l = map lower s; (neg, t) = strip_sign l in
      if t = ''inf'' \<or> t = ''infinity'' then Some (Inf neg)
      else if l = ''nan'' then Some NaN
      else None)"

text \<open>\<^verbatim>\<open>strconv.ParseFloat(s, 64)\<close>: \<open>None\<close> for a syntax error and for a number out of range.\<close>

definition ParseFloat :: "string \<Rightarrow> f64 option" where
  "ParseFloat s =
     (case special s of
        Some v \<Rightarrow> Some v
      | None \<Rightarrow> (case readFloat s of
          None \<Rightarrow> None
        | Some (neg, hex, c, k) \<Rightarrow>
            (case (if hex then round2 neg c k else round10 neg c k) of
               Fin s' m e \<Rightarrow> Some (Fin s' m e)
             | _ \<Rightarrow> None)))"

section \<open>Writing\<close>

text \<open>For \<open>p / q\<close> below 1, how often it must be multiplied by ten to reach 1.\<close>

function dec_up :: "nat \<Rightarrow> nat \<Rightarrow> nat" where
  "dec_up p q = (if p = 0 \<or> q \<le> p then 0 else Suc (dec_up (10 * p) q))"
  by pat_completeness auto
termination
  by (relation "measure (\<lambda>(p, q). q - p)") auto

declare dec_up.simps [simp del]

text \<open>The \<open>k\<close> with \<open>10^(k-1) \<le> p / q < 10^k\<close>.\<close>

definition dec_exp :: "nat \<Rightarrow> nat \<Rightarrow> int" where
  "dec_exp p q = (if q \<le> p then int (length (dec_of_nat (p div q))) else 1 - int (dec_up p q))"

text \<open>The shortest decimal that reads back as the number: for each count of digits from one
  on, the nearest decimal (ties to even), then its neighbours; the first that reads back wins.
  Seventeen digits always suffice for a binary64; past them the exact value is taken, so that
  the function is total.\<close>

definition candidates :: "nat \<Rightarrow> nat \<Rightarrow> int \<Rightarrow> nat list" where
  "candidates p q k = (case scale10 p q k of (a, b) \<Rightarrow> [rhe a b, a div b, Suc (a div b)])"

fun shortest_loop :: "f64 \<Rightarrow> nat \<Rightarrow> nat \<Rightarrow> int \<Rightarrow> nat \<Rightarrow> nat \<Rightarrow> (nat \<times> int) option" where
  "shortest_loop x p q k n 0 = None"
| "shortest_loop x p q k n (Suc left) =
     (let j = int n - k in
      case filter (\<lambda>c. round10 False c (- j) = x) (candidates p q j) of
        c # _ \<Rightarrow> Some (c, - j)
      | [] \<Rightarrow> shortest_loop x p q k (Suc n) left)"

definition exact_dec :: "nat \<Rightarrow> int \<Rightarrow> nat \<times> int" where
  "exact_dec m e = (if 0 \<le> e then (m * 2 ^ nat e, 0) else (m * 5 ^ nat (- e), e))"

definition shortest_int :: "nat \<Rightarrow> int \<Rightarrow> nat \<times> int" where
  "shortest_int m e =
     (case scale2 m 1 e of (p, q) \<Rightarrow>
        case shortest_loop (Fin False m e) p q (dec_exp p q) 1 17 of
          Some r \<Rightarrow> r
        | None \<Rightarrow> exact_dec m e)"

definition strip0 :: "string \<Rightarrow> string" where
  "strip0 s = rev (dropWhile (\<lambda>c. c = CHR ''0'') (rev s))"

text \<open>The digits and the position of the decimal point: the value is \<open>0.d1d2... * 10^dp\<close>.\<close>

definition shortest :: "nat \<Rightarrow> int \<Rightarrow> string \<times> int" where
  "shortest m e =
     (if m = 0 then ([], 0)
      else case shortest_int m e of (c, j) \<Rightarrow>
        let ds = dec_of_nat c in (strip0 ds, int (length ds) + j))"

definition sign_str :: "bool \<Rightarrow> string" where
  "sign_str s = (if s then ''-'' else [])"

definition digit_at :: "string \<Rightarrow> int \<Rightarrow> char" where
  "digit_at ds j = (if 0 \<le> j \<and> j < int (length ds) then ds ! nat j else CHR ''0'')"

text \<open>\<^verbatim>\<open>fmtF\<close> and \<^verbatim>\<open>fmtE\<close> with the shortest precision.\<close>

definition fmtF :: "bool \<Rightarrow> string \<Rightarrow> int \<Rightarrow> string" where
  "fmtF s ds p =
     (let frac = max (int (length ds) - p) 0 in
      sign_str s
      @ (if 0 < p then map (\<lambda>i. digit_at ds (int i)) [0..<nat p] else ''0'')
      @ (if 0 < frac then CHR ''.'' # map (\<lambda>i. digit_at ds (p + int i)) [0..<nat frac] else []))"

definition fmt_exp :: "int \<Rightarrow> string" where
  "fmt_exp x = (if x < 0 then CHR ''-'' else CHR ''+'') #
     (let ds = dec_of_nat (nat \<bar>x\<bar>) in if length ds < 2 then CHR ''0'' # ds else ds)"

definition fmtE :: "bool \<Rightarrow> string \<Rightarrow> int \<Rightarrow> string" where
  "fmtE s ds p =
     sign_str s
     @ (case ds of
          [] \<Rightarrow> ''0''
        | d # rest \<Rightarrow> d # (if rest = [] then [] else CHR ''.'' # rest))
     @ CHR ''e'' # fmt_exp (if ds = [] then 0 else p - 1)"

text \<open>\<^verbatim>\<open>%v\<close>: \<^verbatim>\<open>FormatFloat(f, 'g', -1, 64)\<close>, with the sign \<^verbatim>\<open>fmt\<close> prints for an infinity.\<close>

definition fmt_v :: "f64 \<Rightarrow> string" where
  "fmt_v x = (case x of
     NaN \<Rightarrow> ''NaN''
   | Inf s \<Rightarrow> if s then ''-Inf'' else ''+Inf''
   | Fin s m e \<Rightarrow> (case shortest m e of (ds, p) \<Rightarrow>
       if p - 1 < - 4 \<or> 6 \<le> p - 1 then fmtE s ds p else fmtF s ds p))"

text \<open>\<^verbatim>\<open>encoding/json\<close>'s \<^verbatim>\<open>floatEncoder\<close>: \<open>None\<close> for a value JSON cannot write; below \<open>1e-6\<close>
  and from \<open>1e21\<close> on it uses the exponent form, with a one-digit negative exponent.\<close>

definition f64_below_1em6 :: "nat \<Rightarrow> int \<Rightarrow> bool" where
  "f64_below_1em6 m e = f_less (Fin False m e) (round10 False 1 (- 6))"

definition f64_from_1e21 :: "nat \<Rightarrow> int \<Rightarrow> bool" where
  "f64_from_1e21 m e = f_le (round10 False 1 21) (Fin False m e)"

definition clean_exp :: "string \<Rightarrow> string" where
  "clean_exp s = (let n = length s in
     if 4 \<le> n \<and> s ! (n - 4) = CHR ''e'' \<and> (s ! (n - 3) = CHR ''-'' \<or> s ! (n - 3) = CHR ''+'')
        \<and> s ! (n - 2) = CHR ''0''
     then take (n - 2) s @ [s ! (n - 1)] else s)"

definition fmt_json :: "f64 \<Rightarrow> string option" where
  "fmt_json x = (case x of
     Fin s m e \<Rightarrow> (case shortest m e of (ds, p) \<Rightarrow>
       Some (if m \<noteq> 0 \<and> (f64_below_1em6 m e \<or> f64_from_1e21 m e)
             then clean_exp (fmtE s ds p) else fmtF s ds p))
   | _ \<Rightarrow> None)"

section \<open>Rounding is exact on representable values\<close>

lemma bitlen_bounds: "0 < n \<Longrightarrow> 2 ^ (bitlen n - 1) \<le> n \<and> n < 2 ^ bitlen n \<and> 0 < bitlen n"
proof (induction n rule: bitlen.induct)
  case (1 n)
  show ?case
  proof (cases "n div 2 = 0")
    case True
    with 1 have "n = 1" by auto
    then show ?thesis by (simp add: bitlen.simps)
  next
    case False
    with 1 have ih: "2 ^ (bitlen (n div 2) - 1) \<le> n div 2" "n div 2 < 2 ^ bitlen (n div 2)"
      "0 < bitlen (n div 2)" by auto
    have b: "bitlen n = Suc (bitlen (n div 2))" using 1 by (subst bitlen.simps) simp
    have "2 ^ bitlen (n div 2) = 2 * 2 ^ (bitlen (n div 2) - 1)"
      using ih(3) by (metis power_eq_if less_numeral_extra(3))
    also have "\<dots> \<le> 2 * (n div 2)" using ih(1) by simp
    also have "\<dots> \<le> n" by simp
    finally have "2 ^ bitlen (n div 2) \<le> n" .
    moreover have "n < 2 * 2 ^ bitlen (n div 2)" using ih(2) by linarith
    ultimately show ?thesis by (simp add: b)
  qed
qed

definition ratio :: "nat \<times> nat \<Rightarrow> real" where
  "ratio x = real (fst x) / real (snd x)"

lemma scale2_ratio: "0 < q \<Longrightarrow>
  ratio (scale2 p q k) = real p / real q * 2 powi k \<and> 0 < snd (scale2 p q k)"
  by (auto simp: ratio_def scale2_def power_int_def field_simps)

lemma scale10_ratio: "0 < q \<Longrightarrow>
  ratio (scale10 p q k) = real p / real q * 10 powi k \<and> 0 < snd (scale10 p q k)"
  by (auto simp: ratio_def scale10_def power_int_def field_simps)

lemma fst_scale2_0 [simp]: "fst (scale2 p q k) = 0 \<longleftrightarrow> p = 0"
  by (simp add: scale2_def)

lemma powi2_add: "(2::real) powi (a + b) = 2 powi a * 2 powi b"
  by (simp add: power_int_add)

lemma powi2_less: "(2::real) powi a < 2 powi b \<longleftrightarrow> a < b"
proof
  show "a < b" if "(2::real) powi a < 2 powi b"
    using that power_int_increasing [of b a "2::real"] by force
qed (simp add: power_int_strict_increasing)

lemma powi2_nat: "(2::real) powi int n = 2 ^ n"
  by simp

lemma real_less_2n: "m < 2 ^ n \<Longrightarrow> real m < 2 powi int n"
  using of_nat_less_iff [where 'a = real, of m "2 ^ n"] by (simp only: powi2_nat of_nat_power of_nat_numeral)

lemma real_le_2n: "2 ^ n \<le> m \<Longrightarrow> 2 powi int n \<le> real m"
  using of_nat_le_iff [where 'a = real, of "2 ^ n" m] by (simp only: powi2_nat of_nat_power of_nat_numeral)

lemma one_le_scaled: "1 \<le> x * 2 powi (- k) \<longleftrightarrow> 2 powi k \<le> (x :: real)"
proof -
  have "0 < (2::real) powi k" by simp
  then show ?thesis by (simp add: power_int_minus field_simps)
qed

lemma flog2_bounds:
  assumes "0 < p" "0 < q"
  shows "2 powi (flog2 p q) \<le> real p / real q \<and> real p / real q < 2 powi (flog2 p q + 1)"
proof -
  define k where "k = int (bitlen p) - int (bitlen q)"
  obtain a b where ab: "scale2 p q (- k) = (a, b)" by force
  then have r: "real a / real b = real p / real q * 2 powi (- k)" and b: "0 < b"
    using scale2_ratio [OF assms(2), of p "- k"] by (auto simp: ratio_def)
  have P: "2 powi (int (bitlen p) - 1) \<le> real p" "real p < 2 powi int (bitlen p)"
    using bitlen_bounds [OF assms(1)] real_le_2n [of "bitlen p - 1" p] real_less_2n
    by (simp_all add: of_nat_diff Suc_leI)
  have Q: "2 powi (int (bitlen q) - 1) \<le> real q" "real q < 2 powi int (bitlen q)"
    using bitlen_bounds [OF assms(2)] real_le_2n [of "bitlen q - 1" q] real_less_2n
    by (simp_all add: of_nat_diff Suc_leI)
  have up: "real p / real q < 2 powi (k + 1)"
  proof -
    have "2 powi (k + 1) * real q \<ge> 2 powi (k + 1) * 2 powi (int (bitlen q) - 1)"
      using Q(1) by simp
    also have "2 powi (k + 1) * 2 powi (int (bitlen q) - 1) = (2::real) powi int (bitlen p)"
      by (simp add: k_def flip: powi2_add)
    finally have "real p < 2 powi (k + 1) * real q" using P(2) by linarith
    then show ?thesis using assms(2) by (simp add: pos_divide_less_eq)
  qed
  have lo: "2 powi (k - 1) \<le> real p / real q"
  proof -
    have "2 powi (k - 1) * real q \<le> 2 powi (k - 1) * 2 powi int (bitlen q)"
      using Q(2) by simp
    also have "\<dots> = (2::real) powi (int (bitlen p) - 1)"
      by (simp only: k_def flip: powi2_add) simp
    finally show ?thesis using P(1) assms(2) by (simp add: field_simps)
  qed
  have "b \<le> a \<longleftrightarrow> 1 \<le> real a / real b" using b by (simp add: field_simps)
  also have "\<dots> \<longleftrightarrow> 2 powi k \<le> real p / real q"
    by (simp only: r one_le_scaled)
  finally have "flog2 p q = (if 2 powi k \<le> real p / real q then k else k - 1)"
    by (simp add: flog2_def ab Let_def flip: k_def)
  then show ?thesis using up lo by simp
qed

lemma flog2_unique:
  assumes "0 < p" "0 < q" "2 powi k \<le> real p / real q" "real p / real q < 2 powi (k + 1)"
  shows "flog2 p q = k"
proof -
  note b = flog2_bounds [OF assms(1,2)]
  have "(2::real) powi k < 2 powi (flog2 p q + 1)" "(2::real) powi (flog2 p q) < 2 powi (k + 1)"
    using b assms by linarith+
  then show ?thesis by (simp add: powi2_less)
qed

lemma flog2_cong:
  assumes "0 < p" "0 < q" "0 < p'" "0 < q'" "real p / real q = real p' / real q'"
  shows "flog2 p q = flog2 p' q'"
  using flog2_unique [OF assms(1,2)] flog2_bounds [OF assms(3,4)] assms(5) by simp

lemma rhe_scale: "0 < c \<Longrightarrow> rhe (c * p) (c * q) = rhe p q"
  by (simp add: rhe_def Let_def mult.left_commute [of 2] flip: mult_mod_right)

lemma rhe_cong:
  assumes "0 < q" "0 < q'" "real p / real q = real p' / real q'"
  shows "rhe p q = rhe p' q'"
proof -
  have "real (p * q') = real (p' * q)" using assms by (simp add: field_simps)
  then have "q' * p = q * p'" by (metis mult.commute of_nat_eq_iff)
  then show ?thesis
    using rhe_scale [OF assms(2), of p q] rhe_scale [OF assms(1), of p' q']
    by (simp add: mult.commute)
qed

lemma rhe_exact: "0 < q \<Longrightarrow> rhe (m * q) q = m"
  by (simp add: rhe_def)

lemma rhe_ratio: "0 < q \<Longrightarrow> real p / real q = real m \<Longrightarrow> rhe p q = m"
  using rhe_cong [of q 1 p m] rhe_exact [of 1 m] by simp

lemma round_ratio_cong:
  assumes "0 < q" "0 < q'" "real p / real q = real p' / real q'"
  shows "round_ratio s p q = round_ratio s p' q'"
proof (cases "p = 0")
  case True
  then have "p' = 0" using assms by (simp add: field_simps)
  with True show ?thesis by (simp add: round_ratio_def)
next
  case False
  then have p': "p' \<noteq> 0" using assms by (intro notI) (simp add: field_simps)
  have f: "flog2 p q = flog2 p' q'" using flog2_cong [OF _ assms(1) _ assms(2,3)] False p' by simp
  have "(case scale2 p q k of (a, b) \<Rightarrow> rhe a b) = (case scale2 p' q' k of (a, b) \<Rightarrow> rhe a b)" for k
    using scale2_ratio [OF assms(1), of p k] scale2_ratio [OF assms(2), of p' k] assms(3)
    by (auto simp: ratio_def split: prod.splits intro!: rhe_cong)
  with f False p' show ?thesis by (simp add: round_ratio_def)
qed

lemma round_ratio_pos:
  assumes "p \<noteq> 0" "E = max (- 1074) (flog2 p q - 52)" "scale2 p q (- E) = (a, b)"
  shows "round_ratio s p q =
    (if rhe a b = 2 ^ 53
     then (if 971 < E + 1 then Inf s else Fin s (2 ^ 52) (E + 1))
     else (if 971 < E then Inf s else Fin s (rhe a b) E))"
  unfolding round_ratio_def Let_def assms(2) [symmetric] assms(3) prod.case
  using assms(1) by (simp split: if_split)

lemma flog2_normal:
  assumes "2 ^ 52 \<le> m" "m < 2 ^ 53" "0 < p" "0 < q" "real p / real q = real m * 2 powi e"
  shows "flog2 p q = e + 52"
proof (rule flog2_unique [OF assms(3,4)])
  have "2 powi int 52 * 2 powi e \<le> real m * (2::real) powi e"
    using real_le_2n [OF assms(1)] by (rule mult_right_mono) simp
  then show "2 powi (e + 52) \<le> real p / real q"
    by (simp only: assms(5) add.commute [of e] of_nat_numeral flip: powi2_add)
  have "real m * 2 powi e < 2 powi int 53 * (2::real) powi e"
    using real_less_2n [OF assms(2)] by (rule mult_strict_right_mono) simp
  also have "\<dots> = 2 powi (e + 52 + 1)"
    by (simp only: of_nat_numeral add.commute [of e] add.assoc flip: powi2_add) simp
  finally show "real p / real q < 2 powi (e + 52 + 1)"
    by (simp only: assms(5))
qed

lemma flog2_subnormal:
  assumes "m < 2 ^ 52" "0 < p" "0 < q" "real p / real q = real m * 2 powi (- 1074)"
  shows "flog2 p q < - 1022"
proof -
  have "real m * 2 powi (- 1074) < 2 powi int 52 * (2::real) powi (- 1074)"
    using real_less_2n [OF assms(1)] by (rule mult_strict_right_mono) simp
  also have "\<dots> = 2 powi (- 1022)"
    by (simp only: of_nat_numeral flip: powi2_add) simp
  finally have "2 powi (flog2 p q) < (2::real) powi (- 1022)"
    using flog2_bounds [OF assms(2,3)] assms(4) by linarith
  then show ?thesis by (simp only: powi2_less)
qed

theorem round_ratio_exact:
  assumes ok: "f64_ok (Fin s m e)" and q: "0 < q" and v: "real p / real q = real m * 2 powi e"
  shows "round_ratio s p q = Fin s m e"
proof (cases "m = 0")
  case True
  then have "p = 0" using v q by simp
  with True ok show ?thesis by (simp add: round_ratio_def f64_ok_def)
next
  case False
  then have p: "0 < p" using v q by (auto intro: Nat.gr0I)
  have m: "m < 2 ^ 53" "- 1074 \<le> e" "e \<le> 971" "m < 2 ^ 52 \<longrightarrow> e = - 1074"
    using ok by (auto simp: f64_ok_def)
  have e: "max (- 1074) (flog2 p q - 52) = e"
  proof (cases "m < 2 ^ 52")
    case True
    with m v flog2_subnormal [OF True p q] show ?thesis by simp
  next
    case nrm: False
    with flog2_normal [OF _ m(1) p q v] m(2) show ?thesis by simp
  qed
  obtain a b where ab: "scale2 p q (- e) = (a, b)" by force
  then have "real a / real b = real m" "0 < b"
    using scale2_ratio [OF q, of p "- e"] v by (auto simp: ratio_def power_int_minus)
  then have "rhe a b = m" by (rule rhe_ratio [rotated])
  then show ?thesis using p m round_ratio_pos [OF _ e [symmetric] ab] by simp
qed

section \<open>The shortest decimal reads back\<close>

lemma scale10_val:
  assumes "scale10 c 1 k = (p, q)"
  shows "real p / real q = real c * 10 powi k" "0 < q"
  using scale10_ratio [of 1 c k] by (simp_all add: assms ratio_def del: One_nat_def)

lemma round10_cong:
  assumes "real c * 10 powi k = real c' * 10 powi k'"
  shows "round10 s c k = round10 s c' k'"
proof -
  obtain p q where pq: "scale10 c 1 k = (p, q)" by force
  obtain p' q' where pq': "scale10 c' 1 k' = (p', q')" by force
  have "real p / real q = real p' / real q'"
    using scale10_val(1) [OF pq] scale10_val(1) [OF pq'] by (simp only: assms)
  with round_ratio_cong [OF scale10_val(2) [OF pq] scale10_val(2) [OF pq']]
  show ?thesis by (simp add: round10_def pq pq' del: One_nat_def)
qed

lemma round10_exact:
  assumes "f64_ok (Fin s m e)" "real c * 10 powi k = real m * 2 powi e"
  shows "round10 s c k = Fin s m e"
proof -
  obtain p q where pq: "scale10 c 1 k = (p, q)" by force
  have "real p / real q = real m * 2 powi e"
    using scale10_val(1) [OF pq] by (simp only: assms(2))
  then have "round_ratio s p q = Fin s m e"
    using round_ratio_exact [OF assms(1) scale10_val(2) [OF pq]] by blast
  with pq show ?thesis by (simp add: round10_def del: One_nat_def)
qed

lemma round10_sign: "round10 False c k = Fin False m e \<Longrightarrow> round10 s c k = Fin s m e"
  by (auto simp: round10_def round_ratio_def Let_def split: prod.splits if_splits)

lemma shortest_loop_reads:
  "shortest_loop x p q k n f = Some (c, j) \<Longrightarrow> round10 False c j = x"
proof (induction x p q k n f rule: shortest_loop.induct)
  case (2 x p q k n f)
  define cs where "cs = filter (\<lambda>c. round10 False c (k - int n) = x) (candidates p q (int n - k))"
  show ?case
  proof (cases cs)
    case Nil
    with 2 show ?thesis by (simp add: cs_def Let_def)
  next
    case (Cons c' cs')
    then have "c' \<in> set cs" by simp
    moreover have "c = c'" "j = k - int n"
      using 2(2) Cons by (auto simp: Let_def simp flip: cs_def)
    ultimately show ?thesis by (auto simp: cs_def)
  qed
qed simp

lemma exact_dec_value: "exact_dec m e = (c, j) \<Longrightarrow> real c * 10 powi j = real m * 2 powi e"
proof -
  have "(5::real) powi (- e) * 10 powi e = 2 powi e"
    by (simp add: power_int_minus field_simps flip: power_int_mult_distrib)
  then show "exact_dec m e = (c, j) \<Longrightarrow> real c * 10 powi j = real m * 2 powi e"
    by (auto simp: exact_dec_def power_int_def split: if_splits)
qed

lemma shortest_int_reads:
  assumes "f64_ok (Fin s m e)" "shortest_int m e = (c, j)"
  shows "round10 s c j = Fin s m e"
proof -
  have ok: "f64_ok (Fin False m e)" using assms(1) by (simp add: f64_ok_def)
  obtain p q where pq: "scale2 m 1 e = (p, q)" by force
  have "round10 False c j = Fin False m e"
  proof (cases "shortest_loop (Fin False m e) p q (dec_exp p q) 1 17")
    case None
    with assms(2) pq have "exact_dec m e = (c, j)" by (simp add: shortest_int_def)
    then show ?thesis using round10_exact [OF ok] exact_dec_value by blast
  next
    case (Some r)
    with assms(2) pq have "shortest_loop (Fin False m e) p q (dec_exp p q) 1 17 = Some (c, j)"
      by (simp add: shortest_int_def)
    then show ?thesis by (rule shortest_loop_reads)
  qed
  then show ?thesis by (rule round10_sign)
qed

lemma strip0_append: "\<exists>n. s = strip0 s @ replicate n (CHR ''0'')"
proof -
  define P where "P = (\<lambda>c :: char. c = CHR ''0'')"
  have "rev s = takeWhile P (rev s) @ dropWhile P (rev s)" by simp
  moreover have "\<forall>x \<in> set (takeWhile P (rev s)). x = CHR ''0''"
    using set_takeWhileD by (fastforce simp: P_def)
  then have "takeWhile P (rev s) = replicate (length (takeWhile P (rev s))) (CHR ''0'')"
    using replicate_length_same by metis
  ultimately have "s = rev (dropWhile P (rev s)) @ replicate (length (takeWhile P (rev s))) (CHR ''0'')"
    by (metis rev_append rev_replicate rev_rev_ident)
  then show ?thesis by (auto simp: strip0_def P_def)
qed

lemma nat_of_dec_zeros: "nat_of_dec (s @ replicate n (CHR ''0'')) = nat_of_dec s * 10 ^ n"
proof (induction n)
  case (Suc n)
  have "s @ replicate (Suc n) (CHR ''0'') = (s @ replicate n (CHR ''0'')) @ [CHR ''0'']"
    by (simp add: replicate_append_same)
  then show ?case using Suc by (simp only: nat_of_dec_snoc) (simp add: dval_def byte_of_def)
qed simp

lemma shortest_reads:
  assumes "f64_ok (Fin s m e)" "shortest m e = (ds, p)"
  shows "round10 s (nat_of_dec ds) (p - int (length ds)) = Fin s m e"
proof (cases "m = 0")
  case True
  then have e: "e = - 1074" using assms(1) by (simp add: f64_ok_def)
  have "ds = []" "p = 0" using True assms(2) by (simp_all add: shortest_def)
  then show ?thesis using True e by (simp add: round10_def scale10_def round_ratio_def)
next
  case False
  obtain c j where cj: "shortest_int m e = (c, j)" by force
  obtain n where n: "dec_of_nat c = strip0 (dec_of_nat c) @ replicate n (CHR ''0'')"
    using strip0_append by blast
  have ds: "ds = strip0 (dec_of_nat c)" "p = int (length (dec_of_nat c)) + j"
    using False cj assms(2) by (auto simp: shortest_def Let_def)
  have l: "length (dec_of_nat c) = length ds + n"
    using arg_cong [OF n, of length] by (simp add: ds)
  have c: "c = nat_of_dec ds * 10 ^ n"
    using arg_cong [OF n, of nat_of_dec] nat_of_dec_zeros [of ds n] by (simp add: ds)
  have "p - int (length ds) = int n + j" using ds(2) l by simp
  then have "real c * 10 powi j = real (nat_of_dec ds) * 10 powi (p - int (length ds))"
    by (subst c) (simp add: power_int_add)
  then show ?thesis
    using round10_cong [of c j "nat_of_dec ds" "p - int (length ds)" s]
      shortest_int_reads [OF assms(1) cj] by simp
qed

end
