(* ===== verification/Float_Text.thy ===== *)
theory Float_Text
  imports Float64
begin

text \<open>
  What \<^verbatim>\<open>encoding/json\<close> writes for a number is read back by \<^verbatim>\<open>strconv.ParseFloat\<close> as the
  same number.  \<open>num_shape\<close> is the form of every such text: a sign, an integer part, a fraction,
  an exponent; the JSON scanner accepts it and \<open>readFloat\<close> computes its value.
\<close>

definition exp_str :: "(bool \<times> string) option \<Rightarrow> string" where
  "exp_str E = (case E of None \<Rightarrow> []
     | Some (en, es) \<Rightarrow> CHR ''e'' # (if en then CHR ''-'' else CHR ''+'') # es)"

definition frac_str :: "string \<Rightarrow> string" where
  "frac_str B = (if B = [] then [] else CHR ''.'' # B)"

definition num_shape :: "bool \<Rightarrow> string \<Rightarrow> string \<Rightarrow> (bool \<times> string) option \<Rightarrow> string" where
  "num_shape neg A B E = sign_str neg @ A @ frac_str B @ exp_str E"

definition exp_val :: "(bool \<times> string) option \<Rightarrow> int" where
  "exp_val E = (case E of None \<Rightarrow> 0
     | Some (en, es) \<Rightarrow> if en then - int (nat_of_dec es) else int (nat_of_dec es))"

definition shape_ok :: "string \<Rightarrow> string \<Rightarrow> (bool \<times> string) option \<Rightarrow> bool" where
  "shape_ok A B E \<longleftrightarrow> A \<noteq> [] \<and> list_all is_digit A \<and> list_all is_digit B
     \<and> (A = ''0'' \<or> hd A \<noteq> CHR ''0'')
     \<and> (case E of None \<Rightarrow> True | Some (en, es) \<Rightarrow>
          es \<noteq> [] \<and> list_all is_digit es \<and> length es \<le> 5)"

section \<open>Reading the shape\<close>

lemma digit_neq: "is_digit c \<Longrightarrow> c \<noteq> CHR ''_'' \<and> c \<noteq> CHR ''.'' \<and> c \<noteq> CHR ''-''
    \<and> c \<noteq> CHR ''+'' \<and> c \<noteq> CHR ''e'' \<and> c \<noteq> CHR ''i'' \<and> c \<noteq> CHR ''n'' \<and> c \<noteq> CHR ''x''
    \<and> lower c = c"
  by (auto simp: is_digit_def byte_of_def lower_def)

definition rd_inv :: "rdigits \<Rightarrow> bool" where
  "rd_inv r \<longleftrightarrow> 0 \<le> nd r \<and> (nd r = 0 \<longrightarrow> mant r = 0)"

lemma rd_loop_digits:
  assumes "list_all is_digit t" "rd_inv r"
  shows "\<exists>r'. rd_loop False r (t @ rest) = rd_loop False r' rest \<and> rd_inv r'
    \<and> mant r' = mant r * 10 ^ length t + nat_of_dec t
    \<and> sawdigits r' = (sawdigits r \<or> t \<noteq> []) \<and> sawdot r' = sawdot r \<and> und r' = und r
    \<and> dp r' - nd r' = dp r - nd r - int (length t)"
  using assms
proof (induction t arbitrary: r)
  case Nil
  then show ?case by auto
next
  case (Cons c t)
  then have c: "is_digit c" "list_all is_digit t" by auto
  note n = digit_neq [OF c(1)]
  define r1 where "r1 = (if c = CHR ''0'' \<and> nd r = 0
    then r\<lparr>sawdigits := True, dp := dp r - 1\<rparr>
    else r\<lparr>sawdigits := True, nd := nd r + 1, mant := mant r * 10 + dval c\<rparr>)"
  have step: "rd_loop False r ((c # t) @ rest) = rd_loop False r1 (t @ rest)"
    using n c(1) by (simp add: r1_def)
  have i1: "rd_inv r1" using Cons.prems(2) by (auto simp: rd_inv_def r1_def)
  have m1: "mant r1 = mant r * 10 + dval c"
    using Cons.prems(2) by (auto simp: rd_inv_def r1_def dval_def byte_of_def)
  have o1: "sawdigits r1" "sawdot r1 = sawdot r" "und r1 = und r" "dp r1 - nd r1 = dp r - nd r - 1"
    by (auto simp: r1_def)
  from Cons.IH [OF c(2) i1] obtain r' where r':
    "rd_loop False r1 (t @ rest) = rd_loop False r' rest" "rd_inv r'"
    "mant r' = mant r1 * 10 ^ length t + nat_of_dec t" "sawdigits r'" "sawdot r' = sawdot r"
    "und r' = und r" "dp r' - nd r' = dp r - nd r - 1 - int (length t)"
    using o1 by auto
  have "nat_of_dec (c # t) = dval c * 10 ^ length t + nat_of_dec t"
    using nat_of_dec_append [of "[c]" t] by (simp add: nat_of_dec_def)
  with r' m1 have "mant r' = mant r * 10 ^ length (c # t) + nat_of_dec (c # t)"
    by (simp add: algebra_simps)
  with step r' show ?case by (intro exI [of _ r']) auto
qed

lemma rd_loop_stop: "c \<in> {CHR ''e''} \<Longrightarrow> rd_loop False r (c # s) = (r, c # s)"
  by (simp add: is_digit_def byte_of_def)

lemma rd_loop_shape:
  assumes "list_all is_digit A" "list_all is_digit B" "A \<noteq> []"
    and rest: "rest = [] \<or> (\<exists>s. rest = CHR ''e'' # s)"
  obtains r where "rd_loop False rd0 (A @ frac_str B @ rest) = (r, rest)"
    "mant r = nat_of_dec (A @ B)" "sawdigits r" "\<not> und r"
    "(if sawdot r then dp r else nd r) - nd r = - int (length B)"
proof -
  have stop: "rd_loop False r rest = (r, rest)" for r
    using rest rd_loop_stop by auto
  have "rd_inv rd0" by (simp add: rd_inv_def rd0_def)
  from rd_loop_digits [OF assms(1) this, of "frac_str B @ rest"] obtain r1 where r1:
    "rd_loop False rd0 (A @ frac_str B @ rest) = rd_loop False r1 (frac_str B @ rest)"
    "rd_inv r1" "mant r1 = nat_of_dec A" "sawdigits r1" "\<not> sawdot r1" "\<not> und r1"
    using assms(3) by (auto simp: rd0_def)
  show ?thesis
  proof (cases "B = []")
    case True
    with r1 stop show ?thesis by (intro that [of r1]) (auto simp: frac_str_def)
  next
    case False
    define r2 where "r2 = r1\<lparr>sawdot := True, dp := nd r1\<rparr>"
    have s: "rd_loop False r1 (frac_str B @ rest) = rd_loop False r2 (B @ rest)"
      using False r1(5) by (simp add: frac_str_def r2_def is_digit_def byte_of_def)
    have "rd_inv r2" using r1(2) by (simp add: rd_inv_def r2_def)
    from rd_loop_digits [OF assms(2) this, of rest] obtain r3 where r3:
      "rd_loop False r2 (B @ rest) = rd_loop False r3 rest"
      "mant r3 = nat_of_dec A * 10 ^ length B + nat_of_dec B" "sawdigits r3" "sawdot r3"
      "\<not> und r3" "dp r3 - nd r3 = - int (length B)"
      using r1 by (auto simp: r2_def)
    show ?thesis
      using r1(1) s r3 stop by (intro that [of r3]) (auto simp: nat_of_dec_append)
  qed
qed

lemma rd_exp_digits:
  "list_all is_digit es \<Longrightarrow> e * 10 ^ length es + nat_of_dec es < 10 ^ 5 \<Longrightarrow>
    rd_exp e u es = (e * 10 ^ length es + nat_of_dec es, u, [])"
proof (induction es arbitrary: e)
  case (Cons c es)
  then have c: "is_digit c" "list_all is_digit es" by auto
  have d: "nat_of_dec (c # es) = dval c * 10 ^ length es + nat_of_dec es"
    using nat_of_dec_append [of "[c]" es] by (simp add: nat_of_dec_def)
  have "e * 10 ^ length (c # es) < 10 ^ 5" using Cons.prems(2) by linarith
  moreover have "e * 10 \<le> e * 10 ^ length (c # es)"
    by (intro mult_le_mono) simp_all
  ultimately have "e * 10 < 10 ^ 5" by linarith
  then have "e < 10000" by simp
  moreover have "(e * 10 + dval c) * 10 ^ length es + nat_of_dec es < 10 ^ 5"
    using Cons.prems(2) by (simp add: d algebra_simps)
  ultimately show ?case
    using Cons.IH [OF c(2), of "e * 10 + dval c"] digit_neq [OF c(1)] c(1)
    by (simp add: d algebra_simps)
qed simp

lemma strip_sign_digit: "is_digit c \<Longrightarrow> strip_sign (c # s) = (False, c # s)"
  using digit_neq [of c] by (simp add: strip_sign_def)

lemma strip_sign_shape:
  assumes "A \<noteq> []" "list_all is_digit A"
  shows "strip_sign (sign_str neg @ A @ s) = (neg, A @ s)"
proof (cases neg)
  case True
  then show ?thesis by (simp add: sign_str_def strip_sign_def)
next
  case False
  with assms show ?thesis by (cases A) (simp_all add: sign_str_def strip_sign_digit)
qed

lemma shape_ok_Cons: "shape_ok A B E \<Longrightarrow> \<exists>a A'. A = a # A' \<and> is_digit a \<and> list_all is_digit A'"
  by (cases A) (simp_all add: shape_ok_def)

lemma not_hex_shape:
  assumes "shape_ok A B E"
  shows "(case A @ frac_str B @ exp_str E of a # b # _ # _ \<Rightarrow> a = CHR ''0'' \<and> lower b = CHR ''x''
    | _ \<Rightarrow> False) = False"
proof -
  from shape_ok_Cons [OF assms] obtain a A' where A: "A = a # A'" "list_all is_digit A'"
    by blast
  define t where "t = A' @ frac_str B @ exp_str E"
  have low: "lower CHR ''.'' = CHR ''.''" "lower CHR ''e'' = CHR ''e''"
    by (simp_all add: lower_def byte_of_def)
  have "t = [] \<or> is_digit (hd t) \<or> hd t = CHR ''.'' \<or> hd t = CHR ''e''"
    using A(2) by (cases A') (auto simp: t_def frac_str_def exp_str_def split: option.split)
  then have t: "t = [] \<or> lower (hd t) \<noteq> CHR ''x''"
    using digit_neq low by fastforce
  have "A @ frac_str B @ exp_str E = a # t" by (simp add: A t_def)
  with t show ?thesis by (cases t) (auto split: list.splits)
qed

lemma readFloat_shape:
  assumes ok: "shape_ok A B E"
  shows "readFloat (num_shape neg A B E)
    = Some (neg, False, nat_of_dec (A @ B), exp_val E - int (length B))"
proof -
  have d: "A \<noteq> []" "list_all is_digit A" "list_all is_digit B" using ok by (auto simp: shape_ok_def)
  have "exp_str E = [] \<or> (\<exists>s. exp_str E = CHR ''e'' # s)"
    by (auto simp: exp_str_def split: option.splits)
  from rd_loop_shape [OF d(2,3,1) this] obtain r where
    r: "rd_loop False rd0 (A @ frac_str B @ exp_str E) = (r, exp_str E)"
    "mant r = nat_of_dec (A @ B)" "sawdigits r" "\<not> und r"
    "(if sawdot r then dp r else nd r) - nd r = - int (length B)" .
  have ss: "strip_sign (num_shape neg A B E) = (neg, A @ frac_str B @ exp_str E)"
    using strip_sign_shape [OF d(1,2)] by (simp add: num_shape_def)
  show ?thesis
  proof (cases E)
    case None
    then show ?thesis
      unfolding readFloat_def ss prod.case not_hex_shape [OF ok] Let_def
      using r by (simp add: exp_str_def exp_val_def)
  next
    case (Some x)
    obtain en es where x: "x = (en, es)" by force
    with Some ok have es: "es \<noteq> []" "list_all is_digit es" "length es \<le> 5"
      by (auto simp: shape_ok_def)
    obtain c cs where c: "es = c # cs" using es(1) by (auto simp: neq_Nil_conv)
    have "nat_of_dec es < 10 ^ length es" using es(2) by (rule nat_of_dec_less)
    also have "\<dots> \<le> 10 ^ 5" using power_increasing [OF es(3), of "10 :: nat"] by simp
    finally have re: "rd_exp 0 False es = (nat_of_dec es, False, [])"
      using rd_exp_digits [OF es(2), of 0] by simp
    have se: "strip_sign ((if en then CHR ''-'' else CHR ''+'') # es) = (en, es)"
      by (simp add: strip_sign_def)
    have "lower CHR ''e'' = CHR ''e''" by (simp add: lower_def byte_of_def)
    then show ?thesis
      unfolding readFloat_def ss prod.case not_hex_shape [OF ok] Let_def
      using r Some x se re es c by (simp add: exp_str_def exp_val_def)
  qed
qed

lemma special_shape: "shape_ok A B E \<Longrightarrow> special (num_shape neg A B E) = None"
proof -
  assume ok: "shape_ok A B E"
  from shape_ok_Cons [OF ok] obtain a A' where A: "A = a # A'" "is_digit a" by blast
  note n = digit_neq [OF A(2)]
  define s where "s = A' @ frac_str B @ exp_str E"
  have sm: "lower CHR ''-'' = CHR ''-''" by (simp add: lower_def byte_of_def)
  have eq: "num_shape neg A B E = sign_str neg @ a # s" by (simp add: num_shape_def A s_def)
  have neq: "map lower (a # s) \<noteq> ''inf''" "map lower (a # s) \<noteq> ''infinity''"
    "map lower (sign_str neg @ a # s) \<noteq> ''nan''"
    using n sm by (cases neg; simp add: sign_str_def)+
  have ss: "strip_sign (map lower (sign_str neg @ a # s)) = (neg, map lower (a # s))"
    using n sm strip_sign_digit [OF A(2), of "map lower s"]
    by (cases neg) (simp_all add: sign_str_def strip_sign_def)
  show ?thesis
    unfolding eq special_def Let_def ss prod.case using neq by simp
qed

lemma ParseFloat_shape:
  assumes "shape_ok A B E" "round10 neg (nat_of_dec (A @ B)) (exp_val E - int (length B)) = Fin neg m e"
  shows "ParseFloat (num_shape neg A B E) = Some (Fin neg m e)"
  using assms by (simp add: ParseFloat_def special_shape readFloat_shape)

section \<open>Writing produces the shape\<close>

lemma dec_of_nat_hd: "0 < n \<Longrightarrow> hd (dec_of_nat n) \<noteq> CHR ''0''"
proof (induction n rule: dec_of_nat.induct)
  case (1 n)
  show ?case
  proof (cases "n < 10")
    case True
    with 1 have "byte_of (dig n) \<noteq> byte_of CHR ''0''" by (simp add: byte_of_dig) (simp add: byte_of_def)
    with True show ?thesis by (subst dec_of_nat.simps) auto
  next
    case False
    with 1 show ?thesis by (subst dec_of_nat.simps) simp
  qed
qed

lemma strip0_hd:
  assumes "s \<noteq> []" "hd s \<noteq> CHR ''0''"
  shows "strip0 s \<noteq> [] \<and> hd (strip0 s) = hd s"
proof -
  obtain n where n: "s = strip0 s @ replicate n (CHR ''0'')" using strip0_append by blast
  have "strip0 s \<noteq> []"
  proof
    assume e: "strip0 s = []"
    with n have "s = replicate n (CHR ''0'')" by simp
    with assms show False by (cases n) auto
  qed
  with n show ?thesis by (metis hd_append2)
qed

lemma strip0_digits: "list_all is_digit s \<Longrightarrow> list_all is_digit (strip0 s)"
  by (metis list_all_append strip0_append)

lemma round10_0 [simp]: "round10 s 0 k = Fin s 0 (- 1074)"
  by (simp add: round10_def scale10_def round_ratio_def)

lemma shortest_digits:
  assumes "f64_ok (Fin s m e)" "shortest m e = (ds, p)" "m \<noteq> 0"
  shows "list_all is_digit ds \<and> ds \<noteq> [] \<and> hd ds \<noteq> CHR ''0''"
proof -
  obtain c j where cj: "shortest_int m e = (c, j)" by force
  have "round10 s c j = Fin s m e" by (rule shortest_int_reads [OF assms(1) cj])
  then have "0 < c" using assms(3) by (intro Nat.gr0I) auto
  moreover have "ds = strip0 (dec_of_nat c)"
    using assms(2,3) cj by (simp add: shortest_def Let_def)
  ultimately show ?thesis
    using strip0_hd [of "dec_of_nat c"] dec_of_nat_hd [of c] strip0_digits dec_of_nat_digits
    by simp
qed

lemma round_ratio_range:
  assumes "round_ratio s p q = Fin s m e" "m \<noteq> 0" "0 < q"
  shows "2 powi (- 1080) \<le> real p / real q \<and> real p / real q < 2 powi 1024"
proof -
  have p: "0 < p" using assms by (intro Nat.gr0I) (auto simp: round_ratio_def)
  define E where "E = max (- 1074) (flog2 p q - 52)"
  obtain a b where ab: "scale2 p q (- E) = (a, b)" by force
  define r where "r = rhe a b"
  have R: "(if r = 2 ^ 53 then (if 971 < E + 1 then Inf s else Fin s (2 ^ 52) (E + 1))
     else (if 971 < E then Inf s else Fin s r E)) = Fin s m e"
    using assms(1) unfolding round_ratio_pos [OF gr_implies_not0 [OF p] E_def ab] r_def .
  then have "E \<le> 971" by (auto split: if_splits)
  then have "flog2 p q + 1 \<le> 1024" by (simp add: E_def)
  then have "(2::real) powi (flog2 p q + 1) \<le> 2 powi 1024"
    by (rule power_int_increasing) simp
  then have up: "real p / real q < 2 powi 1024" using flog2_bounds [OF p assms(3)] by linarith
  have "2 powi (- 1080) \<le> real p / real q"
  proof (rule ccontr)
    assume n: "\<not> ?thesis"
    then have "(2::real) powi (flog2 p q) < 2 powi (- 1080)"
      using flog2_bounds [OF p assms(3)] by linarith
    then have "flog2 p q < - 1080" by (simp only: powi2_less)
    then have E: "E = - 1074" by (simp add: E_def)
    have b: "real a / real b = real p / real q * 2 powi 1074" "0 < b"
      using scale2_ratio [OF assms(3), of p "- E"] ab E by (auto simp: ratio_def)
    have "real a / real b < 2 powi (- 1080) * 2 powi 1074"
      using n b(1) by (simp only: mult_strict_right_mono not_le zero_less_power_int zero_less_numeral)
    also have "\<dots> = (2::real) powi (- 6)" by (simp only: flip: powi2_add) simp
    also have "\<dots> < 1 / 2" by (simp add: power_int_def field_simps)
    finally have "2 * a < b" using b(2) by (simp add: field_simps)
    then have "r = 0" by (simp add: r_def rhe_def)
    with R assms(2) show False by (simp split: if_splits)
  qed
  with up show ?thesis by simp
qed

lemma nat_of_dec_ge: "list_all is_digit ds \<Longrightarrow> ds \<noteq> [] \<Longrightarrow> hd ds \<noteq> CHR ''0'' \<Longrightarrow>
  10 ^ (length ds - 1) \<le> nat_of_dec ds"
proof -
  assume d: "list_all is_digit ds" "ds \<noteq> []" "hd ds \<noteq> CHR ''0''"
  then obtain c cs where c: "ds = c # cs" "is_digit c" "c \<noteq> CHR ''0''" by (cases ds) auto
  have "dval c \<noteq> 0"
  proof
    assume "dval c = 0"
    with c(2) have "byte_of c = byte_of CHR ''0''"
      unfolding is_digit_def dval_def by (simp add: byte_of_def)
    with c(3) show False by (simp add: byte_of_inj)
  qed
  moreover have "nat_of_dec ds = dval c * 10 ^ length cs + nat_of_dec cs"
    using nat_of_dec_append [of "[c]" cs] c(1) by (simp add: nat_of_dec_def)
  ultimately show ?thesis using c(1) by (cases "dval c") auto
qed

lemma powi10_2:
  "2 powi k \<le> (10::real) powi k" if "0 \<le> k"
  using that by (auto simp: power_int_def intro: power_mono)

lemma shortest_exp_range:
  assumes "f64_ok (Fin s m e)" "shortest m e = (ds, p)" "m \<noteq> 0"
  shows "\<bar>p - 1\<bar> < 10000"
proof -
  note d = shortest_digits [OF assms]
  define c where "c = nat_of_dec ds"
  define k where "k = p - int (length ds)"
  have r: "round10 s c k = Fin s m e" using shortest_reads [OF assms(1,2)] by (simp add: c_def k_def)
  obtain P Q where PQ: "scale10 c 1 k = (P, Q)" by force
  have v: "real P / real Q = real c * 10 powi k" "0 < Q" using scale10_val [OF PQ] by auto
  have "round_ratio s P Q = Fin s m e" using r PQ by (simp add: round10_def)
  from round_ratio_range [OF this assms(3) v(2)]
  have rng: "2 powi (- 1080) \<le> real c * 10 powi k" "real c * 10 powi k < 2 powi 1024"
    by (simp_all only: v(1))
  have "10 ^ (length ds - 1) \<le> c" "c < 10 ^ length ds"
    using nat_of_dec_ge nat_of_dec_less d by (auto simp: c_def)
  then have c: "10 ^ (length ds - 1) \<le> real c" "real c < 10 ^ length ds"
    by (metis of_nat_le_iff of_nat_numeral of_nat_power)
      (metis \<open>c < 10 ^ length ds\<close> of_nat_less_iff of_nat_numeral of_nat_power)
  have l: "p - 1 = int (length ds - 1) + k" using d by (cases ds) (auto simp: k_def)
  have "(10::real) powi (p - 1) = 10 ^ (length ds - 1) * 10 powi k"
    by (simp add: l power_int_add)
  also have "\<dots> \<le> real c * 10 powi k" using c(1) by (intro mult_right_mono) auto
  finally have up: "(10::real) powi (p - 1) < 2 powi 1024" using rng(2) by linarith
  have "real c * 10 powi k < 10 ^ length ds * 10 powi k" using c(2) by (intro mult_strict_right_mono) auto
  also have "\<dots> = (10::real) powi p" by (simp add: k_def flip: power_int_of_nat power_int_add)
  finally have lo: "2 powi (- 1080) < (10::real) powi p" using rng(1) by linarith
  have "p - 1 < 1024"
  proof (rule ccontr)
    assume "\<not> ?thesis"
    then have "(10::real) powi 1024 \<le> 10 powi (p - 1)" by (intro power_int_increasing) auto
    with up powi10_2 [of 1024] show False by linarith
  qed
  moreover have "- 1080 < p"
  proof (rule ccontr)
    assume "\<not> ?thesis"
    then have "(10::real) powi p \<le> 10 powi (- 1080)" by (intro power_int_increasing) auto
    also have "\<dots> \<le> 2 powi (- 1080)"
      using powi10_2 [of 1080] by (simp add: power_int_minus le_imp_inverse_le del: power_int_numeral)
    finally show False using lo by linarith
  qed
  ultimately show ?thesis by simp
qed

lemma digits_at_take: "map (\<lambda>i. digit_at ds (int i)) [0..<n] = take n (ds @ replicate n (CHR ''0''))"
  by (rule nth_equalityI) (auto simp: digit_at_def nth_append)

lemma digits_at_drop:
  assumes "0 \<le> p" "p \<le> int (length ds)"
  shows "map (\<lambda>i. digit_at ds (p + int i)) [0..<nat (int (length ds) - p)] = drop (nat p) ds"
  using assms by (intro nth_equalityI) (auto simp: digit_at_def nat_add_distrib)

lemma digits_at_pad:
  assumes "p \<le> 0"
  shows "map (\<lambda>i. digit_at ds (p + int i)) [0..<nat (int (length ds) - p)]
    = replicate (nat (- p)) (CHR ''0'') @ ds"
proof (rule nth_equalityI)
  fix i assume "i < length (map (\<lambda>i. digit_at ds (p + int i)) [0..<nat (int (length ds) - p)])"
  then have i: "int i < int (length ds) - p" using assms by simp
  show "map (\<lambda>i. digit_at ds (p + int i)) [0..<nat (int (length ds) - p)] ! i
      = (replicate (nat (- p)) (CHR ''0'') @ ds) ! i"
  proof (cases "int i < - p")
    case True
    then have "i < nat (- p)" by linarith
    with i True show ?thesis by (simp add: digit_at_def nth_append)
  next
    case False
    then have "nat (p + int i) = i - nat (- p)" "\<not> i < nat (- p)" using assms by linarith+
    with i False show ?thesis by (simp add: digit_at_def nth_append nat_less_iff)
  qed
qed (use assms in simp)

lemma nat_of_dec_zeros_front: "nat_of_dec (replicate n (CHR ''0'') @ s) = nat_of_dec s"
proof -
  have "nat_of_dec (replicate n (CHR ''0'')) = 0"
    using nat_of_dec_zeros [of "[]" n] by simp
  then show ?thesis by (simp add: nat_of_dec_append)
qed

lemma zero_digit [simp]: "is_digit CHR ''0''"
  by (simp add: is_digit_def byte_of_def)

lemma nat_of_dec_0: "nat_of_dec ''0'' = 0"
  using nat_of_dec_zeros_front [of 1 "[]"] by simp

text \<open>A text of sign \<open>s\<close> without exponent that reads as the digits \<open>ds\<close> with the point behind the first \<open>p\<close>.\<close>

definition plain_shape :: "bool \<Rightarrow> string \<Rightarrow> int \<Rightarrow> string \<Rightarrow> bool" where
  "plain_shape s ds p t \<longleftrightarrow> (\<exists>A B. t = num_shape s A B None \<and> shape_ok A B None
    \<and> real (nat_of_dec (A @ B)) * 10 powi (- int (length B))
      = real (nat_of_dec ds) * 10 powi (p - int (length ds)))"

lemma fmtF_small:
  assumes ds: "list_all is_digit ds" and p: "p \<le> 0"
  shows "plain_shape s ds p (fmtF s ds p)"
proof -
  define B where "B = replicate (nat (- p)) (CHR ''0'') @ ds"
  have f: "max (int (length ds) - p) 0 = int (length ds) - p" using p by simp
  have e: "B = [] \<longleftrightarrow> \<not> 0 < int (length ds) - p" using p by (cases ds) (auto simp: B_def)
  have "fmtF s ds p = num_shape s ''0'' B None"
    using p e digits_at_pad [OF p, of ds]
    by (simp add: fmtF_def num_shape_def frac_str_def exp_str_def Let_def f B_def)
  moreover have "shape_ok ''0'' B None"
    using ds by (auto simp: shape_ok_def B_def list_all_iff)
  moreover have "nat_of_dec (''0'' @ B) = nat_of_dec ds"
    using nat_of_dec_zeros_front [of "Suc (nat (- p))" ds] by (simp add: B_def)
  moreover have "- int (length B) = p - int (length ds)" using p by (simp add: B_def)
  ultimately show ?thesis unfolding plain_shape_def by (intro exI [of _ "''0''"] exI [of _ B]) simp
qed

lemma fmtF_middle:
  assumes ds: "list_all is_digit ds" "ds \<noteq> [] \<Longrightarrow> hd ds \<noteq> CHR ''0''" and p: "0 < p" "p < int (length ds)"
  shows "plain_shape s ds p (fmtF s ds p)"
proof -
  define A B where "A = take (nat p) ds" and "B = drop (nat p) ds"
  have AB: "A @ B = ds" "A \<noteq> []" "B \<noteq> []" using p by (auto simp: A_def B_def)
  have "map (\<lambda>i. digit_at ds (int i)) [0..<nat p] = A"
    using p by (simp add: digits_at_take A_def)
  then have "fmtF s ds p = num_shape s A B None"
    using p AB digits_at_drop [of p ds]
    by (simp add: fmtF_def num_shape_def frac_str_def exp_str_def Let_def B_def)
  have "ds \<noteq> []" using AB by auto
  then have "list_all is_digit (A @ B)" "hd (A @ B) \<noteq> CHR ''0''"
    unfolding AB(1) using ds(1,2) by blast+
  with AB(2) have "shape_ok A B None" by (simp add: shape_ok_def)
  moreover note \<open>fmtF s ds p = num_shape s A B None\<close>
  moreover have "- int (length B) = p - int (length ds)" using p by (simp add: B_def)
  ultimately show ?thesis unfolding plain_shape_def by (intro exI [of _ A] exI [of _ B]) (simp add: AB)
qed

lemma fmtF_large:
  assumes ds: "list_all is_digit ds" "ds \<noteq> [] \<Longrightarrow> hd ds \<noteq> CHR ''0''" "ds = [] \<Longrightarrow> p = 0"
    and p: "0 < p" "int (length ds) \<le> p"
  shows "plain_shape s ds p (fmtF s ds p)"
proof -
  define n where "n = nat p - length ds"
  define A where "A = ds @ replicate n (CHR ''0'')"
  have n: "int n = p - int (length ds)" using p by (simp add: n_def)
  have d: "ds \<noteq> []" using p ds(3) by force
  have "map (\<lambda>i. digit_at ds (int i)) [0..<nat p] = A"
    using p by (simp add: digits_at_take A_def n_def take_replicate)
  then have "fmtF s ds p = num_shape s A [] None"
    using p by (simp add: fmtF_def num_shape_def frac_str_def exp_str_def Let_def)
  moreover have "shape_ok A [] None"
    using ds d by (auto simp: shape_ok_def A_def list_all_iff)
  moreover have "real (nat_of_dec A) = real (nat_of_dec ds) * 10 powi (p - int (length ds))"
    by (simp add: A_def nat_of_dec_zeros flip: n)
  ultimately show ?thesis unfolding plain_shape_def by (intro exI [of _ A] exI [of _ "[]"]) simp
qed

lemma fmtF_shape:
  assumes "list_all is_digit ds" "ds \<noteq> [] \<Longrightarrow> hd ds \<noteq> CHR ''0''" "ds = [] \<Longrightarrow> p = 0"
  shows "\<exists>A B. fmtF s ds p = num_shape s A B None \<and> shape_ok A B None
    \<and> real (nat_of_dec (A @ B)) * 10 powi (- int (length B))
      = real (nat_of_dec ds) * 10 powi (p - int (length ds))"
proof -
  consider "p \<le> 0" | "0 < p" "p < int (length ds)" | "0 < p" "int (length ds) \<le> p" by linarith
  then have "plain_shape s ds p (fmtF s ds p)"
  proof cases
    case 1
    then show ?thesis by (intro fmtF_small assms)
  next
    case 2
    then show ?thesis by (intro fmtF_middle assms)
  next
    case 3
    then show ?thesis by (intro fmtF_large assms)
  qed
  then show ?thesis by (simp add: plain_shape_def)
qed

lemma length_dec_of_nat: "0 < k \<Longrightarrow> n < 10 ^ k \<Longrightarrow> length (dec_of_nat n) \<le> k"
proof (induction n arbitrary: k rule: dec_of_nat.induct)
  case (1 n)
  show ?case
  proof (cases "n < 10")
    case True
    with 1 show ?thesis by (subst dec_of_nat.simps) simp
  next
    case False
    with "1.prems" obtain k' where k: "k = Suc k'" "0 < k'"
      by (metis gr0_conv_Suc linorder_neqE_nat not_less_zero one_less_power power_one_right
          not_gr0 power.simps(1) power_Suc mult.right_neutral)
    with "1.prems" have "n div 10 < 10 ^ k'" by (simp add: less_mult_imp_div_less)
    with 1 False k show ?thesis by (subst dec_of_nat.simps) simp
  qed
qed

lemma dec_of_nat_two: "10 \<le> n \<Longrightarrow> 2 \<le> length (dec_of_nat n)"
proof -
  assume "10 \<le> n"
  then have "dec_of_nat n = dec_of_nat (n div 10) @ [dig (n mod 10)]"
    by (subst dec_of_nat.simps) simp
  moreover have "1 \<le> length (dec_of_nat (n div 10))"
    using dec_of_nat_not_Nil [of "n div 10"] by (cases "dec_of_nat (n div 10)") auto
  ultimately show ?thesis by simp
qed

lemma clean_exp_small: "clean_exp (u @ [CHR ''e'', g, CHR ''0'', d]) =
    (if g = CHR ''-'' \<or> g = CHR ''+'' then u @ [CHR ''e'', g, d] else u @ [CHR ''e'', g, CHR ''0'', d])"
  by (simp add: clean_exp_def Let_def nth_append)

lemma clean_exp_keep:
  assumes "list_all is_digit es" "2 \<le> length es" "hd es \<noteq> CHR ''0''" "g \<noteq> CHR ''e''"
  shows "clean_exp (u @ CHR ''e'' # g # es) = u @ CHR ''e'' # g # es"
proof -
  define t where "t = u @ CHR ''e'' # g # es"
  have ne: "x \<in> set es \<Longrightarrow> x \<noteq> CHR ''e''" for x
    using assms(1) digit_neq [of x] by (auto simp: list_all_iff)
  consider "length es = 2" | "length es = 3" | "4 \<le> length es" using assms(2) by linarith
  then have "\<not> (t ! (length t - 4) = CHR ''e'' \<and> t ! (length t - 2) = CHR ''0'')"
  proof cases
    case 1
    then have "t ! (length t - 2) = hd es" by (cases es) (auto simp: t_def nth_append)
    with assms(3) show ?thesis by simp
  next
    case 2
    then have "t ! (length t - 4) = g" by (simp add: t_def nth_append)
    with assms(4) show ?thesis by simp
  next
    case 3
    then have "t = (u @ [CHR ''e'', g]) @ es"
      "length t - 4 = length (u @ [CHR ''e'', g]) + (length es - 4)"
      by (simp_all add: t_def)
    then have "t ! (length t - 4) = es ! (length es - 4)"
      by (metis nth_append_length_plus)
    moreover have "es ! (length es - 4) \<in> set es" using 3 by (intro nth_mem) simp
    ultimately show ?thesis using ne by metis
  qed
  then show ?thesis by (auto simp: clean_exp_def Let_def simp flip: t_def)
qed

lemma fmt_exp_clean:
  assumes "\<bar>x\<bar> < 10000"
  obtains es where "clean_exp (u @ CHR ''e'' # fmt_exp x) = u @ exp_str (Some (x < 0, es))"
    "es \<noteq> []" "list_all is_digit es" "length es \<le> 5" "nat_of_dec es = nat \<bar>x\<bar>"
proof (cases "nat \<bar>x\<bar> < 10")
  case True
  then have d: "dec_of_nat (nat \<bar>x\<bar>) = [dig (nat \<bar>x\<bar>)]" by (subst dec_of_nat.simps) simp
  show ?thesis
  proof (rule that [of "[dig (nat \<bar>x\<bar>)]"])
    show "clean_exp (u @ CHR ''e'' # fmt_exp x) = u @ exp_str (Some (x < 0, [dig (nat \<bar>x\<bar>)]))"
      by (simp add: fmt_exp_def d exp_str_def clean_exp_small)
  qed (use True in \<open>simp_all add: nat_of_dec_def\<close>)
next
  case False
  define es where "es = dec_of_nat (nat \<bar>x\<bar>)"
  have l: "2 \<le> length es" using False dec_of_nat_two by (simp add: es_def)
  have h: "hd es \<noteq> CHR ''0''" using False dec_of_nat_hd [of "nat \<bar>x\<bar>"] by (simp add: es_def)
  have l5: "length es \<le> 5" using assms length_dec_of_nat [of 5 "nat \<bar>x\<bar>"] by (simp add: es_def)
  have dg: "list_all is_digit es" by (simp add: es_def dec_of_nat_digits)
  have "fmt_exp x = (if x < 0 then CHR ''-'' else CHR ''+'') # es"
    using l by (simp add: fmt_exp_def flip: es_def)
  then have "clean_exp (u @ CHR ''e'' # fmt_exp x) = u @ exp_str (Some (x < 0, es))"
    using clean_exp_keep [OF dg l h] by (simp add: exp_str_def)
  then show ?thesis using l l5 dg by (intro that [of es]) (auto simp: es_def)
qed

lemma fmtE_shape:
  assumes ds: "list_all is_digit ds" "ds \<noteq> []" "hd ds \<noteq> CHR ''0''" and p: "\<bar>p - 1\<bar> < 10000"
  shows "\<exists>A B E. clean_exp (fmtE s ds p) = num_shape s A B E \<and> shape_ok A B E \<and> A @ B = ds
    \<and> exp_val E - int (length B) = p - int (length ds)"
proof -
  obtain d B where d: "ds = d # B" using ds(2) by (cases ds) auto
  define u where "u = sign_str s @ d # frac_str B"
  have "fmtE s ds p = u @ CHR ''e'' # fmt_exp (p - 1)"
    by (simp add: fmtE_def d u_def frac_str_def)
  moreover obtain es where es: "clean_exp (u @ CHR ''e'' # fmt_exp (p - 1)) = u @ exp_str (Some (p - 1 < 0, es))"
    "es \<noteq> []" "list_all is_digit es" "length es \<le> 5" "nat_of_dec es = nat \<bar>p - 1\<bar>"
    using fmt_exp_clean [OF p] .
  ultimately have "clean_exp (fmtE s ds p) = num_shape s [d] B (Some (p - 1 < 0, es))"
    by (simp add: num_shape_def u_def)
  moreover have "shape_ok [d] B (Some (p - 1 < 0, es))"
    using ds d es by (simp add: shape_ok_def)
  moreover have "exp_val (Some (p - 1 < 0, es)) = p - 1" by (simp add: exp_val_def es(5))
  ultimately show ?thesis
    by (intro exI [of _ "[d]"] exI [of _ B] exI [of _ "Some (p - 1 < 0, es)"]) (simp add: d)
qed

lemma fmt_json_shape:
  assumes ok: "f64_ok x" and t: "fmt_json x = Some t"
  obtains s m e A B E where "x = Fin s m e" "t = num_shape s A B E" "shape_ok A B E"
    "round10 s (nat_of_dec (A @ B)) (exp_val E - int (length B)) = x"
proof -
  obtain s m e where x: "x = Fin s m e" using t by (cases x) (auto simp: fmt_json_def)
  obtain ds p where dp: "shortest m e = (ds, p)" by force
  have rd: "round10 s (nat_of_dec ds) (p - int (length ds)) = x"
    using shortest_reads [OF ok [unfolded x] dp] x by simp
  have dz: "list_all is_digit ds" "ds \<noteq> [] \<Longrightarrow> hd ds \<noteq> CHR ''0''" "ds = [] \<Longrightarrow> p = 0"
    using shortest_digits [OF ok [unfolded x] dp] dp
    by (cases "m = 0"; auto simp: shortest_def)+
  show ?thesis
  proof (cases "m \<noteq> 0 \<and> (f64_below_1em6 m e \<or> f64_from_1e21 m e)")
    case True
    then have m: "m \<noteq> 0" by simp
    have "t = clean_exp (fmtE s ds p)" using t True by (simp add: fmt_json_def x dp)
    moreover note d = shortest_digits [OF ok [unfolded x] dp m]
    ultimately show ?thesis
      using fmtE_shape [of ds p s] shortest_exp_range [OF ok [unfolded x] dp m] rd that [of s m e] x
      by metis
  next
    case False
    then have "t = fmtF s ds p" using t by (auto simp: fmt_json_def x dp)
    moreover obtain A B where AB: "fmtF s ds p = num_shape s A B None" "shape_ok A B None"
      "real (nat_of_dec (A @ B)) * 10 powi (- int (length B))
        = real (nat_of_dec ds) * 10 powi (p - int (length ds))"
      using fmtF_shape [OF dz] by blast
    moreover have "round10 s (nat_of_dec (A @ B)) (exp_val None - int (length B)) = x"
      using round10_cong [OF AB(3), of s] rd by (simp add: exp_val_def)
    ultimately show ?thesis using that [of s m e A B None] x by metis
  qed
qed

theorem ParseFloat_fmt_json: "f64_ok x \<Longrightarrow> fmt_json x = Some t \<Longrightarrow> ParseFloat t = Some x"
  by (erule (1) fmt_json_shape) (simp add: ParseFloat_shape)

end
