(* ===== verification/Utf8.thy ===== *)
theory Utf8
  imports Gostd
begin

text \<open>
  Go's \<^verbatim>\<open>unicode/utf8\<close>, as \<^verbatim>\<open>[]rune(s)\<close>, \<^verbatim>\<open>string(runes)\<close>, \<^verbatim>\<open>strings.ToUpper\<close>,
  \<^verbatim>\<open>strings.EqualFold\<close> and \<^verbatim>\<open>encoding/json\<close> use it.  A rune is its code point, a \<open>nat\<close>.
  A byte that starts no well-formed sequence decodes as U+FFFD of width 1.
  Go's tables of upper case letters and of case folding orbits beyond ASCII are data of the
  standard library; they are the parameter \<open>unicode\<close>.
\<close>

definition RuneError :: nat where
  "RuneError = 65533"

definition cont :: "char \<Rightarrow> bool" where
  "cont c \<longleftrightarrow> 128 \<le> byte_of c \<and> byte_of c \<le> 191"

definition cbits :: "char \<Rightarrow> nat" where
  "cbits c = byte_of c - 128"

text \<open>\<^verbatim>\<open>utf8.DecodeRune\<close>: the rune and its width; the second byte of a three or four byte
  sequence has a range of its own (no overlong forms, no surrogates, at most U+10FFFF).\<close>

definition second_ok :: "nat \<Rightarrow> char \<Rightarrow> bool" where
  "second_ok b c \<longleftrightarrow>
     (if b = 224 then 160 \<le> byte_of c \<and> byte_of c \<le> 191
      else if b = 237 then 128 \<le> byte_of c \<and> byte_of c \<le> 159
      else if b = 240 then 144 \<le> byte_of c \<and> byte_of c \<le> 191
      else if b = 244 then 128 \<le> byte_of c \<and> byte_of c \<le> 143
      else cont c)"

definition DecodeRune :: "bytes \<Rightarrow> nat \<times> nat" where
  "DecodeRune s = (case s of
     [] \<Rightarrow> (RuneError, 0)
   | c0 # s1 \<Rightarrow> let b = byte_of c0 in
       if b < 128 then (b, 1)
       else if 194 \<le> b \<and> b \<le> 223 then
         (case s1 of c1 # _ \<Rightarrow>
            if cont c1 then ((b - 192) * 64 + cbits c1, 2) else (RuneError, 1)
          | _ \<Rightarrow> (RuneError, 1))
       else if 224 \<le> b \<and> b \<le> 239 then
         (case s1 of c1 # c2 # _ \<Rightarrow>
            if second_ok b c1 \<and> cont c2
            then (((b - 224) * 64 + cbits c1) * 64 + cbits c2, 3) else (RuneError, 1)
          | _ \<Rightarrow> (RuneError, 1))
       else if 240 \<le> b \<and> b \<le> 244 then
         (case s1 of c1 # c2 # c3 # _ \<Rightarrow>
            if second_ok b c1 \<and> cont c2 \<and> cont c3
            then ((((b - 240) * 64 + cbits c1) * 64 + cbits c2) * 64 + cbits c3, 4)
            else (RuneError, 1)
          | _ \<Rightarrow> (RuneError, 1))
       else (RuneError, 1))"

definition is_surrogate :: "nat \<Rightarrow> bool" where
  "is_surrogate r \<longleftrightarrow> 55296 \<le> r \<and> r < 57344"

definition scalar :: "nat \<Rightarrow> bool" where
  "scalar r \<longleftrightarrow> r \<le> 1114111 \<and> \<not> is_surrogate r"

definition enc3 :: "nat \<Rightarrow> bytes" where
  "enc3 r = [char_of (224 + r div 4096), char_of (128 + r div 64 mod 64),
             char_of (128 + r mod 64)]"

text \<open>\<^verbatim>\<open>utf8.AppendRune\<close>.\<close>

definition EncodeRune :: "nat \<Rightarrow> bytes" where
  "EncodeRune r =
     (if r < 128 then [char_of r]
      else if r < 2048 then [char_of (192 + r div 64), char_of (128 + r mod 64)]
      else if \<not> scalar r then enc3 RuneError
      else if r < 65536 then enc3 r
      else [char_of (240 + r div 262144), char_of (128 + r div 4096 mod 64),
            char_of (128 + r div 64 mod 64), char_of (128 + r mod 64)])"

text \<open>\<^verbatim>\<open>[]rune(s)\<close> and \<^verbatim>\<open>string(rs)\<close>.\<close>

fun runes :: "bytes \<Rightarrow> nat list" where
  "runes [] = []"
| "runes (c # s) = (case DecodeRune (c # s) of (r, n) \<Rightarrow> r # runes (drop (n - 1) s))"

definition string_of_runes :: "nat list \<Rightarrow> bytes" where
  "string_of_runes rs = concat (map EncodeRune rs)"

text \<open>\<^verbatim>\<open>utf8.ValidString\<close>.\<close>

fun valid_utf8 :: "bytes \<Rightarrow> bool" where
  "valid_utf8 [] = True"
| "valid_utf8 (c # s) = (case DecodeRune (c # s) of
     (r, n) \<Rightarrow> \<not> (r = RuneError \<and> n = 1) \<and> valid_utf8 (drop (n - 1) s))"

lemma byte_of_char_of [simp]: "n < 256 \<Longrightarrow> byte_of (char_of n) = n"
  by (simp add: byte_of_def of_char_of)

lemma char_of_byte_of [simp]: "char_of (byte_of c) = c"
  by (simp add: byte_of_def)

lemma DecodeRune_ascii: "byte_of c < 128 \<Longrightarrow> DecodeRune (c # s) = (byte_of c, 1)"
  by (simp add: DecodeRune_def)

lemma DecodeRune_width_pos: "0 < snd (DecodeRune (c # s))"
  by (simp add: DecodeRune_def Let_def split: list.splits)

lemma DecodeRune_width_le: "snd (DecodeRune (c # s)) \<le> Suc (length s)"
  by (auto simp add: DecodeRune_def Let_def split: list.splits)

text \<open>Decoding what \<open>EncodeRune\<close> wrote, whatever follows it.\<close>

lemma decode_encode_2:
  assumes "128 \<le> r" "r < 2048"
  shows "DecodeRune ([char_of (192 + r div 64), char_of (128 + r mod 64)] @ s) = (r, 2)"
proof -
  have d: "2 \<le> r div 64" "r div 64 < 32" "r mod 64 < 64"
    using assms by (auto simp: div_le_dividend less_mult_imp_div_less)
  then show ?thesis by (simp add: DecodeRune_def cont_def cbits_def)
qed

lemma decode_encode_3:
  assumes "2048 \<le> r" "r < 65536" "\<not> is_surrogate r"
  shows "DecodeRune (enc3 r @ s) = (r, 3)"
proof -
  define a b c where "a = r div 4096" and "b = r div 64 mod 64" and "c = r mod 64"
  have l: "a < 16" "b < 64" "c < 64" using assms by (auto simp: a_def b_def c_def)
  have "r div 64 div 64 = a" by (simp add: a_def flip: div_mult2_eq)
  then have r: "(a * 64 + b) * 64 + c = r"
    by (metis a_def b_def c_def div_mult_mod_eq)
  have s: "second_ok (224 + a) (char_of (128 + b))"
    using assms r l by (auto simp: second_ok_def is_surrogate_def cont_def)
  show ?thesis
    using l s r
    by (simp add: enc3_def DecodeRune_def cont_def cbits_def flip: a_def b_def c_def)
qed

lemma decode_encode_4:
  assumes "65536 \<le> r" "r \<le> 1114111"
  shows "DecodeRune ([char_of (240 + r div 262144), char_of (128 + r div 4096 mod 64),
            char_of (128 + r div 64 mod 64), char_of (128 + r mod 64)] @ s) = (r, 4)"
proof -
  define a b c d where "a = r div 262144" and "b = r div 4096 mod 64"
    and "c = r div 64 mod 64" and "d = r mod 64"
  have l: "a < 5" "b < 64" "c < 64" "d < 64"
    using assms by (auto simp: a_def b_def c_def d_def)
  have "r div 4096 div 64 = a" "r div 64 div 64 = r div 4096"
    by (simp_all add: a_def flip: div_mult2_eq)
  then have r: "((a * 64 + b) * 64 + c) * 64 + d = r"
    by (metis b_def c_def d_def div_mult_mod_eq)
  have s: "second_ok (240 + a) (char_of (128 + b))"
    using assms r l by (auto simp: second_ok_def cont_def)
  show ?thesis
    using l s r
    by (simp add: DecodeRune_def cont_def cbits_def flip: a_def b_def c_def d_def)
qed

lemma DecodeRune_EncodeRune:
  "scalar r \<Longrightarrow> DecodeRune (EncodeRune r @ s) = (r, length (EncodeRune r))"
  using decode_encode_2 [of r s] decode_encode_3 [of r s] decode_encode_4 [of r s]
  by (auto simp: EncodeRune_def scalar_def DecodeRune_ascii enc3_def)

lemma length_EncodeRune: "0 < length (EncodeRune r) \<and> length (EncodeRune r) \<le> 4"
  by (auto simp: EncodeRune_def enc3_def)

lemma EncodeRune_Cons: "\<exists>c s. EncodeRune r = c # s"
  using length_EncodeRune [of r] by (cases "EncodeRune r") auto

lemma runes_EncodeRune: "scalar r \<Longrightarrow> runes (EncodeRune r @ s) = r # runes s"
  using DecodeRune_EncodeRune [of r s] EncodeRune_Cons [of r]
  by (auto simp: )

lemma runes_string_of_runes: "\<forall>r \<in> set rs. scalar r \<Longrightarrow> runes (string_of_runes rs) = rs"
  by (induction rs) (simp_all add: string_of_runes_def runes_EncodeRune)

lemma valid_EncodeRune: "scalar r \<Longrightarrow> valid_utf8 (EncodeRune r @ s) \<longleftrightarrow> valid_utf8 s"
  using DecodeRune_EncodeRune [of r s] EncodeRune_Cons [of r]
  by (auto simp: EncodeRune_def RuneError_def enc3_def split: if_splits)

lemma valid_string_of_runes: "\<forall>r \<in> set rs. scalar r \<Longrightarrow> valid_utf8 (string_of_runes rs)"
  by (induction rs) (simp_all add: string_of_runes_def valid_EncodeRune)

text \<open>Encoding what was decoded from well-formed bytes.\<close>

lemma cont_cbits: "cont c \<Longrightarrow> cbits c < 64 \<and> byte_of c = 128 + cbits c"
  unfolding cont_def cbits_def by linarith

lemma second_ok_cont: "second_ok b c \<Longrightarrow> cont c"
  by (auto simp: second_ok_def cont_def split: if_splits)

lemma char_of_cbits: "cont c \<Longrightarrow> char_of (128 + cbits c) = c"
  by (metis char_of_byte_of cont_cbits)

lemma div_mod_64: "y < 64 \<Longrightarrow> (x * 64 + y) div 64 = x \<and> (x * 64 + y) mod 64 = (y :: nat)"
  by simp

lemma encode_decode_2:
  assumes "byte_of c0 = 192 + a" "2 \<le> a" "a < 32" "cont c1"
  shows "EncodeRune (a * 64 + cbits c1) = [c0, c1]" "scalar (a * 64 + cbits c1)"
proof -
  have b: "cbits c1 < 64" using assms cont_cbits by blast
  then have "(a * 64 + cbits c1) div 64 = a" "(a * 64 + cbits c1) mod 64 = cbits c1" by auto
  with assms b show "EncodeRune (a * 64 + cbits c1) = [c0, c1]"
    by (simp add: EncodeRune_def char_of_cbits flip: assms(1))
  show "scalar (a * 64 + cbits c1)"
    using assms b by (auto simp: scalar_def is_surrogate_def)
qed

lemma encode_decode_3:
  assumes "byte_of c0 = 224 + a" "a < 16" "second_ok (224 + a) c1" "cont c2"
  shows "EncodeRune ((a * 64 + cbits c1) * 64 + cbits c2) = [c0, c1, c2]"
    "scalar ((a * 64 + cbits c1) * 64 + cbits c2)"
proof -
  have c1: "cont c1" using assms(3) by (rule second_ok_cont)
  have b: "cbits c1 < 64" "cbits c2 < 64" "byte_of c1 = 128 + cbits c1"
    using assms c1 cont_cbits by blast+
  define r where "r = (a * 64 + cbits c1) * 64 + cbits c2"
  have d: "r div 64 = a * 64 + cbits c1" "r mod 64 = cbits c2"
    using div_mod_64 [OF b(2)] by (simp_all only: r_def)
  have d2: "r div 4096 = a" using b by (auto simp: r_def)
  have sc: "scalar r" "2048 \<le> r" "r < 65536"
    using assms(2,3) b by (auto simp: r_def scalar_def is_surrogate_def second_ok_def
        split: if_splits)
  then show "scalar ((a * 64 + cbits c1) * 64 + cbits c2)" by (simp add: r_def)
  have "EncodeRune r = enc3 r" using sc by (simp add: EncodeRune_def)
  also have "\<dots> = [c0, c1, c2]"
    using assms c1 b by (simp add: enc3_def d d2 char_of_cbits flip: assms(1))
  finally show "EncodeRune ((a * 64 + cbits c1) * 64 + cbits c2) = [c0, c1, c2]"
    by (simp add: r_def)
qed

lemma encode_decode_4:
  assumes "byte_of c0 = 240 + a" "a < 5" "second_ok (240 + a) c1" "cont c2" "cont c3"
  shows "EncodeRune (((a * 64 + cbits c1) * 64 + cbits c2) * 64 + cbits c3) = [c0, c1, c2, c3]"
    "scalar (((a * 64 + cbits c1) * 64 + cbits c2) * 64 + cbits c3)"
proof -
  have c1: "cont c1" using assms(3) by (rule second_ok_cont)
  have b: "cbits c1 < 64" "cbits c2 < 64" "cbits c3 < 64" "byte_of c1 = 128 + cbits c1"
    using assms c1 cont_cbits by blast+
  define r where "r = ((a * 64 + cbits c1) * 64 + cbits c2) * 64 + cbits c3"
  have d: "r div 64 = (a * 64 + cbits c1) * 64 + cbits c2" "r mod 64 = cbits c3"
    using div_mod_64 [OF b(3)] by (simp_all only: r_def)
  have d2: "r div 4096 = a * 64 + cbits c1" "r div 262144 = a"
    using b by (auto simp: r_def)
  have d3: "r div 64 mod 64 = cbits c2" "r div 4096 mod 64 = cbits c1"
    using div_mod_64 [OF b(2)] div_mod_64 [OF b(1)] by (simp_all only: d d2)
  have sc: "scalar r" "65536 \<le> r"
    using assms(2,3) b by (auto simp: r_def scalar_def is_surrogate_def second_ok_def
        split: if_splits)
  then show "scalar (((a * 64 + cbits c1) * 64 + cbits c2) * 64 + cbits c3)"
    by (simp add: r_def)
  have "EncodeRune r = [c0, c1, c2, c3]"
    using sc assms c1 b by (simp add: EncodeRune_def d(2) d2(2) d3 char_of_cbits flip: assms(1))
  then show "EncodeRune (((a * 64 + cbits c1) * 64 + cbits c2) * 64 + cbits c3) = [c0, c1, c2, c3]"
    by (simp add: r_def)
qed

lemma DecodeRune_cases:
  assumes "DecodeRune (c # s) = (r, n)"
  obtains (bad) "r = RuneError" "n = 1"
  | (ok) t where "c # s = EncodeRune r @ t" "n = length (EncodeRune r)" "scalar r"
proof (cases "r = RuneError \<and> n = 1")
  case True
  with bad show ?thesis by blast
next
  case False
  define b where "b = byte_of c"
  consider "b < 128" | "194 \<le> b" "b \<le> 223" | "224 \<le> b" "b \<le> 239" | "240 \<le> b" "b \<le> 244"
    using assms False by (force simp: DecodeRune_def b_def Let_def split: if_splits)
  then show ?thesis
  proof cases
    case 1
    then have "c # s = EncodeRune r @ s" "n = length (EncodeRune r)" "scalar r"
      using assms by (auto simp: DecodeRune_ascii b_def EncodeRune_def scalar_def is_surrogate_def)
    then show ?thesis by (rule ok)
  next
    case 2
    then obtain c1 t where s: "s = c1 # t" "cont c1" "r = (b - 192) * 64 + cbits c1" "n = 2"
      using assms False
      by (auto simp: DecodeRune_def Let_def simp flip: b_def split: list.splits if_splits)
    have "byte_of c = 192 + (b - 192)" "2 \<le> b - 192" "b - 192 < 32" using 2 by (auto simp: b_def)
    from encode_decode_2 [OF this s(2)] show ?thesis using ok [of t] s by simp
  next
    case 3
    then obtain c1 c2 t where s: "s = c1 # c2 # t" "second_ok b c1" "cont c2" "n = 3"
      "r = ((b - 224) * 64 + cbits c1) * 64 + cbits c2"
      using assms False
      by (auto simp: DecodeRune_def Let_def simp flip: b_def split: list.splits if_splits)
    have "byte_of c = 224 + (b - 224)" "b - 224 < 16" "second_ok (224 + (b - 224)) c1"
      using 3 s by (auto simp: b_def)
    from encode_decode_3 [OF this s(3)] show ?thesis using ok [of t] s by simp
  next
    case 4
    then obtain c1 c2 c3 t where s: "s = c1 # c2 # c3 # t" "second_ok b c1" "cont c2" "cont c3"
      "n = 4" "r = (((b - 240) * 64 + cbits c1) * 64 + cbits c2) * 64 + cbits c3"
      using assms False
      by (auto simp: DecodeRune_def Let_def simp flip: b_def split: list.splits if_splits)
    have "byte_of c = 240 + (b - 240)" "b - 240 < 5" "second_ok (240 + (b - 240)) c1"
      using 4 s by (auto simp: b_def)
    from encode_decode_4 [OF this s(3,4)] show ?thesis using ok [of t] s by simp
  qed
qed

lemma string_of_runes_runes: "valid_utf8 s \<Longrightarrow> string_of_runes (runes s) = s"
proof (induction s rule: valid_utf8.induct)
  case (2 c s)
  obtain r n where d: "DecodeRune (c # s) = (r, n)" by force
  from d show ?case
  proof (cases rule: DecodeRune_cases)
    case bad
    with "2.prems" d show ?thesis by simp
  next
    case (ok t)
    obtain c' u where e: "EncodeRune r = c' # u" using EncodeRune_Cons by blast
    with ok have t: "drop (n - 1) s = t" by simp
    have "valid_utf8 t" using "2.prems" ok valid_EncodeRune by metis
    then have "string_of_runes (runes t) = t" using "2.IH" d t by simp
    moreover have "runes (c # s) = r # runes t" using ok runes_EncodeRune by simp
    ultimately show ?thesis using ok by (simp add: string_of_runes_def)
  qed
qed (simp add: string_of_runes_def)

lemma runes_scalar: "r \<in> set (runes s) \<Longrightarrow> scalar r"
proof (induction s rule: runes.induct)
  case (2 c s)
  obtain r' n where d: "DecodeRune (c # s) = (r', n)" by force
  then have "scalar r'"
    by (cases rule: DecodeRune_cases) (auto simp: RuneError_def scalar_def is_surrogate_def)
  with 2 d show ?case by auto
qed simp

section \<open>Letter case\<close>

record unicode =
  upper_rune :: "nat \<Rightarrow> nat"
  same_fold :: "nat \<Rightarrow> nat \<Rightarrow> bool"

definition ascii_upper :: "nat \<Rightarrow> nat" where
  "ascii_upper r = (if 97 \<le> r \<and> r \<le> 122 then r - 32 else r)"

text \<open>\<^verbatim>\<open>strings.ToUpper\<close>: byte by byte when the string is ASCII, rune by rune otherwise.\<close>

definition ToUpper :: "unicode \<Rightarrow> string \<Rightarrow> string" where
  "ToUpper u s =
     (if list_all (\<lambda>c. byte_of c < 128) s
      then map (\<lambda>c. char_of (ascii_upper (byte_of c))) s
      else string_of_runes (map (\<lambda>r. if r < 128 then ascii_upper r else upper_rune u r) (runes s)))"

text \<open>\<^verbatim>\<open>strings.EqualFold\<close>: rune by rune; two different runes match if they are an ASCII letter
  in its two cases or, beyond ASCII, lie in one folding orbit.\<close>

definition fold_rune :: "unicode \<Rightarrow> nat \<Rightarrow> nat \<Rightarrow> bool" where
  "fold_rune u a b =
     (a = b \<or>
      (let sr = min a b; tr = max a b in
        if tr < 128 then 65 \<le> sr \<and> sr \<le> 90 \<and> tr = sr + 32 else same_fold u sr tr))"

definition EqualFold :: "unicode \<Rightarrow> string \<Rightarrow> string \<Rightarrow> bool" where
  "EqualFold u s t = list_all2 (fold_rune u) (runes s) (runes t)"

lemma EqualFold_refl: "EqualFold u s s"
  by (simp add: EqualFold_def list_all2_same fold_rune_def)

lemma fold_rune_sym: "fold_rune u a b = fold_rune u b a"
  by (auto simp: fold_rune_def min.commute max.commute)

lemma EqualFold_sym: "EqualFold u s t = EqualFold u t s"
  unfolding EqualFold_def
  by (metis (mono_tags, lifting) fold_rune_sym list_all2_conv_all_nth)

end
