(* ===== verification/Json.thy ===== *)
theory Json
  imports Float_Text Utf8
begin

text \<open>
  The part of \<^verbatim>\<open>encoding/json\<close> that Fleare relies on: \<^verbatim>\<open>json.Valid\<close>, \<^verbatim>\<open>json.Unmarshal\<close> into
  \<^verbatim>\<open>any\<close>, \<^verbatim>\<open>map[string]any\<close>, \<^verbatim>\<open>[]any\<close> and \<^verbatim>\<open>map[string]string\<close>, and \<^verbatim>\<open>json.Marshal\<close> of such
  values.  \<open>jtext\<close> is a document as written (numbers as text, members in order, duplicates
  kept); \<open>json\<close> is the Go value, with objects as canonical maps.  A recursive descent parser
  with fuel reads exactly the documents the scanner accepts; the fuel it is given is always
  enough (\<open>fuel_enough\<close> in the theory \<open>Json_Grammar\<close>).
\<close>

datatype jtext =
    TNull | TBool bool | TNum string | TStr string
  | TArr "jtext list" | TObj "(string \<times> jtext) list"

text \<open>\<open>JNilMap\<close> is a nil \<^verbatim>\<open>map[string]any\<close> held in an interface: not equal to nil, but written
  as \<^verbatim>\<open>null\<close>.\<close>

datatype json =
    JNull | JBool bool | JNum f64 | JStr string
  | JArr "json list" | JObj "(string \<times> json) list" | JNilMap

section \<open>Scanning\<close>

definition is_ws :: "char \<Rightarrow> bool" where
  "is_ws c \<longleftrightarrow> byte_of c = 32 \<or> byte_of c = 9 \<or> byte_of c = 10 \<or> byte_of c = 13"

definition skip_ws :: "bytes \<Rightarrow> bytes" where
  "skip_ws s = dropWhile is_ws s"

definition hex_val :: "char \<Rightarrow> nat option" where
  "hex_val c = (if is_digit c then Some (dval c)
     else if is_hexletter c then Some (byte_of (lower c) - 87) else None)"

definition hex4 :: "char \<Rightarrow> char \<Rightarrow> char \<Rightarrow> char \<Rightarrow> nat option" where
  "hex4 a b c d = (case (hex_val a, hex_val b, hex_val c, hex_val d) of
     (Some w, Some x, Some y, Some z) \<Rightarrow> Some (((w * 16 + x) * 16 + y) * 16 + z)
   | _ \<Rightarrow> None)"

text \<open>The low surrogate of a following \<^verbatim>\<open>\uXXXX\<close>, if the bytes start with one.\<close>

definition low_surrogate :: "bytes \<Rightarrow> nat option" where
  "low_surrogate s = (case s of
     x # y # a # b # c # d # _ \<Rightarrow>
       if x = char_of (92 :: nat) \<and> y = CHR ''u'' then
         (case hex4 a b c d of
            Some r \<Rightarrow> if 56320 \<le> r \<and> r < 57344 then Some r else None
          | None \<Rightarrow> None)
       else None
   | _ \<Rightarrow> None)"

definition quote_ch :: char where "quote_ch = char_of (34 :: nat)"
definition bslash :: char where "bslash = char_of (92 :: nat)"

definition esc_val :: "char \<Rightarrow> char option" where
  "esc_val e =
     (if e = quote_ch \<or> e = bslash \<or> e = CHR ''/'' then Some e
      else if e = CHR ''b'' then Some (char_of (8 :: nat))
      else if e = CHR ''f'' then Some (char_of (12 :: nat))
      else if e = CHR ''n'' then Some (char_of (10 :: nat))
      else if e = CHR ''r'' then Some (char_of (13 :: nat))
      else if e = CHR ''t'' then Some (char_of (9 :: nat))
      else None)"

text \<open>A string after its opening quote: the decoded bytes and what follows the closing quote.\<close>

function p_str :: "bytes \<Rightarrow> (bytes \<times> bytes) option" where
  "p_str [] = None"
| "p_str (c # s) =
     (if c = quote_ch then Some ([], s)
      else if c = bslash then
        (case s of
           [] \<Rightarrow> None
         | e # t \<Rightarrow>
             if e = CHR ''u'' then
               (case t of
                  x1 # x2 # x3 # x4 # r \<Rightarrow>
                    (case hex4 x1 x2 x3 x4 of
                       None \<Rightarrow> None
                     | Some rr \<Rightarrow>
                         if is_surrogate rr then
                           (case (if rr < 56320 then low_surrogate r else None) of
                              Some lo \<Rightarrow> map_option
                                (apfst ((@) (EncodeRune ((rr - 55296) * 1024 + (lo - 56320) + 65536))))
                                (p_str (drop 6 r))
                            | None \<Rightarrow> map_option (apfst ((@) (EncodeRune RuneError))) (p_str r))
                         else map_option (apfst ((@) (EncodeRune rr))) (p_str r))
                | _ \<Rightarrow> None)
             else (case esc_val e of
                     None \<Rightarrow> None
                   | Some d \<Rightarrow> map_option (apfst ((#) d)) (p_str t)))
      else if byte_of c < 32 then None
      else if byte_of c < 128 then map_option (apfst ((#) c)) (p_str s)
      else (case DecodeRune (c # s) of
              (r, n) \<Rightarrow> map_option (apfst ((@) (EncodeRune r))) (p_str (drop (n - 1) s))))"
  by pat_completeness auto
termination
  by (relation "measure length") (auto simp: less_Suc_eq_le)

declare p_str.simps(2) [simp del]

text \<open>A number: optional minus, integer part without a leading zero, fraction, exponent.\<close>

definition scan_digits :: "bytes \<Rightarrow> (bytes \<times> bytes) option" where
  "scan_digits s = (case takeWhile is_digit s of
     [] \<Rightarrow> None | ds \<Rightarrow> Some (ds, dropWhile is_digit s))"

definition scan_int :: "bytes \<Rightarrow> (bytes \<times> bytes) option" where
  "scan_int s = (case s of
     c # t \<Rightarrow> if c = CHR ''0'' then Some ([c], t) else scan_digits s
   | [] \<Rightarrow> None)"

definition scan_frac :: "bytes \<Rightarrow> (bytes \<times> bytes) option" where
  "scan_frac s = (case s of
     c # t \<Rightarrow> if c = CHR ''.'' then map_option (apfst ((#) c)) (scan_digits t) else Some ([], s)
   | [] \<Rightarrow> Some ([], s))"

definition scan_exp :: "bytes \<Rightarrow> (bytes \<times> bytes) option" where
  "scan_exp s = (case s of
     c # t \<Rightarrow>
       if c = CHR ''e'' \<or> c = CHR ''E'' then
         (case t of
            g # u \<Rightarrow> if g = CHR ''+'' \<or> g = CHR ''-''
              then map_option (apfst (\<lambda>x. c # g # x)) (scan_digits u)
              else map_option (apfst ((#) c)) (scan_digits t)
          | [] \<Rightarrow> None)
       else Some ([], s)
   | [] \<Rightarrow> Some ([], s))"

definition scan_num :: "bytes \<Rightarrow> (bytes \<times> bytes) option" where
  "scan_num s =
     (let (sg, s1) = (case s of c # t \<Rightarrow> if c = CHR ''-'' then ([c], t) else ([], s) | [] \<Rightarrow> ([], s))
      in case scan_int s1 of
           None \<Rightarrow> None
         | Some (a, s2) \<Rightarrow> (case scan_frac s2 of
             None \<Rightarrow> None
           | Some (b, s3) \<Rightarrow> (case scan_exp s3 of
               None \<Rightarrow> None
             | Some (e, s4) \<Rightarrow> Some (sg @ a @ b @ e, s4))))"

definition p_lit :: "string \<Rightarrow> jtext \<Rightarrow> bytes \<Rightarrow> (jtext \<times> bytes) option" where
  "p_lit w v s = (if HasPrefix s w then Some (v, drop (length w) s) else None)"

fun p_value :: "nat \<Rightarrow> nat \<Rightarrow> bytes \<Rightarrow> (jtext \<times> bytes) option"
  and p_elems :: "nat \<Rightarrow> nat \<Rightarrow> bytes \<Rightarrow> (jtext list \<times> bytes) option"
  and p_members :: "nat \<Rightarrow> nat \<Rightarrow> bytes \<Rightarrow> ((string \<times> jtext) list \<times> bytes) option" where
  "p_value 0 d s = None"
| "p_value (Suc n) d s =
     (case skip_ws s of
        [] \<Rightarrow> None
      | c # t \<Rightarrow>
          if c = CHR ''{'' then
            (if d = 0 then None
             else case skip_ws t of
                    [] \<Rightarrow> None
                  | c1 # r \<Rightarrow> if c1 = CHR ''}'' then Some (TObj [], r)
                      else map_option (apfst TObj) (p_members n (d - 1) (c1 # r)))
          else if c = CHR ''['' then
            (if d = 0 then None
             else case skip_ws t of
                    [] \<Rightarrow> None
                  | c1 # r \<Rightarrow> if c1 = CHR '']'' then Some (TArr [], r)
                      else map_option (apfst TArr) (p_elems n (d - 1) (c1 # r)))
          else if c = quote_ch then map_option (apfst TStr) (p_str t)
          else if c = CHR ''t'' then p_lit ''true'' (TBool True) (c # t)
          else if c = CHR ''f'' then p_lit ''false'' (TBool False) (c # t)
          else if c = CHR ''n'' then p_lit ''null'' TNull (c # t)
          else map_option (apfst TNum) (scan_num (c # t)))"
| "p_elems 0 d s = None"
| "p_elems (Suc n) d s =
     (case p_value n d s of
        None \<Rightarrow> None
      | Some (v, r) \<Rightarrow> (case skip_ws r of
          [] \<Rightarrow> None
        | c # r1 \<Rightarrow>
            if c = CHR '','' then map_option (apfst ((#) v)) (p_elems n d r1)
            else if c = CHR '']'' then Some ([v], r1) else None))"
| "p_members 0 d s = None"
| "p_members (Suc n) d s =
     (case skip_ws s of
        [] \<Rightarrow> None
      | q # t \<Rightarrow>
          if q \<noteq> quote_ch then None
          else (case p_str t of
                  None \<Rightarrow> None
                | Some (k, r) \<Rightarrow> (case skip_ws r of
                    [] \<Rightarrow> None
                  | c # r1 \<Rightarrow>
                      if c \<noteq> CHR '':'' then None
                      else (case p_value n d r1 of
                              None \<Rightarrow> None
                            | Some (v, r2) \<Rightarrow> (case skip_ws r2 of
                                [] \<Rightarrow> None
                              | c2 # r3 \<Rightarrow>
                                  if c2 = CHR '','' then map_option (apfst ((#) (k, v))) (p_members n d r3)
                                  else if c2 = CHR ''}'' then Some ([(k, v)], r3)
                                  else None)))))"

definition maxNestingDepth :: nat where
  "maxNestingDepth = 10000"

definition parse :: "bytes \<Rightarrow> jtext option" where
  "parse s = (case p_value (2 * length s + 2) maxNestingDepth s of
     None \<Rightarrow> None
   | Some (v, r) \<Rightarrow> if skip_ws r = [] then Some v else None)"

text \<open>\<^verbatim>\<open>json.Valid\<close>.\<close>

definition Valid :: "bytes \<Rightarrow> bool" where
  "Valid s \<longleftrightarrow> parse s \<noteq> None"

section \<open>Unmarshal\<close>

text \<open>The value of a document; \<open>None\<close> if a number is outside the range of a float64.\<close>

fun to_any :: "jtext \<Rightarrow> json option"
  and to_list :: "jtext list \<Rightarrow> json list option"
  and to_members :: "(string \<times> jtext) list \<Rightarrow> (string \<times> json) list option" where
  "to_any TNull = Some JNull"
| "to_any (TBool b) = Some (JBool b)"
| "to_any (TNum s) = map_option JNum (ParseFloat s)"
| "to_any (TStr s) = Some (JStr s)"
| "to_any (TArr ts) = map_option JArr (to_list ts)"
| "to_any (TObj ps) = map_option (JObj \<circ> gm_of_list) (to_members ps)"
| "to_list [] = Some []"
| "to_list (t # ts) = (case to_any t of None \<Rightarrow> None | Some v \<Rightarrow> map_option ((#) v) (to_list ts))"
| "to_members [] = Some []"
| "to_members ((k, t) # ps) =
     (case to_any t of None \<Rightarrow> None | Some v \<Rightarrow> map_option ((#) (k, v)) (to_members ps))"

definition unm_any :: "bytes \<Rightarrow> json option" where
  "unm_any s = (case parse s of None \<Rightarrow> None | Some t \<Rightarrow> to_any t)"

text \<open>Into a \<^verbatim>\<open>map[string]any\<close>: the outer \<open>None\<close> is an error, \<open>Some None\<close> a nil map.\<close>

definition unm_map :: "bytes \<Rightarrow> json gomap option option" where
  "unm_map s = (case unm_any s of
     Some (JObj m) \<Rightarrow> Some (Some m) | Some JNull \<Rightarrow> Some None | _ \<Rightarrow> None)"

text \<open>Into a \<^verbatim>\<open>[]any\<close>; \<open>Some None\<close> is the nil slice.\<close>

definition unm_arr :: "bytes \<Rightarrow> json list option option" where
  "unm_arr s = (case unm_any s of
     Some (JArr vs) \<Rightarrow> Some (Some vs) | Some JNull \<Rightarrow> Some None | _ \<Rightarrow> None)"

text \<open>Into a \<^verbatim>\<open>map[string]string\<close>: a null member gives the empty string, anything else that is
  no string is an error.\<close>

fun str_members :: "(string \<times> jtext) list \<Rightarrow> (string \<times> string) list option" where
  "str_members [] = Some []"
| "str_members ((k, t) # ps) =
     (case t of
        TStr v \<Rightarrow> map_option ((#) (k, v)) (str_members ps)
      | TNull \<Rightarrow> map_option ((#) (k, [])) (str_members ps)
      | _ \<Rightarrow> None)"

definition unm_strmap :: "bytes \<Rightarrow> string gomap option option" where
  "unm_strmap s = (case parse s of
     Some (TObj ps) \<Rightarrow> map_option (Some \<circ> gm_of_list) (str_members ps)
   | Some TNull \<Rightarrow> Some None
   | _ \<Rightarrow> None)"

section \<open>Marshal\<close>

definition hex_digit :: "nat \<Rightarrow> char" where
  "hex_digit d = (if d < 10 then char_of (48 + d) else char_of (87 + d))"

text \<open>One ASCII byte of a string, HTML escaping on.\<close>

definition enc_ascii :: "char \<Rightarrow> bytes" where
  "enc_ascii c =
     (let b = byte_of c in
      if c = quote_ch \<or> c = bslash then [bslash, c]
      else if b = 8 then [bslash, CHR ''b'']
      else if b = 12 then [bslash, CHR ''f'']
      else if b = 10 then [bslash, CHR ''n'']
      else if b = 13 then [bslash, CHR ''r'']
      else if b = 9 then [bslash, CHR ''t'']
      else if b < 32 \<or> c = CHR ''<'' \<or> c = CHR ''>'' \<or> c = CHR ''&''
      then [bslash, CHR ''u'', CHR ''0'', CHR ''0'', hex_digit (b div 16), hex_digit (b mod 16)]
      else [c])"

fun enc_chars :: "bytes \<Rightarrow> bytes" where
  "enc_chars [] = []"
| "enc_chars (c # s) =
     (if byte_of c < 128 then enc_ascii c @ enc_chars s
      else case DecodeRune (c # s) of
        (r, n) \<Rightarrow>
          (if r = RuneError \<and> n = 1 then bslash # ''ufffd''
           else if r = 8232 \<or> r = 8233 then bslash # ''u202'' @ [hex_digit (r mod 16)]
           else take n (c # s)) @ enc_chars (drop (n - 1) s))"

definition enc_str :: "string \<Rightarrow> bytes" where
  "enc_str s = quote_ch # enc_chars s @ [quote_ch]"

text \<open>\<^verbatim>\<open>json.Marshal\<close>; \<open>None\<close> when a number is an infinity or NaN.\<close>

fun enc :: "json \<Rightarrow> bytes option"
  and enc_elems :: "json list \<Rightarrow> bytes option"
  and enc_members :: "(string \<times> json) list \<Rightarrow> bytes option" where
  "enc JNull = Some ''null''"
| "enc JNilMap = Some ''null''"
| "enc (JBool b) = Some (if b then ''true'' else ''false'')"
| "enc (JNum x) = fmt_json x"
| "enc (JStr s) = Some (enc_str s)"
| "enc (JArr vs) = map_option (\<lambda>t. CHR ''['' # t @ '']'') (enc_elems vs)"
| "enc (JObj ps) = map_option (\<lambda>t. CHR ''{'' # t @ ''}'') (enc_members ps)"
| "enc_elems [] = Some []"
| "enc_elems (v # vs) =
     (case enc v of None \<Rightarrow> None | Some t \<Rightarrow>
       if vs = [] then Some t else map_option (\<lambda>u. t @ CHR '','' # u) (enc_elems vs))"
| "enc_members [] = Some []"
| "enc_members ((k, v) # ps) =
     (case enc v of None \<Rightarrow> None | Some t \<Rightarrow>
       if ps = [] then Some (enc_str k @ CHR '':'' # t)
       else map_option (\<lambda>u. enc_str k @ CHR '':'' # t @ CHR '','' # u) (enc_members ps))"

text \<open>A nil slice and a nil map are written as \<^verbatim>\<open>null\<close>.\<close>

definition enc_slice :: "json list option \<Rightarrow> bytes option" where
  "enc_slice a = (case a of None \<Rightarrow> Some ''null'' | Some vs \<Rightarrow> enc (JArr vs))"

definition enc_map :: "json gomap option \<Rightarrow> bytes option" where
  "enc_map m = (case m of None \<Rightarrow> Some ''null'' | Some ps \<Rightarrow> enc (JObj ps))"

end
