(* ===== verification/Utils.thy ===== *)
theory Utils
  imports Json
begin

text \<open>
  \<^verbatim>\<open>src/internal/utils/\<close>: the helpers of the command handlers.  A Go \<^verbatim>\<open>any\<close> that holds decoded JSON
  is a \<open>json\<close>; a type assertion to \<^verbatim>\<open>map[string]any\<close> is \<open>as_map\<close>, which tells a nil map from an
  empty one.
\<close>

datatype ('e, 'a) outcome = Ret 'a | Err 'e | Panic

definition as_map :: "json \<Rightarrow> json gomap option option" where
  "as_map v = (case v of JObj m \<Rightarrow> Some (Some m) | JNilMap \<Rightarrow> Some None | _ \<Rightarrow> None)"

text \<open>Reading a map that may be nil, and putting one back into an \<^verbatim>\<open>any\<close>.\<close>

definition map_lookup :: "json gomap option \<Rightarrow> string \<Rightarrow> json option" where
  "map_lookup m k = (case m of None \<Rightarrow> None | Some ps \<Rightarrow> gm_get ps k)"

definition any_of_map :: "json gomap option \<Rightarrow> json" where
  "any_of_map m = (case m of None \<Rightarrow> JNilMap | Some ps \<Rightarrow> JObj ps)"

lemma as_map_any_of_map [simp]: "as_map (any_of_map m) = Some m"
  by (cases m) (simp_all add: any_of_map_def as_map_def)

section \<open>Arguments\<close>

text \<open>\<^verbatim>\<open>val * 60\<close> and so on wrap around.\<close>

definition ParseDurationToSeconds :: "string \<Rightarrow> int option" where
  "ParseDurationToSeconds durationStr =
     (if durationStr = [] then None
      else case ParseInt64 durationStr of
        Some val \<Rightarrow> Some val
      | None \<Rightarrow>
          if HasSuffix durationStr ''s'' then
            (case ParseInt64 (take (length durationStr - 1) durationStr) of
               None \<Rightarrow> None | Some val \<Rightarrow> Some val)
          else if HasSuffix durationStr ''m'' then
            (case ParseInt64 (take (length durationStr - 1) durationStr) of
               None \<Rightarrow> None | Some val \<Rightarrow> Some (i64 (val * 60)))
          else if HasSuffix durationStr ''h'' then
            (case ParseInt64 (take (length durationStr - 1) durationStr) of
               None \<Rightarrow> None | Some val \<Rightarrow> Some (i64 (val * 3600)))
          else if HasSuffix durationStr ''d'' then
            (case ParseInt64 (take (length durationStr - 1) durationStr) of
               None \<Rightarrow> None | Some val \<Rightarrow> Some (i64 (val * 86400)))
          else None)"

definition IsValidKey :: "string \<Rightarrow> bool" where
  "IsValidKey s = (if length s < 1 \<or> length s > 200 then False else True)"

definition IsValidString :: "string \<Rightarrow> bool" where
  "IsValidString s = (if length s = 0 then False else True)"

definition ConvertToNumber :: "string \<Rightarrow> f64 option" where
  "ConvertToNumber value =
     (case ParseInt64 value of
        Some i \<Rightarrow> Some (f64_of_int i)
      | None \<Rightarrow> (case ParseFloat value of Some f \<Rightarrow> Some f | None \<Rightarrow> None))"

text \<open>\<^verbatim>\<open>ParseInt\<close> is \<^verbatim>\<open>strconv.Atoi\<close> on a 64-bit machine.\<close>

definition ParseInt :: "string \<Rightarrow> int option" where
  "ParseInt v = (case ParseInt64 v of None \<Rightarrow> None | Some num \<Rightarrow> Some num)"

record query =
  ArrayFilter :: string
  Field :: string
  QValue :: string

definition ParseQuery :: "string \<Rightarrow> query option" where
  "ParseQuery queryString =
     (if queryString = [] then None
      else case SplitN2 (CHR ''$'') queryString of
        [a, b] \<Rightarrow>
          (case SplitN2 (CHR '':'') b of
             [f, v] \<Rightarrow> Some \<lparr>ArrayFilter = a, Field = f, QValue = v\<rparr>
           | _ \<Rightarrow> None)
      | p # _ \<Rightarrow> Some \<lparr>ArrayFilter = p, Field = [], QValue = []\<rparr>
      | [] \<Rightarrow> None)"

text \<open>The loops of \<^verbatim>\<open>ParsePath\<close> over the operators, in their order.\<close>

definition path_ops :: "string list" where
  "path_ops = [''>='', ''<='', ''>'', ''<'', '':'', ''!'', ''~'']"

fun path_index :: "string list \<Rightarrow> string \<Rightarrow> string \<times> string \<times> string" where
  "path_index [] path = ([], [], [])"
| "path_index (oper # os) path =
     (case Index path oper of
        Some idx \<Rightarrow> (take idx path, oper, drop (idx + length oper) path)
      | None \<Rightarrow> path_index os path)"

fun path_prefix :: "string list \<Rightarrow> string \<Rightarrow> string \<times> string \<times> string" where
  "path_prefix [] path = ([], [], [])"
| "path_prefix (oper # os) path =
     (if HasPrefix path oper then ([], oper, TrimPrefix path oper) else path_prefix os path)"

definition ParsePath :: "string \<Rightarrow> string \<times> string \<times> string" where
  "ParsePath path =
     (if HasPrefix path ''$'' then path_index path_ops (drop 1 path)
      else path_prefix path_ops path)"

section \<open>JSON values\<close>

text \<open>\<^verbatim>\<open>fmt.Sprintf("%v", v)\<close> of a decoded value.\<close>

fun fmt_any :: "json \<Rightarrow> string"
  and fmt_anys :: "json list \<Rightarrow> string list"
  and fmt_members :: "(string \<times> json) list \<Rightarrow> string list" where
  "fmt_any JNull = ''<nil>''"
| "fmt_any JNilMap = ''map[]''"
| "fmt_any (JBool b) = (if b then ''true'' else ''false'')"
| "fmt_any (JNum x) = fmt_v x"
| "fmt_any (JStr s) = s"
| "fmt_any (JArr vs) = ''['' @ Join (fmt_anys vs) '' '' @ '']''"
| "fmt_any (JObj ps) = ''map['' @ Join (fmt_members ps) '' '' @ '']''"
| "fmt_anys [] = []"
| "fmt_anys (v # vs) = fmt_any v # fmt_anys vs"
| "fmt_members [] = []"
| "fmt_members ((k, v) # ps) = (k @ '':'' @ fmt_any v) # fmt_members ps"

text \<open>\<^verbatim>\<open>ObjectToByte\<close>: nil gives the empty string, and so, as a nil slice, does a marshal error.\<close>

definition ObjectToByte :: "json \<Rightarrow> bytes" where
  "ObjectToByte value =
     (if value = JNull then []
      else case enc value of None \<Rightarrow> [] | Some d \<Rightarrow> d)"

text \<open>The same of a \<^verbatim>\<open>[]any\<close>, a \<^verbatim>\<open>map[string]any\<close>, a \<^verbatim>\<open>float64\<close> and an \<^verbatim>\<open>int\<close>; an interface that holds
  a nil slice or map is not nil.\<close>

definition SliceToByte :: "json list option \<Rightarrow> bytes" where
  "SliceToByte a = (case enc_slice a of None \<Rightarrow> [] | Some d \<Rightarrow> d)"

definition MapToByte :: "json gomap option \<Rightarrow> bytes" where
  "MapToByte m = ObjectToByte (any_of_map m)"

definition FloatToByte :: "f64 \<Rightarrow> bytes" where
  "FloatToByte v = ObjectToByte (JNum v)"

definition EnsureUnmarshal :: "string \<Rightarrow> json" where
  "EnsureUnmarshal value = (case unm_any value of None \<Rightarrow> JStr value | Some u \<Rightarrow> u)"

definition MergeMaps :: "json \<Rightarrow> json \<Rightarrow> json gomap option" where
  "MergeMaps i1 i2 =
     (case (as_map i1, as_map i2) of
        (Some m1, Some m2) \<Rightarrow>
          let merged = fold (\<lambda>(k, v). gm_upd k v) (case m1 of Some ps \<Rightarrow> ps | None \<Rightarrow> []) []
          in Some (fold (\<lambda>(k, v). gm_upd k v) (case m2 of Some ps \<Rightarrow> ps | None \<Rightarrow> []) merged)
      | _ \<Rightarrow> None)"

text \<open>\<^verbatim>\<open>UpdateMap\<close> writes into its first map, which panics if that is nil and there is anything to
  write.\<close>

definition UpdateMap :: "json \<Rightarrow> json \<Rightarrow> (unit, json gomap option) outcome" where
  "UpdateMap mainItem updateItem =
     (case (as_map mainItem, as_map updateItem) of
        (Some m1, Some m2) \<Rightarrow>
          let ups = (case m2 of Some ps \<Rightarrow> ps | None \<Rightarrow> []) in
          (case m1 of
             None \<Rightarrow> if ups = [] then Ret None else Panic
           | Some ps \<Rightarrow> Ret (Some (fold (\<lambda>(k, v). gm_upd k v) ups ps)))
      | _ \<Rightarrow> Err ())"

definition lookup_fmt :: "json gomap option \<Rightarrow> string \<Rightarrow> string" where
  "lookup_fmt v key = fmt_any (case map_lookup v key of Some x \<Rightarrow> x | None \<Rightarrow> JNull)"

fun FilterList :: "json list \<Rightarrow> string \<Rightarrow> string \<Rightarrow> json list" where
  "FilterList [] key value = []"
| "FilterList (item # items) key value =
     (case as_map item of
        None \<Rightarrow> FilterList items key value
      | Some v \<Rightarrow>
          if lookup_fmt v key = value then item # FilterList items key value
          else FilterList items key value)"

text \<open>An element that is no map panics; \<^verbatim>\<open>UpdateMap\<close>'s error leaves a nil map in its place.\<close>

fun FilterUpdate :: "json list \<Rightarrow> string \<Rightarrow> string \<Rightarrow> json \<Rightarrow> json list option" where
  "FilterUpdate [] key value data = Some []"
| "FilterUpdate (item # items) key value data =
     (case as_map item of
        None \<Rightarrow> None
      | Some v \<Rightarrow>
          if lookup_fmt v key = value then
            (case UpdateMap item data of
               Panic \<Rightarrow> None
             | Err _ \<Rightarrow> map_option ((#) JNilMap) (FilterUpdate items key value data)
             | Ret up \<Rightarrow> map_option ((#) (any_of_map up)) (FilterUpdate items key value data))
          else map_option ((#) item) (FilterUpdate items key value data))"

section \<open>Addresses and time\<close>

definition AddSecondsToUnixEpoch :: "int \<Rightarrow> int \<Rightarrow> int" where
  "AddSecondsToUnixEpoch now second = i64 (now + second)"

datatype sockaddr = SockaddrInet4 "nat list" int | SockaddrInet6 "nat list" int | OtherAddr

text \<open>\<^verbatim>\<open>%x\<close> of a byte slice: two digits a byte.\<close>

definition hex_byte :: "nat \<Rightarrow> string" where
  "hex_byte b = [hex_digit (b div 16), hex_digit (b mod 16)]"

fun hex_pairs :: "nat list \<Rightarrow> string list" where
  "hex_pairs (a # b # bs) = (hex_byte a @ hex_byte b) # hex_pairs bs"
| "hex_pairs _ = []"

definition FormatClientAddr :: "sockaddr \<Rightarrow> string" where
  "FormatClientAddr addr =
     (case addr of
        SockaddrInet4 a port \<Rightarrow> Join (map dec_of_nat a) ''.'' @ '':'' @ Itoa port
      | SockaddrInet6 a port \<Rightarrow> ''['' @ Join (hex_pairs a) '':'' @ '']:'' @ Itoa port
      | OtherAddr \<Rightarrow> ''unknown'')"

section \<open>Properties of the helpers\<close>

lemma MergeMaps_lookup:
  assumes "MergeMaps (JObj a) (JObj b) = Some m" and "gm_ok a" and "gm_ok b"
  shows "gm_ok m" and "gm_get m = gm_get a ++ gm_get b"
proof -
  have r: "map_of (rev x) = map_of x" if "gm_ok x" for x :: "json gomap"
    using that by (metis distinct_rev gm_ok_distinct map_of_inject_set rev_map set_rev)
  have m: "m = fold (\<lambda>(k, v). gm_upd k v) b (fold (\<lambda>(k, v). gm_upd k v) a [])"
    using assms(1) by (simp add: MergeMaps_def as_map_def)
  then show "gm_ok m" by (simp add: gm_ok_fold)
  show "gm_get m = gm_get a ++ gm_get b"
    unfolding m map_of_gm_fold using r assms(2,3) by simp
qed

lemma ParseDuration_in: "ParseDurationToSeconds d = Some n \<Longrightarrow> in_i64 n"
  by (auto simp: ParseDurationToSeconds_def dest: ParseInt64_in split: if_splits option.splits)

lemma ParseDuration_plain: "in_i64 n \<Longrightarrow> ParseDurationToSeconds (Itoa n) = Some n"
proof -
  assume "in_i64 n"
  moreover have "Itoa n \<noteq> []" by (simp add: Itoa_def)
  ultimately show ?thesis by (simp add: ParseDurationToSeconds_def ParseInt64_Itoa)
qed

end
