(* ===== verification/Auth.thy ===== *)
theory Auth
  imports Utils
begin

text \<open>
  \<^verbatim>\<open>src/internal/auth/\<close>: the users and the sessions of connected clients, and
  \<^verbatim>\<open>RequestAuth\<close> of \<^verbatim>\<open>src/server/service_manager.go\<close>, which opens a session.  Clock readings are
  arguments; \<open>time_text\<close> is how \<^verbatim>\<open>encoding/json\<close> writes a \<^verbatim>\<open>time.Time\<close>.
\<close>

section \<open>Users\<close>

record user =
  Username :: string
  Password :: string
  Role :: string

type_synonym users = "user gomap"

definition Basic :: string where "Basic = ''Basic''"
definition Read :: string where "Read = ''Read''"
definition Write :: string where "Write = ''Write''"
definition Admin :: string where "Admin = ''Admin''"

datatype auth_error = BadCredentials | UserNotFound string | AuthDisabled | MissingCredentials

definition NewUsersStore :: users where
  "NewUsersStore = []"

definition Validate :: "users \<Rightarrow> string \<Rightarrow> string \<Rightarrow> auth_error + user" where
  "Validate us username password =
     (case gm_get us username of
        None \<Rightarrow> Inl BadCredentials
      | Some user \<Rightarrow> if Password user \<noteq> password then Inl BadCredentials else Inr user)"

definition ValidateDefault :: "users \<Rightarrow> string \<Rightarrow> auth_error + user" where
  "ValidateDefault us username =
     (case gm_get us username of None \<Rightarrow> Inl (UserNotFound username) | Some user \<Rightarrow> Inr user)"

definition GetUser :: "users \<Rightarrow> string \<Rightarrow> auth_error + user" where
  "GetUser us username =
     (case gm_get us username of None \<Rightarrow> Inl (UserNotFound username) | Some user \<Rightarrow> Inr user)"

definition AddUser :: "string \<Rightarrow> string \<Rightarrow> string \<Rightarrow> users \<Rightarrow> users \<times> user" where
  "AddUser username password role us =
     (let user = \<lparr>Username = username, Password = password, Role = role\<rparr>
      in (gm_upd username user us, user))"

definition DeleteUser :: "string \<Rightarrow> users \<Rightarrow> users \<times> auth_error option" where
  "DeleteUser username us =
     (case gm_get us username of
        None \<Rightarrow> (us, Some (UserNotFound username))
      | Some _ \<Rightarrow> (gm_del username us, None))"

section \<open>Sessions\<close>

definition SessionStatusPending :: int where "SessionStatusPending = 0"
definition SessionStatusActive :: int where "SessionStatusActive = 1"
definition SessionStatusExpired :: int where "SessionStatusExpired = 2"

record session =
  SessionID :: string
  User :: user
  Status :: int
  CreatedAt :: int
  LastAccessedAt :: int

type_synonym sessions = "session gomap"

definition NewSessionsStore :: sessions where
  "NewSessionsStore = []"

definition NewSession :: "int \<Rightarrow> user \<Rightarrow> string \<Rightarrow> session" where
  "NewSession t user clientID =
     \<lparr>SessionID = clientID, User = user, Status = SessionStatusPending,
      CreatedAt = t, LastAccessedAt = t\<rparr>"

definition Activate :: "int \<Rightarrow> session \<Rightarrow> sessions \<Rightarrow> sessions" where
  "Activate t s ss =
     (let s' = s\<lparr>Status := SessionStatusActive, CreatedAt := t, LastAccessedAt := t\<rparr>
      in gm_upd (SessionID s') s' ss)"

definition expireInternal :: "string \<Rightarrow> sessions \<Rightarrow> sessions" where
  "expireInternal sessionID ss = gm_del sessionID ss"

definition ExpireSession :: "session \<Rightarrow> sessions \<Rightarrow> sessions" where
  "ExpireSession s ss = expireInternal (SessionID s) ss"

definition ExpireById :: "string \<Rightarrow> sessions \<Rightarrow> sessions" where
  "ExpireById i ss = (if gm_get ss i \<noteq> None then expireInternal i ss else ss)"

definition GetById :: "sessions \<Rightarrow> string \<Rightarrow> session option" where
  "GetById ss i = (case gm_get ss i of Some s \<Rightarrow> Some s | None \<Rightarrow> None)"

text \<open>The JSON text of a session, its password blanked out; fields in the order of the structs.\<close>

definition json_member :: "string \<Rightarrow> bytes \<Rightarrow> bytes" where
  "json_member name v = enc_str name @ '':'' @ v"

definition json_object :: "bytes list \<Rightarrow> bytes" where
  "json_object ms = ''{'' @ Join ms '','' @ ''}''"

definition String :: "(int \<Rightarrow> bytes) \<Rightarrow> session \<Rightarrow> bytes" where
  "String time_text s =
     (let userCopy = (User s)\<lparr>Password := ''*******''\<rparr>;
          sessionCopy = s\<lparr>User := userCopy\<rparr>
      in json_object
           [json_member ''session_id'' (enc_str (SessionID sessionCopy)),
            json_member ''user'' (json_object
              [json_member ''Username'' (enc_str (Username (User sessionCopy))),
               json_member ''Password'' (enc_str (Password (User sessionCopy))),
               json_member ''Role'' (enc_str (Role (User sessionCopy)))]),
            json_member ''status'' (Itoa (Status sessionCopy)),
            json_member ''created_at'' (time_text (CreatedAt sessionCopy)),
            json_member ''last_accessed_at'' (time_text (LastAccessedAt sessionCopy))])"

section \<open>Authentication of a connection\<close>

text \<open>\<^verbatim>\<open>RequestAuth\<close>: \<open>t\<close> is the time at which the session is activated.\<close>

definition RequestAuth ::
  "bool \<Rightarrow> int \<Rightarrow> users \<Rightarrow> string \<Rightarrow> string \<Rightarrow> string \<Rightarrow> sessions \<Rightarrow> sessions \<times> (auth_error + bool)" where
  "RequestAuth enableAuth t us username password clientID ss =
     (if \<not> enableAuth then
        (if username \<noteq> [] \<or> password \<noteq> [] then (ss, Inl AuthDisabled)
         else case ValidateDefault us ''root'' of
           Inl e \<Rightarrow> (ss, Inl e)
         | Inr user \<Rightarrow> (Activate t (NewSession t user clientID) ss, Inr True))
      else if username = [] \<or> password = [] then (ss, Inl MissingCredentials)
      else case Validate us username password of
        Inl e \<Rightarrow> (ss, Inl e)
      | Inr user \<Rightarrow> (Activate t (NewSession t user clientID) ss, Inr True))"

section \<open>Lemmas\<close>

lemma Activate_lookup:
  "gm_get (Activate t (NewSession t u c) ss) =
   (gm_get ss)(c \<mapsto> \<lparr>SessionID = c, User = u, Status = SessionStatusActive, CreatedAt = t, LastAccessedAt = t\<rparr>)"
  by (simp add: Activate_def NewSession_def Let_def fun_eq_iff)

text \<open>The user a request is good for.\<close>

definition auth_user :: "bool \<Rightarrow> users \<Rightarrow> string \<Rightarrow> string \<Rightarrow> user option" where
  "auth_user enableAuth us username password =
     (if enableAuth then
        (case gm_get us username of
           Some u \<Rightarrow> if username \<noteq> [] \<and> password \<noteq> [] \<and> Password u = password then Some u else None
         | None \<Rightarrow> None)
      else if username = [] \<and> password = [] then gm_get us ''root'' else None)"

lemma RequestAuth_user:
  "RequestAuth en t us un pw c ss =
     (case auth_user en us un pw of
        Some u \<Rightarrow> (Activate t (NewSession t u c) ss, Inr True)
      | None \<Rightarrow> (ss, snd (RequestAuth en t us un pw c ss)))"
  "auth_user en us un pw = None \<Longrightarrow> \<exists>e. snd (RequestAuth en t us un pw c ss) = Inl e"
  by (auto simp: RequestAuth_def auth_user_def Validate_def ValidateDefault_def
      split: option.splits if_splits)

text \<open>The password a session was opened with does not occur in its text.\<close>

lemma String_password: "String tt (s\<lparr>User := (User s)\<lparr>Password := p\<rparr>\<rparr>) = String tt s"
  by (simp add: String_def Let_def)

end
