(* ===== verification/Cmd_Base.thy ===== *)
theory Cmd_Base
  imports Shard_Manager Auth
begin

text \<open>
  What the command handlers of \<^verbatim>\<open>src/commander/\<close> share: the request, the result, the errors of
  \<^verbatim>\<open>internal/errors/cmd_errors.go\<close>, and the calls they make on the store and the log.  A
  handler takes the environment of the request and its arguments and gives the new state and
  the result; \<open>Crash\<close> is a run-time panic.  The clock is read once for a request: a request is
  over within the second it starts in.  \<^verbatim>\<open>Args == nil\<close> is the empty list, as protobuf decodes no
  argument.
\<close>

type_synonym db = shardManager

record env =
  now :: int
  eproto :: proto
  ebranches :: "branch list"
  StrictMode :: bool
  euni :: unicode
  ref_order :: "(string \<times> string) list \<Rightarrow> (string \<times> string) list"
  ClientID :: string
  Sessions :: sessions
  time_text :: "int \<Rightarrow> bytes"

text \<open>An error is its class and its message; \<open>JsonError\<close> carries a message of \<^verbatim>\<open>encoding/json\<close>,
  which is not modelled.\<close>

datatype cmd_error =
    CmdError string string
  | JsonError string
  | UnknownCommand string
  | NoSession string
  | PathError string

datatype result = Resp bytes | Fail cmd_error | Crash

definition KeyNotFoundError :: string where "KeyNotFoundError = ''KeyNotFoundError''"
definition InvalidArgsError :: string where "InvalidArgsError = ''InvalidArgumentError''"
definition InvalidValueError :: string where "InvalidValueError = ''InvalidValueError''"
definition InvalidKeyError :: string where "InvalidKeyError = ''InvalidKeyError''"
definition InvalidMapKeyError :: string where "InvalidMapKeyError = ''InvalidMapKeyError''"
definition InvalidCharacterError :: string where "InvalidCharacterError = ''InvalidCharacterError''"
definition InvalidIndexError :: string where "InvalidIndexError = ''InvalidIndexError''"
definition InvalidReferenceError :: string where "InvalidReferenceError = ''InvalidReferenceError''"

definition badKey :: cmd_error where
  "badKey = CmdError InvalidKeyError
     ''invalid key, must be a string and at least 1 to 200 characters long''"

definition noKey :: cmd_error where
  "noKey = CmdError InvalidKeyError ''Key must be provided''"

definition badCount :: cmd_error where
  "badCount = CmdError InvalidArgsError ''invalid number of arguments''"

section \<open>Calls on the store and the log\<close>

text \<open>\<^verbatim>\<open>cmd.SM.Wal().Put(key, obj)\<close> and \<^verbatim>\<open>Delete(key)\<close>: the handlers drop the error.\<close>

definition log_put :: "env \<Rightarrow> string \<Rightarrow> object \<Rightarrow> db \<Rightarrow> result \<Rightarrow> db \<times> result" where
  "log_put E key ob sm r =
     (case wPut (eproto E) (ebranches E) key (Some ob) (smwal sm) of
        (w, wr) \<Rightarrow> (sm\<lparr>smwal := w\<rparr>, if wr = WPanic then Crash else r))"

definition log_del :: "env \<Rightarrow> string \<Rightarrow> db \<Rightarrow> result \<Rightarrow> db \<times> result" where
  "log_del E key sm r =
     (case wDelete (eproto E) (ebranches E) key (smwal sm) of
        (w, wr) \<Rightarrow> (sm\<lparr>smwal := w\<rparr>, if wr = WPanic then Crash else r))"

text \<open>\<^verbatim>\<open>shard := cmd.SM.GetShardByKey(key)\<close>, and a use of \<^verbatim>\<open>shard.M\<close> in the continuation: a nil shard
  panics.\<close>

definition on_shard :: "db \<Rightarrow> string \<Rightarrow> (memory \<Rightarrow> db \<times> result) \<Rightarrow> db \<times> result" where
  "on_shard sm key kont =
     (case GetShardByKey sm key of None \<Rightarrow> (sm, Crash) | Some sh \<Rightarrow> kont (M sh))"

text \<open>\<^verbatim>\<open>obj, _ := shard.M.Get(key)\<close>.\<close>

definition fetch :: "env \<Rightarrow> db \<Rightarrow> string \<Rightarrow> (db \<Rightarrow> object option \<Rightarrow> db \<times> result) \<Rightarrow> db \<times> result" where
  "fetch E sm key kont =
     on_shard sm key (\<lambda>m. case Get (now E) key m of (m', ob) \<Rightarrow> kont (with_mem sm key m') ob)"

text \<open>\<^verbatim>\<open>shard.M.Set(key, value, kind)\<close> and \<^verbatim>\<open>Wal().Put\<close> of the same value and kind.\<close>

definition store :: "env \<Rightarrow> db \<Rightarrow> string \<Rightarrow> bytes \<Rightarrow> kind \<Rightarrow> result \<Rightarrow> db \<times> result" where
  "store E sm key v kd r =
     on_shard sm key (\<lambda>m.
       log_put E key \<lparr>Value = v, Kind = kd, Timestamp = 0\<rparr> (with_mem sm key (Set key v kd m)) r)"

text \<open>\<^verbatim>\<open>shard.M.Delete(key)\<close> and \<^verbatim>\<open>Wal().Delete(key)\<close>.\<close>

definition erase :: "env \<Rightarrow> db \<Rightarrow> string \<Rightarrow> result \<Rightarrow> db \<times> result" where
  "erase E sm key r =
     on_shard sm key (\<lambda>m. log_del E key (with_mem sm key (fst (Delete key m))) r)"

section \<open>Proof rules\<close>

lemma with_mem_mem_of:
  assumes "sm_wf sm"
  shows "with_mem sm key (mem_of sm key) = sm"
proof -
  obtain sh where sh: "GetShardByKey sm key = Some sh" using sm_wf_shard [OF assms, of key] by blast
  have "gm_upd (GetNode (smring sm) key) sh (shards sm) = shards sm"
    using assms sh by (intro gm_ok_eqI) (auto simp: sm_wf_def GetShardByKey_def)
  with sh show ?thesis by (simp add: with_mem_def mem_of_def)
qed

text \<open>
  An invariant of requests.  \<open>I\<close> holds until the request writes, \<open>J\<close> afterwards; \<open>writable\<close> are the
  keys it may write, \<open>okob\<close> the objects it may store.  A request writes at most once, and the
  write puts an object into the store and the log, or takes it from both; besides, it may drop
  objects that have expired; \<^verbatim>\<open>TTL\<close> and \<^verbatim>\<open>TTL.EXPIRE\<close> drop theirs a second earlier, and \<^verbatim>\<open>TTL\<close> also one
  with a negative expiration time.
\<close>

locale request_inv =
  fixes E :: env and I J :: "db \<Rightarrow> bool" and writable :: "string \<Rightarrow> bool" and okob :: "object \<Rightarrow> bool"
  assumes now_in: "I sm \<Longrightarrow> in_i64 (now E)"
    and I_wf: "I sm \<Longrightarrow> sm_wf sm"
    and I_J: "I sm \<Longrightarrow> J sm"
    and I_ok: "I sm \<Longrightarrow> gm_get (mem_of sm key) key = Some ob \<Longrightarrow> okob ob"
    and ok_new: "okob \<lparr>Value = v, Kind = kd, Timestamp = 0\<rparr>"
    and ok_value: "okob ob \<Longrightarrow> okob (ob\<lparr>Value := v\<rparr>)"
    and drop: "I sm \<Longrightarrow> gm_get (mem_of sm key) key = Some ob \<Longrightarrow> 0 < Timestamp ob \<Longrightarrow>
      Timestamp ob < now E \<Longrightarrow> I (with_mem sm key (gm_del key (mem_of sm key)))"
    and drop_own: "I sm \<Longrightarrow> writable key \<Longrightarrow> gm_get (mem_of sm key) key = Some ob \<Longrightarrow>
      Timestamp ob \<noteq> 0 \<Longrightarrow> Timestamp ob \<le> now E \<Longrightarrow>
      I (with_mem sm key (gm_del key (mem_of sm key)))"
    and put: "I sm \<Longrightarrow> writable key \<Longrightarrow> okob ob \<Longrightarrow>
      J (fst (log_put E key ob (with_mem sm key (gm_upd key ob (mem_of sm key))) r))"
    and del: "I sm \<Longrightarrow> writable key \<Longrightarrow>
      J (fst (log_del E key (with_mem sm key (gm_del key (mem_of sm key))) r))"
begin

lemma mem_ok [simp]: "I sm \<Longrightarrow> gm_ok (mem_of sm key)"
  by (simp add: I_wf)

lemma on_shard_I: "I sm \<Longrightarrow> on_shard sm key c = c (mem_of sm key)"
  using sm_wf_shard [OF I_wf, of sm key] by (auto simp: on_shard_def mem_of_def)

lemma with_mem_same: "I sm \<Longrightarrow> with_mem sm key (mem_of sm key) = sm"
  by (rule with_mem_mem_of [OF I_wf])

lemma fetch_I:
  assumes "I sm" and "\<And>sm'. I sm' \<Longrightarrow> J (fst (c sm' (gm_get (mem_of sm' key) key)))"
  shows "J (fst (fetch E sm key c))"
proof (cases "gm_get (mem_of sm key) key")
  case None
  then have "fetch E sm key c = c sm None"
    using assms(1) by (simp add: fetch_def on_shard_I Get_def with_mem_same)
  with assms(2) [OF assms(1)] None show ?thesis by simp
next
  case (Some ob)
  show ?thesis
  proof (cases "0 < Timestamp ob \<and> Timestamp ob < now E")
    case True
    let ?sm = "with_mem sm key (gm_del key (mem_of sm key))"
    have "I ?sm" using drop [OF assms(1) Some] True by simp
    then have "J (fst (c ?sm (gm_get (mem_of ?sm key) key)))" by (rule assms(2))
    moreover have "gm_get (mem_of ?sm key) key = None"
      by (simp add: mem_of_with_mem I_wf [OF assms(1)])
    moreover have "fetch E sm key c = c ?sm None"
      using True Some assms(1) by (simp add: fetch_def on_shard_I Get_def)
    ultimately show ?thesis by simp
  next
    case False
    then have "Get (now E) key (mem_of sm key) = (mem_of sm key, Some ob)"
      by (auto simp: Get_def Some)
    then have "fetch E sm key c = c sm (Some ob)"
      using assms(1) by (simp add: fetch_def on_shard_I with_mem_same)
    with assms(2) [OF assms(1)] Some show ?thesis by simp
  qed
qed

lemma store_J: "I sm \<Longrightarrow> writable key \<Longrightarrow> J (fst (store E sm key v kd r))"
  by (simp add: store_def on_shard_I Set_def put ok_new)

lemma erase_J: "I sm \<Longrightarrow> writable key \<Longrightarrow> J (fst (erase E sm key r))"
  using del [of sm key r]
  by (cases "gm_get (mem_of sm key) key")
    (auto simp: erase_def on_shard_I Delete_def gm_del_absent map_of_eq_None_iff)

lemma done_J: "I sm \<Longrightarrow> J (fst (sm, r))"
  by (simp add: I_J)

end

text \<open>Writing a memory twice, and reading one that was written.\<close>

lemma with_mem_with_mem:
  assumes "sm_wf sm"
  shows "with_mem (with_mem sm key m) key m' = with_mem sm key m'"
proof -
  obtain sh where "GetShardByKey sm key = Some sh" using sm_wf_shard [OF assms] by blast
  with assms show ?thesis
    by (simp add: with_mem_def GetShardByKey_def Let_def gm_upd_upd sm_wf_def)
qed

lemma on_shard_wf: "sm_wf sm \<Longrightarrow> on_shard sm key c = c (mem_of sm key)"
  using sm_wf_shard [of sm key] by (auto simp: on_shard_def mem_of_def)

lemma mem_of_same [simp]: "sm_wf sm \<Longrightarrow> mem_of (with_mem sm key m) key = m"
  by (simp add: mem_of_with_mem)

end
