(* ===== verification/Cmd_Common.thy ===== *)
theory Cmd_Common
  imports Cmd_Base
begin

text \<open>
  The commands of \<^verbatim>\<open>src/commander/common/\<close> and \<^verbatim>\<open>src/commander/ttl_cmd/\<close>: SET, GET, DELETE,
  EXISTS, PING, SESSION, STATUS, TTL and TTL.EXPIRE.
\<close>

definition setKey :: "env \<Rightarrow> string list \<Rightarrow> db \<Rightarrow> db \<times> result" where
  "setKey E args sm =
     (if args = [] \<or> length args \<noteq> 2 then
        (sm, Fail (CmdError InvalidArgsError ''Key and value must be provided''))
      else let key = args ! 0; value = args ! 1 in
        if \<not> IsValidKey key then (sm, Fail badKey)
        else store E sm key value KDefault (Resp []))"

text \<open>The loop over the parts of a path; the traversal stops with an error, here \<open>None\<close>.\<close>

fun read_keys :: "json gomap option \<Rightarrow> string list \<Rightarrow> json option" where
  "read_keys current [] = None"
| "read_keys current (key # keys) =
     (case map_lookup current key of
        None \<Rightarrow> None
      | Some val \<Rightarrow>
          if keys = [] then Some val
          else case as_map val of None \<Rightarrow> None | Some nextMap \<Rightarrow> read_keys nextMap keys)"

definition readNestedKey :: "json gomap option \<Rightarrow> string \<Rightarrow> json option" where
  "readNestedKey obj path = read_keys obj (Split (CHR ''.'') path)"

text \<open>An error of the traversal leaves a nil value.\<close>

definition or_nil :: "json option \<Rightarrow> json" where
  "or_nil v = (case v of Some d \<Rightarrow> d | None \<Rightarrow> JNull)"

definition getKey :: "env \<Rightarrow> string list \<Rightarrow> db \<Rightarrow> db \<times> result" where
  "getKey E args sm =
     (if args = [] then (sm, Fail noKey)
      else if length args > 2 then (sm, Fail badCount)
      else let key = args ! 0 in
        if \<not> IsValidKey key then (sm, Fail badKey)
        else fetch E sm key (\<lambda>sm ob.
          case ob of
            None \<Rightarrow> (sm, Resp [])
          | Some obj \<Rightarrow>
              if length args = 2 then
                let path = args ! 1 in
                case unm_map (Value obj) of
                  None \<Rightarrow> (sm, Fail (JsonError InvalidCharacterError))
                | Some m \<Rightarrow>
                    let d = or_nil (readNestedKey m path)
                    in (sm, Resp (ObjectToByte d))
              else (sm, Resp (Value obj))))"

definition deleteKey :: "env \<Rightarrow> string list \<Rightarrow> db \<Rightarrow> db \<times> result" where
  "deleteKey E args sm =
     (if args = [] \<or> length args \<noteq> 1 then
        (sm, Fail (CmdError InvalidArgsError ''Key must be provided, example: DELETE key''))
      else let key = args ! 0 in
        if \<not> IsValidKey key then (sm, Fail badKey)
        else on_shard sm key (\<lambda>m.
          case Delete key m of (m', status) \<Rightarrow>
            let sm' = with_mem sm key m' in
            if status then log_del E key sm' (Resp []) else (sm', Resp [])))"

text \<open>The counter of \<^verbatim>\<open>EXISTS\<close> is an \<^verbatim>\<open>int8\<close>.\<close>

definition i8 :: "int \<Rightarrow> int" where
  "i8 x = (x + 128) mod 256 - 128"

fun exists_loop :: "env \<Rightarrow> string list \<Rightarrow> int \<Rightarrow> db \<Rightarrow> db \<times> result" where
  "exists_loop E [] found sm = (sm, Resp (Itoa found))"
| "exists_loop E (key # keys) found sm =
     fetch E sm key (\<lambda>sm obj.
       exists_loop E keys (if obj \<noteq> None then i8 (found + 1) else found) sm)"

definition existsFunc :: "env \<Rightarrow> string list \<Rightarrow> db \<Rightarrow> db \<times> result" where
  "existsFunc E args sm =
     (if args = [] then (sm, Fail noKey) else exists_loop E args 0 sm)"

definition echoBack :: "env \<Rightarrow> string list \<Rightarrow> db \<Rightarrow> db \<times> result" where
  "echoBack E args sm = (sm, Resp (''PONG'' @ '' '' @ Join args '' ''))"

definition sessionAdd :: "env \<Rightarrow> string list \<Rightarrow> db \<Rightarrow> db \<times> result" where
  "sessionAdd E args sm =
     (case GetById (Sessions E) (ClientID E) of
        None \<Rightarrow> (sm, Fail (NoSession (ClientID E)))
      | Some session \<Rightarrow> (sm, Resp (String (time_text E) session)))"

text \<open>The JSON of the status: the members of a Go map come sorted by name, so the entry
  \<open>shard_count\<close> is sorted in among the names of the shards.\<close>

definition shard_text :: "shard_info \<Rightarrow> bytes" where
  "shard_text si = json_object
     [json_member ''ID'' (enc_str (info_ID si)),
      json_member ''host_address'' (enc_str (host_address si)),
      json_member ''key_length'' (Itoa (key_length si)),
      json_member ''name'' (enc_str (info_name si)),
      json_member ''total_size'' (enc_str ''8 bytes'')]"

definition info_text :: "int \<times> shard_info gomap \<Rightarrow> bytes" where
  "info_text info =
     (let entries = fold (\<lambda>(name, si). gm_upd name (shard_text si)) (snd info)
                      [(''shard_count'', Itoa (fst info))]
      in json_object (map (\<lambda>(name, t). json_member name t) entries))"

definition serverStatus :: "env \<Rightarrow> string list \<Rightarrow> db \<Rightarrow> db \<times> result" where
  "serverStatus E args sm =
     (sm, Resp (json_object
        [json_member ''server_status'' (enc_str ''running''),
         json_member ''shard_info'' (info_text (GetAllShardInfo sm)),
         json_member ''up_time'' (time_text E (now E))]))"

section \<open>Expiry\<close>

definition ttlKey :: "env \<Rightarrow> string list \<Rightarrow> db \<Rightarrow> db \<times> result" where
  "ttlKey E args sm =
     (if args = [] \<or> length args \<noteq> 1 then
        (sm, Fail (CmdError InvalidArgsError ''Key must be provided''))
      else let key = args ! 0 in
        if \<not> IsValidKey key then (sm, Fail badKey)
        else on_shard sm key (\<lambda>m.
          case TTL (now E) key m of (m', ttl) \<Rightarrow> (with_mem sm key m', Resp (Itoa ttl))))"

definition expireKey :: "env \<Rightarrow> string list \<Rightarrow> db \<Rightarrow> db \<times> result" where
  "expireKey E args sm =
     (if args = [] \<or> length args \<noteq> 2 then
        (sm, Fail (CmdError InvalidArgsError
          ''Key and time must be provided, default seconds, Syntax: TTL.EXPIRE <key> <seconds[s]|minutes[m]|hours[h]|days[d]>''))
      else let key = args ! 0; secondsStr = args ! 1 in
        case ParseDurationToSeconds secondsStr of
          None \<Rightarrow> (sm, Fail (CmdError InvalidArgsError ''Invalid time value provided''))
        | Some seconds \<Rightarrow>
            if \<not> IsValidKey key then (sm, Fail badKey)
            else on_shard sm key (\<lambda>m.
              case Expire (now E) (now E) key seconds m of (m', success) \<Rightarrow>
                let sm' = with_mem sm key m' in
                if success then
                  fetch E sm' key (\<lambda>sm ob.
                    case ob of
                      Some obj \<Rightarrow> log_put E key obj sm (Resp ''1'')
                    | None \<Rightarrow> (sm, Resp ''1''))
                else (sm', Resp ''0'')))"

section \<open>Invariants\<close>

text \<open>A new expiration time never lies in the past, even when it overflows.\<close>

lemma new_expiry:
  assumes "in_i64 t" and "in_i64 s" and "0 < s"
  shows "\<not> (0 < i64 (t + s) \<and> i64 (t + s) < t)"
proof (cases "t + s < 2 ^ 63")
  case True
  then have "in_i64 (t + s)" using assms by (simp add: in_i64_def)
  then show ?thesis using assms(3) by (simp add: i64_id)
next
  case False
  have "i64 (t + s) = i64 (t + s - 2 ^ 64)" by (rule i64_cong) simp
  moreover have "in_i64 (t + s - 2 ^ 64)" using False assms by (simp add: in_i64_def)
  ultimately have "i64 (t + s) = t + s - 2 ^ 64" by (simp add: i64_id)
  then show ?thesis using assms by (simp add: in_i64_def)
qed

text \<open>\<^verbatim>\<open>TTL.EXPIRE\<close> in one step.\<close>

definition expire_at :: "int \<Rightarrow> int \<Rightarrow> int" where
  "expire_at t s = (if 0 < s then i64 (t + s) else 0)"

lemma expireKey_eq:
  assumes "sm_wf sm" and "in_i64 (now E)" and "length args = 2" and "IsValidKey (args ! 0)"
    and "ParseDurationToSeconds (args ! 1) = Some s"
  shows "expireKey E args sm =
    (let key = args ! 0; m = mem_of sm key in
     case gm_get m key of
       None \<Rightarrow> (with_mem sm key m, Resp ''0'')
     | Some ob \<Rightarrow>
         if 0 < Timestamp ob \<and> Timestamp ob \<le> now E then (with_mem sm key (gm_del key m), Resp ''0'')
         else let ob' = ob\<lparr>Timestamp := expire_at (now E) s\<rparr>
              in log_put E key ob' (with_mem sm key (gm_upd key ob' m)) (Resp ''1''))"
proof -
  let ?k = "args ! 0"
  have a: "args \<noteq> []" using assms(3) by auto
  have g: "fetch E (with_mem sm ?k (gm_upd ?k ob' (mem_of sm ?k))) ?k c =
      c (with_mem sm ?k (gm_upd ?k ob' (mem_of sm ?k))) (Some ob')"
    if "\<not> (0 < Timestamp ob' \<and> Timestamp ob' < now E)" for ob' c
  proof -
    let ?sm = "with_mem sm ?k (gm_upd ?k ob' (mem_of sm ?k))"
    have wf: "sm_wf ?sm" by (simp add: assms(1))
    have "Get (now E) ?k (mem_of ?sm ?k) = (mem_of ?sm ?k, Some ob')"
      using that by (auto simp: Get_def assms(1))
    then show ?thesis
      by (simp add: fetch_def on_shard_wf [OF wf] with_mem_with_mem [OF assms(1)] assms(1))
  qed
  have "\<not> (0 < expire_at (now E) s \<and> expire_at (now E) s < now E)"
    using new_expiry [OF assms(2) ParseDuration_in [OF assms(5)]] by (simp add: expire_at_def)
  then show ?thesis
    using a assms(3-5)
    by (auto simp: expireKey_def Let_def on_shard_wf [OF assms(1)] Expire_def expire_at_def g
        split: option.split)
qed

context request_inv
begin

lemma setKey_J:
  "I sm \<Longrightarrow> (args \<noteq> [] \<Longrightarrow> writable (args ! 0)) \<Longrightarrow> J (fst (setKey E args sm))"
  by (auto simp: setKey_def Let_def I_J intro!: store_J)

lemma getKey_J: "I sm \<Longrightarrow> J (fst (getKey E args sm))"
  by (auto simp: getKey_def Let_def I_J intro!: fetch_I split: option.split)

lemma deleteKey_J:
  "I sm \<Longrightarrow> (args \<noteq> [] \<Longrightarrow> writable (args ! 0)) \<Longrightarrow> J (fst (deleteKey E args sm))"
  by (auto simp: deleteKey_def Let_def I_J on_shard_I Delete_def with_mem_same intro!: del)

lemma exists_loop_J: "I sm \<Longrightarrow> J (fst (exists_loop E keys found sm))"
  by (induction keys arbitrary: found sm) (auto simp: I_J intro!: fetch_I)

lemma existsFunc_J: "I sm \<Longrightarrow> J (fst (existsFunc E args sm))"
  by (simp add: existsFunc_def exists_loop_J I_J)

lemma read_only_J:
  assumes "I sm"
  shows "J (fst (echoBack E args sm))" "J (fst (sessionAdd E args sm))" "J (fst (serverStatus E args sm))"
  using assms by (simp_all add: echoBack_def sessionAdd_def serverStatus_def I_J split: option.split)

lemma ttlKey_J:
  assumes "I sm" and "args \<noteq> [] \<Longrightarrow> writable (args ! 0)"
  shows "J (fst (ttlKey E args sm))"
proof (cases "args = [] \<or> length args \<noteq> 1 \<or> \<not> IsValidKey (args ! 0)")
  case True
  then show ?thesis using assms(1) by (auto simp: ttlKey_def Let_def I_J)
next
  case False
  let ?k = "args ! 0"
  let ?sm = "with_mem sm ?k (gm_del ?k (mem_of sm ?k))"
  have "I ?sm" if "gm_get (mem_of sm ?k) ?k = Some ob" "Timestamp ob \<noteq> 0" "Timestamp ob \<le> now E" for ob
    using that False assms drop_own by auto
  then show ?thesis
    using False assms(1)
    by (auto simp: ttlKey_def Let_def I_J on_shard_I TTL_def with_mem_same split: option.split)
qed

lemma expireKey_J:
  assumes "I sm" and "args \<noteq> [] \<Longrightarrow> writable (args ! 0)"
    and "\<And>s ob. ParseDurationToSeconds (args ! 1) = Some s \<Longrightarrow> 0 < s \<Longrightarrow> okob ob \<Longrightarrow>
      okob (ob\<lparr>Timestamp := i64 (now E + s)\<rparr>)"
    and "\<And>ob. okob ob \<Longrightarrow> okob (ob\<lparr>Timestamp := 0\<rparr>)"
  shows "J (fst (expireKey E args sm))"
proof (cases "length args = 2 \<and> IsValidKey (args ! 0) \<and> ParseDurationToSeconds (args ! 1) \<noteq> None")
  case False
  then show ?thesis using assms(1) by (auto simp: expireKey_def Let_def I_J split: option.split)
next
  case True
  then obtain s where s: "ParseDurationToSeconds (args ! 1) = Some s" by blast
  let ?k = "args ! 0"
  have w: "writable ?k" using True by (intro assms(2)) auto
  have "okob (ob\<lparr>Timestamp := expire_at (now E) s\<rparr>)" if "gm_get (mem_of sm ?k) ?k = Some ob" for ob
    using I_ok [OF assms(1) that] assms(3) [OF s] assms(4) by (simp add: expire_at_def)
  then show ?thesis
    using True assms(1) w
    by (auto simp: expireKey_eq [OF I_wf [OF assms(1)] now_in [OF assms(1)] _ _ s] Let_def with_mem_same I_J put
        split: option.split intro!: I_J drop_own)
qed

end

end
