(* ===== verification/Cmd_Str_Num.thy ===== *)
theory Cmd_Str_Num
  imports Cmd_Base
begin

text \<open>
  The commands of \<^verbatim>\<open>src/commander/string_cmd/\<close> and \<^verbatim>\<open>src/commander/num_cmd/\<close>: STR.SET, STR.GET,
  STR.APPEND, STR.LENGTH, STR.RANGE, NUM.SET, NUM.GET, NUM.INCR and NUM.DECR.
\<close>

section \<open>Strings\<close>

definition notString :: cmd_error where
  "notString = CmdError InvalidValueError ''the existing value for the provided key must be a string''"

definition strSetFunc :: "env \<Rightarrow> string list \<Rightarrow> db \<Rightarrow> db \<times> result" where
  "strSetFunc E args sm =
     (if args = [] then (sm, Fail noKey)
      else if length args \<noteq> 2 then (sm, Fail badCount)
      else let key = args ! 0; value = args ! 1 in
        if \<not> IsValidKey key then (sm, Fail badKey)
        else store E sm key value KString (Resp []))"

text \<open>On a missing key \<^verbatim>\<open>STR.GET\<close> reads the value of a nil object.\<close>

definition strGetFunc :: "env \<Rightarrow> string list \<Rightarrow> db \<Rightarrow> db \<times> result" where
  "strGetFunc E args sm =
     (if args = [] then (sm, Fail noKey)
      else if length args \<noteq> 1 then (sm, Fail badCount)
      else let key = args ! 0 in
        if \<not> IsValidKey key then (sm, Fail badKey)
        else fetch E sm key (\<lambda>sm ob.
          case ob of
            Some obj \<Rightarrow> if KString \<noteq> Kind obj then (sm, Fail notString) else (sm, Resp (Value obj))
          | None \<Rightarrow> (sm, Crash)))"

definition strAppendFunc :: "env \<Rightarrow> string list \<Rightarrow> db \<Rightarrow> db \<times> result" where
  "strAppendFunc E args sm =
     (if args = [] then (sm, Fail noKey)
      else let key = args ! 0 in
        if \<not> IsValidKey key then (sm, Fail badKey)
        else fetch E sm key (\<lambda>sm ob.
          case ob of
            Some obj \<Rightarrow>
              if KString \<noteq> Kind obj then (sm, Fail notString)
              else store E sm key (foldl (@) (Value obj) (drop 1 args)) KString (Resp [])
          | None \<Rightarrow> store E sm key (foldl (@) [] (drop 1 args)) KString (Resp [])))"

definition strLengthFunc :: "env \<Rightarrow> string list \<Rightarrow> db \<Rightarrow> db \<times> result" where
  "strLengthFunc E args sm =
     (if args = [] then (sm, Fail noKey)
      else if length args \<noteq> 1 then (sm, Fail badCount)
      else let key = args ! 0 in
        if \<not> IsValidKey key then (sm, Fail badKey)
        else fetch E sm key (\<lambda>sm ob.
          case ob of
            Some obj \<Rightarrow>
              if KString \<noteq> Kind obj then (sm, Fail notString)
              else (sm, Resp (Itoa (int (length (Value obj)))))
          | None \<Rightarrow> (sm, Resp (Itoa 0))))"

text \<open>\<^verbatim>\<open>getRange\<close>, on runes; \<open>None\<close> is the panic of a slice whose end is below its start.\<close>

definition getRange :: "string \<Rightarrow> int \<Rightarrow> int \<Rightarrow> string option" where
  "getRange value start0 end0 =
     (let rs = runes value;
          len = int (length rs);
          start1 = (if start0 < 0 then i64 (len + start0) else start0);
          end1 = (if end0 < 0 then len else i64 (start1 + end0));
          start2 = (if start1 < 0 then 0 else start1);
          end2 = (if len \<le> end1 then len else end1);
          start3 = (if len < start2 then len else start2)
      in if start3 \<le> end2 \<and> 0 \<le> start3
         then Some (string_of_runes (take (nat (end2 - start3)) (drop (nat start3) rs)))
         else None)"

definition strRangeFunc :: "env \<Rightarrow> string list \<Rightarrow> db \<Rightarrow> db \<times> result" where
  "strRangeFunc E args sm =
     (if args = [] then (sm, Fail noKey)
      else if length args \<noteq> 3 then (sm, Fail badCount)
      else let key = args ! 0 in
        if \<not> IsValidKey key then (sm, Fail badKey)
        else case ParseInt (args ! 1) of
          None \<Rightarrow> (sm, Fail (CmdError InvalidArgsError ''start offsets must be valid integers''))
        | Some start \<Rightarrow> (case ParseInt (args ! 2) of
            None \<Rightarrow> (sm, Fail (CmdError InvalidArgsError ''end offsets must be valid integers''))
          | Some stop \<Rightarrow>
              fetch E sm key (\<lambda>sm ob.
                case ob of
                  None \<Rightarrow> (sm, Fail (CmdError KeyNotFoundError ''provided key does not exist''))
                | Some obj \<Rightarrow>
                    if KString \<noteq> Kind obj then (sm, Fail notString)
                    else (case getRange (Value obj) start stop of
                            Some str \<Rightarrow> (sm, Resp str)
                          | None \<Rightarrow> (sm, Crash)))))"

section \<open>Numbers\<close>

definition notNumber :: cmd_error where
  "notNumber = CmdError InvalidValueError ''the existing value for the provided key must be a number''"

definition badNumber :: cmd_error where
  "badNumber = CmdError InvalidValueError ''provided value is not a valid number''"

definition numberSetFunc :: "env \<Rightarrow> string list \<Rightarrow> db \<Rightarrow> db \<times> result" where
  "numberSetFunc E args sm =
     (if args = [] then (sm, Fail noKey)
      else if length args \<noteq> 2 then (sm, Fail badCount)
      else let key = args ! 0; value = args ! 1 in
        if \<not> IsValidKey key then (sm, Fail badKey)
        else case ConvertToNumber value of
          None \<Rightarrow> (sm, Fail badNumber)
        | Some v \<Rightarrow> store E sm key (FloatToByte v) KNumber (Resp []))"

definition numberGetFunc :: "env \<Rightarrow> string list \<Rightarrow> db \<Rightarrow> db \<times> result" where
  "numberGetFunc E args sm =
     (if args = [] then (sm, Fail noKey)
      else if length args \<noteq> 1 then (sm, Fail badCount)
      else let key = args ! 0 in
        if \<not> IsValidKey key then (sm, Fail badKey)
        else fetch E sm key (\<lambda>sm ob.
          case ob of
            Some obj \<Rightarrow> if KNumber \<noteq> Kind obj then (sm, Fail notNumber) else (sm, Resp (Value obj))
          | None \<Rightarrow> (sm, Crash)))"

text \<open>The optional amount, one by default.\<close>

definition num_arg :: "string list \<Rightarrow> f64 option" where
  "num_arg args = (if length args = 2 then ConvertToNumber (args ! 1) else Some f64_one)"

definition numberIncrFunc :: "env \<Rightarrow> string list \<Rightarrow> db \<Rightarrow> db \<times> result" where
  "numberIncrFunc E args sm =
     (if args = [] then (sm, Fail noKey)
      else if length args > 2 then (sm, Fail badCount)
      else let key = args ! 0 in
        if \<not> IsValidKey key then (sm, Fail badKey)
        else case num_arg args of
          None \<Rightarrow> (sm, Fail badNumber)
        | Some v \<Rightarrow>
            fetch E sm key (\<lambda>sm ob.
              case ob of
                None \<Rightarrow> store E sm key (FloatToByte v) KNumber (Resp (FloatToByte v))
              | Some obj \<Rightarrow>
                  (case ConvertToNumber (Value obj) of
                     None \<Rightarrow> (sm, Fail notNumber)
                   | Some current \<Rightarrow>
                       if KNumber \<noteq> Kind obj then (sm, Fail notNumber)
                       else let byteValue = FloatToByte (current + v)
                            in store E sm key byteValue KNumber (Resp byteValue))))"

definition numberDecrFunc :: "env \<Rightarrow> string list \<Rightarrow> db \<Rightarrow> db \<times> result" where
  "numberDecrFunc E args sm =
     (if args = [] then (sm, Fail noKey)
      else if length args > 2 then (sm, Fail badCount)
      else let key = args ! 0 in
        if \<not> IsValidKey key then (sm, Fail badKey)
        else case num_arg args of
          None \<Rightarrow> (sm, Fail badNumber)
        | Some v \<Rightarrow>
            fetch E sm key (\<lambda>sm ob.
              case ob of
                None \<Rightarrow> store E sm key (FloatToByte v) KNumber (Resp (FloatToByte v))
              | Some obj \<Rightarrow>
                  (case ConvertToNumber (Value obj) of
                     None \<Rightarrow> (sm, Fail notNumber)
                   | Some current \<Rightarrow>
                       if KNumber \<noteq> Kind obj then (sm, Fail notNumber)
                       else let byteValue = FloatToByte (current - v)
                            in store E sm key byteValue KNumber (Resp byteValue))))"

section \<open>Invariants\<close>

context request_inv
begin

lemma str_read_J:
  assumes "I sm"
  shows "J (fst (strGetFunc E args sm))" "J (fst (strLengthFunc E args sm))"
    "J (fst (strRangeFunc E args sm))" "J (fst (numberGetFunc E args sm))"
  using assms
  by (auto simp: strGetFunc_def strLengthFunc_def strRangeFunc_def numberGetFunc_def Let_def I_J
      intro!: fetch_I split: option.split)

lemma str_write_J:
  assumes "I sm" and "args \<noteq> [] \<Longrightarrow> writable (args ! 0)"
  shows "J (fst (strSetFunc E args sm))" "J (fst (strAppendFunc E args sm))"
  using assms
  by (auto simp: strSetFunc_def strAppendFunc_def Let_def I_J
      intro!: fetch_I store_J split: option.split)

lemma num_write_J:
  assumes "I sm" and "args \<noteq> [] \<Longrightarrow> writable (args ! 0)"
  shows "J (fst (numberSetFunc E args sm))" "J (fst (numberIncrFunc E args sm))"
    "J (fst (numberDecrFunc E args sm))"
  using assms
  by (auto simp: numberSetFunc_def numberIncrFunc_def numberDecrFunc_def Let_def I_J
      intro!: fetch_I store_J split: option.split)

end

end
