(* ===== verification/Cmd_List.thy ===== *)
theory Cmd_List
  imports Cmd_Base
begin

text \<open>
  The commands of \<^verbatim>\<open>src/commander/list_cmd/\<close>: LIST.SET, LIST.PUSH, LIST.POP, LIST.GPOP, LIST.ISET,
  LIST.GET, LIST.LEN and LIST.FIND with its filter.  A \<^verbatim>\<open>[]any\<close> that may be nil is a
  \<open>json list option\<close>.
\<close>

definition elems :: "json list option \<Rightarrow> json list" where
  "elems a = (case a of Some vs \<Rightarrow> vs | None \<Rightarrow> [])"

text \<open>\<^verbatim>\<open>arr = append(arr, EnsureUnmarshal(arg))\<close> for every argument; appending nothing leaves a nil
  slice nil.\<close>

definition append_args :: "json list option \<Rightarrow> string list \<Rightarrow> json list option" where
  "append_args arr args =
     (if args = [] then arr else Some (elems arr @ map EnsureUnmarshal args))"

definition notList :: cmd_error where
  "notList = CmdError InvalidValueError ''the existing value for the provided key must be a list''"

definition mustBeList :: cmd_error where
  "mustBeList = CmdError InvalidValueError
     ''The current value associated with the provided key must be a list''"

definition badIndex :: cmd_error where
  "badIndex = CmdError InvalidArgsError
     ''Invalid index value. The index must be a number greater than or equal to 0''"

definition outOfRange :: cmd_error where
  "outOfRange = CmdError InvalidIndexError ''index out of range''"

definition listSetFunc :: "env \<Rightarrow> string list \<Rightarrow> db \<Rightarrow> db \<times> result" where
  "listSetFunc E args sm =
     (if args = [] then (sm, Fail noKey)
      else if length args < 2 then
        (sm, Fail (CmdError InvalidArgsError ''invalid number of arguments,Syntax: LIST.SET <key> [<value>]''))
      else let key = args ! 0 in
        if \<not> IsValidKey key then (sm, Fail badKey)
        else let arr = append_args None (drop 1 args)
             in store E sm key (SliceToByte arr) KList (Resp (Itoa (int (length (elems arr))))))"

definition listPushFunc :: "env \<Rightarrow> string list \<Rightarrow> db \<Rightarrow> db \<times> result" where
  "listPushFunc E args sm =
     (if args = [] then (sm, Fail noKey)
      else let key = args ! 0 in
        if \<not> IsValidKey key then (sm, Fail badKey)
        else fetch E sm key (\<lambda>sm ob.
          case (case ob of None \<Rightarrow> Some None | Some obj \<Rightarrow> unm_arr (Value obj)) of
            None \<Rightarrow> (sm, Fail (JsonError InvalidCharacterError))
          | Some arr0 \<Rightarrow>
              let arr = append_args arr0 (drop 1 args)
              in store E sm key (SliceToByte arr) KList (Resp (Itoa (int (length (elems arr)))))))"

text \<open>\<^verbatim>\<open>LIST.POP\<close>: a list of one element is removed; a last element that is null is left.\<close>

definition listPopFunc :: "env \<Rightarrow> string list \<Rightarrow> db \<Rightarrow> db \<times> result" where
  "listPopFunc E args sm =
     (if args = [] then (sm, Fail noKey)
      else let key = args ! 0 in
        if \<not> IsValidKey key then (sm, Fail badKey)
        else fetch E sm key (\<lambda>sm ob.
          case ob of
            None \<Rightarrow> (sm, Resp [])
          | Some obj \<Rightarrow>
              (case unm_arr (Value obj) of
                 None \<Rightarrow> (sm, Fail (JsonError InvalidCharacterError))
               | Some a \<Rightarrow>
                   if KList \<noteq> Kind obj then (sm, Fail notList)
                   else let arr = elems a; len = length arr in
                     if len = 0 then (sm, Resp [])
                     else if len = 1 then erase E sm key (Resp (ObjectToByte (arr ! 0)))
                     else let last = arr ! (len - 1); arr' = take (len - 1) arr in
                       if last = JNull then (sm, Resp [])
                       else store E sm key (SliceToByte (Some (take (len - 1) arr'))) KList
                              (Resp (ObjectToByte last)))))"

text \<open>\<^verbatim>\<open>LIST.GPOP\<close> stores a new object and logs the old one with the new value.\<close>

definition listGPopFunc :: "env \<Rightarrow> string list \<Rightarrow> db \<Rightarrow> db \<times> result" where
  "listGPopFunc E args sm =
     (if args = [] then (sm, Fail noKey)
      else let key = args ! 0 in
        if \<not> IsValidKey key then (sm, Fail badKey)
        else fetch E sm key (\<lambda>sm ob.
          case ob of
            None \<Rightarrow> (sm, Fail (CmdError InvalidKeyError ''key does not exist''))
          | Some obj \<Rightarrow>
              (case unm_arr (Value obj) of
                 None \<Rightarrow> (sm, Fail (JsonError InvalidCharacterError))
               | Some a \<Rightarrow>
                   if KList \<noteq> Kind obj then (sm, Fail notList)
                   else let arr = elems a in
                     if length arr = 0 then (sm, Resp [])
                     else let last = arr ! (length arr - 1);
                              objBytes = SliceToByte (Some (take (length arr - 1) arr))
                          in on_shard sm key (\<lambda>m.
                               log_put E key (obj\<lparr>Value := objBytes\<rparr>)
                                 (with_mem sm key (Set key objBytes KList m))
                                 (Resp (ObjectToByte last))))))"

definition listISetFunc :: "env \<Rightarrow> string list \<Rightarrow> db \<Rightarrow> db \<times> result" where
  "listISetFunc E args sm =
     (if args = [] then (sm, Fail noKey)
      else if length args \<noteq> 3 then
        (sm, Fail (CmdError InvalidArgsError
          ''invalid number of arguments,Syntax: LIST.SET <key> <index> <value>''))
      else let key = args ! 0 in
        case ParseInt (args ! 1) of
          None \<Rightarrow> (sm, Fail badIndex)
        | Some index \<Rightarrow>
            if index < 0 then (sm, Fail badIndex)
            else let element = args ! 2 in
              if \<not> IsValidKey key then (sm, Fail badKey)
              else fetch E sm key (\<lambda>sm ob.
                let data = EnsureUnmarshal element in
                case ob of
                  None \<Rightarrow>
                    if 0 < index then (sm, Fail outOfRange)
                    else store E sm key (SliceToByte (Some [data])) KList (Resp [])
                | Some obj \<Rightarrow>
                    (case unm_arr (Value obj) of
                       None \<Rightarrow> (sm, Fail (JsonError InvalidCharacterError))
                     | Some a \<Rightarrow>
                         let arr = elems a in
                         if int (length arr) \<le> index then (sm, Fail outOfRange)
                         else store E sm key (SliceToByte (Some (arr[nat index := data]))) KList (Resp []))))"

definition listGetFunc :: "env \<Rightarrow> string list \<Rightarrow> db \<Rightarrow> db \<times> result" where
  "listGetFunc E args sm =
     (if args = [] then (sm, Fail noKey)
      else if length args > 2 then (sm, Fail badCount)
      else let key = args ! 0 in
        if \<not> IsValidKey key then (sm, Fail badKey)
        else fetch E sm key (\<lambda>sm ob.
          case ob of
            None \<Rightarrow> (sm, Resp [])
          | Some obj \<Rightarrow>
              if KList \<noteq> Kind obj then (sm, Fail mustBeList)
              else (case unm_arr (Value obj) of
                 None \<Rightarrow> (sm, Fail (JsonError InvalidCharacterError))
               | Some a \<Rightarrow>
                   if length args = 2 then
                     (case ParseInt (args ! 1) of
                        None \<Rightarrow> (sm, Fail badIndex)
                      | Some index \<Rightarrow>
                          if index < 0 then (sm, Fail badIndex)
                          else if int (length (elems a)) \<le> index then (sm, Fail outOfRange)
                          else (sm, Resp (ObjectToByte (elems a ! nat index))))
                   else (sm, Resp (SliceToByte a)))))"

definition listLenFunc :: "env \<Rightarrow> string list \<Rightarrow> db \<Rightarrow> db \<times> result" where
  "listLenFunc E args sm =
     (if args = [] then (sm, Fail noKey)
      else if length args \<noteq> 1 then
        (sm, Fail (CmdError InvalidArgsError ''invalid number of arguments, Syntax: LIST.LEN <key>''))
      else let key = args ! 0 in
        if \<not> IsValidKey key then (sm, Fail badKey)
        else fetch E sm key (\<lambda>sm ob.
          case ob of
            None \<Rightarrow> (sm, Resp ''0'')
          | Some obj \<Rightarrow>
              if KList \<noteq> Kind obj then (sm, Fail mustBeList)
              else (case unm_arr (Value obj) of
                 None \<Rightarrow> (sm, Fail (JsonError InvalidCharacterError))
               | Some a \<Rightarrow> (sm, Resp (Itoa (int (length (elems a))))))))"

section \<open>LIST.FIND\<close>

definition ParseBool :: "string \<Rightarrow> bool option" where
  "ParseBool s =
     (if s \<in> set [''1'', ''t'', ''T'', ''TRUE'', ''true'', ''True''] then Some True
      else if s \<in> set [''0'', ''f'', ''F'', ''FALSE'', ''false'', ''False''] then Some False
      else None)"

definition valueEqual :: "string \<Rightarrow> string \<Rightarrow> bool" where
  "valueEqual a b =
     (case (ParseBool a, ParseBool b) of
        (Some ab, Some bb) \<Rightarrow> ab = bb
      | _ \<Rightarrow>
          (case (ParseFloat a, ParseFloat b) of
             (Some af, Some bf) \<Rightarrow> f_eq af bf
           | _ \<Rightarrow> a = b))"

definition compareFloat :: "string \<Rightarrow> string \<Rightarrow> string \<Rightarrow> bool" where
  "compareFloat aStr bStr oper =
     (case (ParseFloat aStr, ParseFloat bStr) of
        (Some a, Some b) \<Rightarrow>
          if oper = ''>'' then f_less b a
          else if oper = ''<'' then f_less a b
          else if oper = ''>='' then f_le b a
          else if oper = ''<='' then f_le a b
          else False
      | _ \<Rightarrow> False)"

definition match :: "unicode \<Rightarrow> string \<Rightarrow> string \<Rightarrow> string \<Rightarrow> bool" where
  "match U left oper right =
     (if oper = '':'' then valueEqual left right
      else if oper = ''!'' then \<not> valueEqual left right
      else if oper = ''~'' then EqualFold U left right
      else if oper \<in> set [''>'', ''<'', ''>='', ''<=''] then compareFloat left right oper
      else False)"

text \<open>A missing part of the path reads as nil, and the walk fails only at a value that is no map.\<close>

fun nested_value :: "json \<Rightarrow> string list \<Rightarrow> json option" where
  "nested_value val [] = Some val"
| "nested_value val (part # parts) =
     (case as_map val of
        None \<Rightarrow> None
      | Some mm \<Rightarrow> nested_value (case map_lookup mm part of Some v \<Rightarrow> v | None \<Rightarrow> JNull) parts)"

definition getNestedValue :: "json \<Rightarrow> string \<Rightarrow> string option" where
  "getNestedValue m path =
     (case nested_value m (Split (CHR ''.'') path) of None \<Rightarrow> None | Some v \<Rightarrow> Some (fmt_any v))"

definition keeps :: "unicode \<Rightarrow> string \<times> string \<times> string \<Rightarrow> json \<Rightarrow> bool" where
  "keeps U p item =
     (case p of (field, oper, value) \<Rightarrow>
        if as_map item \<noteq> None then
          (if field = [] then False
           else case getNestedValue item field of
             None \<Rightarrow> False
           | Some val \<Rightarrow> match U val oper value)
        else (if field \<noteq> [] then False else match U (fmt_any item) oper value))"

text \<open>No match at all leaves a nil slice.\<close>

definition Filter :: "unicode \<Rightarrow> json list \<Rightarrow> string \<Rightarrow> json list option" where
  "Filter U data path =
     (let p = ParsePath path; r = filter (keeps U p) data in if r = [] then None else Some r)"

definition listFilterFunc :: "env \<Rightarrow> string list \<Rightarrow> db \<Rightarrow> db \<times> result" where
  "listFilterFunc E args sm =
     (if args = [] then (sm, Fail noKey)
      else if length args \<noteq> 2 then
        (sm, Fail (CmdError InvalidArgsError
          ''invalid number of arguments, Syntax: LIST.FIND <key> <path>''))
      else let key = args ! 0; path = args ! 1 in
        if \<not> IsValidKey key then (sm, Fail badKey)
        else fetch E sm key (\<lambda>sm ob.
          case ob of
            None \<Rightarrow> (sm, Resp [])
          | Some obj \<Rightarrow>
              if KList \<noteq> Kind obj then (sm, Fail mustBeList)
              else (case unm_arr (Value obj) of
                 None \<Rightarrow> (sm, Fail (JsonError InvalidCharacterError))
               | Some a \<Rightarrow>
                   if length (elems a) = 0 then (sm, Resp [])
                   else (sm, Resp (SliceToByte (Filter (euni E) (elems a) path))))))"

section \<open>Invariants\<close>

context request_inv
begin

lemma list_read_J:
  assumes "I sm"
  shows "J (fst (listGetFunc E args sm))" "J (fst (listLenFunc E args sm))"
    "J (fst (listFilterFunc E args sm))"
  using assms
  by (auto simp: listGetFunc_def listLenFunc_def listFilterFunc_def Let_def I_J
      intro!: fetch_I split: option.split)

lemma list_write_J:
  assumes "I sm" and "args \<noteq> [] \<Longrightarrow> writable (args ! 0)"
  shows "J (fst (listSetFunc E args sm))" "J (fst (listPushFunc E args sm))"
    "J (fst (listPopFunc E args sm))" "J (fst (listISetFunc E args sm))"
  using assms
  by (auto simp: listSetFunc_def listPushFunc_def listPopFunc_def listISetFunc_def Let_def I_J
      intro!: fetch_I store_J erase_J split: option.split)

text \<open>\<^verbatim>\<open>LIST.GPOP\<close> needs a law of its own: what it logs may differ in the expiration time.\<close>

lemma listGPop_J:
  assumes "I sm" and "args \<noteq> [] \<Longrightarrow> writable (args ! 0)"
    and "\<And>sm key ob v r. I sm \<Longrightarrow> writable key \<Longrightarrow> gm_get (mem_of sm key) key = Some ob \<Longrightarrow>
      J (fst (log_put E key (ob\<lparr>Value := v\<rparr>) (with_mem sm key (Set key v (Kind ob) (mem_of sm key))) r))"
  shows "J (fst (listGPopFunc E args sm))"
proof -
  have "J (fst (log_put E key (ob\<lparr>Value := v\<rparr>) (with_mem sm' key (Set key v KList (mem_of sm' key))) r))"
    if "I sm'" "writable key" "gm_get (mem_of sm' key) key = Some ob" "KList = Kind ob" for sm' key ob v r
    using assms(3) [OF that(1-3)] that(4) by simp
  then show ?thesis
    using assms(1,2)
    by (auto simp: listGPopFunc_def Let_def I_J on_shard_I intro!: fetch_I split: option.split)
qed

end

end
