(* ===== verification/Cmd_Map.thy ===== *)
theory Cmd_Map
  imports Cmd_Base
begin

text \<open>
  The commands of \<^verbatim>\<open>src/commander/map_cmd/\<close>: MAP.SET, MAP.CSET, MAP.DEL and MAP.GET.  An empty
  map key is reported with the message of an error that is nil, which panics.
\<close>

definition mapArgs :: cmd_error where
  "mapArgs = CmdError InvalidArgsError
     ''More then 2 args not supported, Supported args Key or key and mapKey''"

definition notMap :: cmd_error where
  "notMap = CmdError InvalidValueError
     ''The current value associated with the provided key must be a Map type''"

text \<open>A map that json.Unmarshal made nil (the document \<^verbatim>\<open>null\<close>) cannot be assigned to.\<close>

definition mapSetKey :: "env \<Rightarrow> string list \<Rightarrow> db \<Rightarrow> db \<times> result" where
  "mapSetKey E args sm =
     (if args = [] \<or> length args \<noteq> 3 then
        (sm, Fail (CmdError InvalidArgsError
          ''Key mapKey, and value must be provided, Syntax: MAP.SET <key> <mapKey> <value>''))
      else let key = args ! 0; mk = args ! 1; value = args ! 2 in
        if \<not> IsValidKey key then (sm, Fail badKey)
        else if \<not> IsValidString mk then (sm, Crash)
        else fetch E sm key (\<lambda>sm ob.
          case ob of
            None \<Rightarrow>
              let m = gm_upd mk (EnsureUnmarshal value) []
              in store E sm key (MapToByte (Some m)) KMap (Resp [])
          | Some obj \<Rightarrow>
              (case unm_map (Value obj) of
                 None \<Rightarrow> (sm, Fail (JsonError InvalidCharacterError))
               | Some m \<Rightarrow>
                   if KMap \<noteq> Kind obj then (sm, Fail notMap)
                   else (case m of
                      None \<Rightarrow> (sm, Crash)
                    | Some ps \<Rightarrow>
                        store E sm key (MapToByte (Some (gm_upd mk (EnsureUnmarshal value) ps))) KMap
                          (Resp [])))))"

definition mapCSetKey :: "env \<Rightarrow> string list \<Rightarrow> db \<Rightarrow> db \<times> result" where
  "mapCSetKey E args sm =
     (if args = [] \<or> length args \<noteq> 3 then
        (sm, Fail (CmdError InvalidArgsError ''Key mapKey, and value must be provided''))
      else let key = args ! 0; mk = args ! 1; value = args ! 2 in
        if \<not> IsValidKey key then (sm, Fail badKey)
        else if \<not> IsValidString mk then (sm, Crash)
        else on_shard sm key (\<lambda>m.
          let sm' = with_mem sm key (fst (Delete key m));
              mp = gm_upd mk (EnsureUnmarshal value) []
          in store E sm' key (MapToByte (Some mp)) KMap (Resp [])))"

text \<open>\<^verbatim>\<open>MAP.DEL\<close> writes the new value into the object that is in the store, whose expiration time
  stays.\<close>

definition mapDeleteKey :: "env \<Rightarrow> string list \<Rightarrow> db \<Rightarrow> db \<times> result" where
  "mapDeleteKey E args sm =
     (if args = [] \<or> length args > 2 then (sm, Fail mapArgs)
      else let key = args ! 0 in
        if \<not> IsValidKey key then (sm, Fail badKey)
        else if length args = 1 then erase E sm key (Resp [])
        else let mk = args ! 1 in
          if \<not> IsValidString mk then (sm, Crash)
          else fetch E sm key (\<lambda>sm ob.
            case ob of
              None \<Rightarrow> (sm, Resp [])
            | Some obj \<Rightarrow>
                (case unm_map (Value obj) of
                   None \<Rightarrow> (sm, Fail (JsonError InvalidCharacterError))
                 | Some mo \<Rightarrow>
                     if KMap \<noteq> Kind obj then (sm, Fail notMap)
                     else if length (case mo of Some ps \<Rightarrow> ps | None \<Rightarrow> []) = 1
                     then erase E sm key (Resp [])
                     else let obj' = obj\<lparr>Value := MapToByte (map_option (gm_del mk) mo)\<rparr>
                          in on_shard sm key (\<lambda>m.
                               log_put E key obj' (with_mem sm key (gm_upd key obj' m)) (Resp [])))))"

definition mapGetKey :: "env \<Rightarrow> string list \<Rightarrow> db \<Rightarrow> db \<times> result" where
  "mapGetKey E args sm =
     (if args = [] \<or> length args > 2 then (sm, Fail mapArgs)
      else let key = args ! 0 in
        if \<not> IsValidKey key then (sm, Fail badKey)
        else fetch E sm key (\<lambda>sm ob.
          case ob of
            None \<Rightarrow> (sm, Resp [])
          | Some obj \<Rightarrow>
              if length args = 2 then
                (case unm_map (Value obj) of
                   None \<Rightarrow> (sm, Fail (JsonError InvalidCharacterError))
                 | Some mapData \<Rightarrow>
                     let mk = args ! 1 in
                     if \<not> IsValidString mk then (sm, Crash)
                     else (case map_lookup mapData mk of
                        Some val \<Rightarrow> (sm, Resp (case enc val of Some d \<Rightarrow> d | None \<Rightarrow> []))
                      | None \<Rightarrow> (sm, Resp [])))
              else (sm, Resp (Value obj))))"

section \<open>Invariants\<close>

context request_inv
begin

lemma mapGetKey_J: "I sm \<Longrightarrow> J (fst (mapGetKey E args sm))"
  by (auto simp: mapGetKey_def Let_def I_J intro!: fetch_I split: option.split)

lemma mapSetKey_J:
  assumes "I sm" and "args \<noteq> [] \<Longrightarrow> writable (args ! 0)"
  shows "J (fst (mapSetKey E args sm))"
  using assms
  by (auto simp: mapSetKey_def Let_def I_J intro!: fetch_I store_J split: option.split)

lemma mapDeleteKey_J:
  assumes "I sm" and "args \<noteq> [] \<Longrightarrow> writable (args ! 0)"
  shows "J (fst (mapDeleteKey E args sm))"
proof -
  have "okob (ob\<lparr>Value := v\<rparr>)" if "I sm'" "gm_get (mem_of sm' key) key = Some ob" for sm' key ob v
    using I_ok [OF that] by (rule ok_value)
  then show ?thesis
    using assms
    by (auto simp: mapDeleteKey_def Let_def I_J on_shard_I intro!: fetch_I erase_J put split: option.split)
qed

lemma mapCSetKey_J:
  assumes "I sm" and "args \<noteq> [] \<Longrightarrow> writable (args ! 0)"
  shows "J (fst (mapCSetKey E args sm))"
proof -
  have "store E (with_mem sm k (fst (Delete k (mem_of sm k)))) k v kd r = store E sm k v kd r" for k v kd r
  proof -
    have "gm_upd k ob (fst (Delete k (mem_of sm k))) = gm_upd k ob (mem_of sm k)" for ob
      using assms(1) by (intro gm_ok_eqI) (auto simp: Delete_def)
    then show ?thesis
      using I_wf [OF assms(1)]
      by (simp add: store_def on_shard_wf Set_def with_mem_with_mem)
  qed
  then show ?thesis
    using assms by (auto simp: mapCSetKey_def Let_def I_J on_shard_I intro!: store_J)
qed

end

end
