(* ===== verification/Cmd_Json.thy ===== *)
theory Cmd_Json
  imports Cmd_Common
begin

text \<open>
  The commands of \<^verbatim>\<open>src/commander/json_cmd/\<close>: JSON.SET, JSON.ADD, JSON.GET with references,
  JSON.PGET, JSON.MERGE, JSON.REMOVE and JSON.SETREF.  The code walks and changes nested maps
  in place; here each walk rebuilds the maps on its path, which is the same since decoded
  documents share nothing.
\<close>

definition mustBeJson :: cmd_error where
  "mustBeJson = CmdError InvalidValueError
     ''The current value associated with the provided key must be a json object''"

definition notJson :: cmd_error where
  "notJson = CmdError InvalidValueError ''provided value not a valid json object''"

section \<open>Adding and removing at a path\<close>

text \<open>The loop of \<^verbatim>\<open>addNestedKey\<close>.  Nothing has been written when it meets a value that is no map;
  a nil map on the way cannot be written to.\<close>

fun add_keys :: "json gomap \<Rightarrow> string list \<Rightarrow> json \<Rightarrow> (unit, json gomap) outcome" where
  "add_keys current [] value = Ret current"
| "add_keys current (key # keys) value =
     (if keys = [] then Ret (gm_upd key value current)
      else case gm_get current key of
        None \<Rightarrow>
          (case add_keys [] keys value of
             Ret nextMap \<Rightarrow> Ret (gm_upd key (JObj nextMap) current)
           | Err e \<Rightarrow> Err e | Panic \<Rightarrow> Panic)
      | Some val \<Rightarrow>
          (case as_map val of
             None \<Rightarrow> Err ()
           | Some None \<Rightarrow> Panic
           | Some (Some nextMap0) \<Rightarrow>
               (case add_keys nextMap0 keys value of
                  Ret nextMap \<Rightarrow> Ret (gm_upd key (JObj nextMap) current)
                | Err e \<Rightarrow> Err e | Panic \<Rightarrow> Panic)))"

definition addNestedKey :: "json gomap option \<Rightarrow> string \<Rightarrow> json \<Rightarrow> (unit, json gomap) outcome" where
  "addNestedKey obj path value =
     add_keys (case obj of Some ps \<Rightarrow> ps | None \<Rightarrow> []) (Split (CHR ''.'') path) value"

text \<open>The loop of \<^verbatim>\<open>removeNestedKey\<close>: \<open>None\<close> for its error.\<close>

fun remove_keys :: "json gomap \<Rightarrow> string list \<Rightarrow> json gomap option" where
  "remove_keys current [] = Some current"
| "remove_keys current (key # keys) =
     (if keys = [] then Some (gm_del key current)
      else case gm_get current key of
        None \<Rightarrow> Some current
      | Some val \<Rightarrow>
          (case as_map val of
             None \<Rightarrow> None
           | Some None \<Rightarrow> Some current
           | Some (Some nextMap) \<Rightarrow>
               (case remove_keys nextMap keys of
                  None \<Rightarrow> None
                | Some m \<Rightarrow> Some (gm_upd key (JObj m) current))))"

definition removeNestedKey :: "json gomap option \<Rightarrow> string \<Rightarrow> json gomap option option" where
  "removeNestedKey obj path =
     (case obj of
        None \<Rightarrow> Some None
      | Some ps \<Rightarrow> map_option Some (remove_keys ps (Split (CHR ''.'') path)))"

section \<open>Merging\<close>

text \<open>\<^verbatim>\<open>mergeObjects\<close>: \<open>merge_into\<close> is its second loop, over the members of the new object.\<close>

definition members_of :: "json gomap option \<Rightarrow> json gomap" where
  "members_of m = (case m of Some ps \<Rightarrow> ps | None \<Rightarrow> [])"

fun merge_val :: "json \<Rightarrow> json \<Rightarrow> json"
  and merge_into :: "json gomap \<Rightarrow> (string \<times> json) list \<Rightarrow> json gomap" where
  "merge_val e (JObj n) =
     (case as_map e of Some em \<Rightarrow> JObj (merge_into (members_of em) n) | None \<Rightarrow> JObj n)"
| "merge_val e JNilMap = (case as_map e of Some em \<Rightarrow> JObj (members_of em) | None \<Rightarrow> JNilMap)"
| "merge_val e JNull = JNull"
| "merge_val e (JBool b) = JBool b"
| "merge_val e (JNum x) = JNum x"
| "merge_val e (JStr s) = JStr s"
| "merge_val e (JArr vs) = JArr vs"
| "merge_into r [] = r"
| "merge_into r ((k, v) # ps) =
     merge_into (gm_upd k (case gm_get r k of Some e \<Rightarrow> merge_val e v | None \<Rightarrow> v) r) ps"

definition mergeObjects :: "json gomap option \<Rightarrow> json gomap option \<Rightarrow> json gomap" where
  "mergeObjects existing new = merge_into (members_of existing) (members_of new)"

section \<open>References\<close>

datatype ref_result = RefOk | RefErr | RefCrash

definition ref_prefix :: string where
  "ref_prefix = ''$ref:''"

text \<open>\<^verbatim>\<open>resolveReference\<close>: the referenced document is put beside the reference, under its name with
  an underscore in front.\<close>

fun resolve_keys ::
  "env \<Rightarrow> db \<Rightarrow> json gomap option \<Rightarrow> string list \<Rightarrow> db \<times> json gomap option \<times> ref_result" where
  "resolve_keys E sm current [] = (sm, current, RefOk)"
| "resolve_keys E sm current (key # keys) =
     (case map_lookup current key of
        None \<Rightarrow> (sm, current, RefErr)
      | Some val \<Rightarrow>
          if keys = [] then
            (case val of
               JStr refValue \<Rightarrow>
                 if HasPrefix refValue ref_prefix then
                   let actualKey = TrimPrefix refValue ref_prefix in
                   (case GetShardByKey sm actualKey of
                      None \<Rightarrow> (sm, current, RefCrash)
                    | Some sh \<Rightarrow>
                        (case Get (now E) actualKey (M sh) of
                           (m', ob) \<Rightarrow>
                             let sm' = with_mem sm actualKey m' in
                             (case ob of
                                None \<Rightarrow> (sm', current, RefErr)
                              | Some refObj \<Rightarrow>
                                  (case unm_map (Value refObj) of
                                     None \<Rightarrow> (sm', current, RefErr)
                                   | Some refData \<Rightarrow>
                                       (sm', Some (gm_upd (CHR ''_'' # key) (any_of_map refData) (members_of current)),
                                        RefOk)))))
                 else (sm, current, RefOk)
             | _ \<Rightarrow> (sm, current, RefOk))
          else (case as_map val of
             None \<Rightarrow> (sm, current, RefErr)
           | Some nextMap \<Rightarrow>
               (case resolve_keys E sm nextMap keys of
                  (sm', next', r) \<Rightarrow>
                    (sm', Some (gm_upd key (any_of_map next') (members_of current)), r))))"

definition resolveReference ::
  "env \<Rightarrow> db \<Rightarrow> json gomap option \<Rightarrow> string \<Rightarrow> db \<times> json gomap option \<times> ref_result" where
  "resolveReference E sm obj refPath = resolve_keys E sm obj (Split (CHR ''.'') refPath)"

text \<open>\<^verbatim>\<open>refRead\<close> stops at the first error; what was resolved before stays.\<close>

fun refRead ::
  "env \<Rightarrow> db \<Rightarrow> json gomap option \<Rightarrow> string list \<Rightarrow> db \<times> json gomap option \<times> ref_result" where
  "refRead E sm obj [] = (sm, obj, RefOk)"
| "refRead E sm obj (refPath # refs) =
     (case resolveReference E sm obj refPath of
        (sm', obj', RefOk) \<Rightarrow> refRead E sm' obj' refs
      | (sm', obj', r) \<Rightarrow> (sm', obj', r))"

text \<open>The \<^verbatim>\<open>readNestedKey\<close> of this package: the empty path is the object itself.\<close>

definition jsonReadNestedKey :: "json gomap option \<Rightarrow> string \<Rightarrow> json option" where
  "jsonReadNestedKey obj path =
     (if path = [] then Some (any_of_map obj) else read_keys obj (Split (CHR ''.'') path))"

text \<open>\<^verbatim>\<open>readPNestedKey\<close> is not used by any command.\<close>

definition readPNestedKey :: "json gomap option \<Rightarrow> string \<Rightarrow> json option" where
  "readPNestedKey obj path = read_keys obj (Split (CHR ''.'') path)"

section \<open>The handlers\<close>

definition jsonSetFunc :: "env \<Rightarrow> string list \<Rightarrow> db \<Rightarrow> db \<times> result" where
  "jsonSetFunc E args sm =
     (if args = [] then (sm, Fail noKey)
      else if length args \<noteq> 2 then
        (sm, Fail (CmdError InvalidArgsError
          ''invalid number of arguments, Syntax: LIST.FILTER <key> <path>''))
      else let key = args ! 0; value = args ! 1 in
        if \<not> IsValidKey key then (sm, Fail badKey)
        else if \<not> Valid value then (sm, Fail notJson)
        else store E sm key value KJSON (Resp []))"

definition jsonAddFunc :: "env \<Rightarrow> string list \<Rightarrow> db \<Rightarrow> db \<times> result" where
  "jsonAddFunc E args sm =
     (if args = [] then (sm, Fail noKey)
      else if length args \<noteq> 3 then
        (sm, Fail (CmdError InvalidArgsError
          ''invalid number of arguments, Syntax: JSON.ADD <key> <path> <value>''))
      else let key = args ! 0; path = args ! 1; value = args ! 2 in
        if \<not> IsValidKey key then (sm, Fail badKey)
        else fetch E sm key (\<lambda>sm ob.
          case ob of
            None \<Rightarrow>
              (case addNestedKey None path (EnsureUnmarshal value) of
                 Err _ \<Rightarrow> (sm, Fail (PathError path))
               | Panic \<Rightarrow> (sm, Crash)
               | Ret d \<Rightarrow>
                   let objBytes = MapToByte (Some d)
                   in store E sm key objBytes KJSON (Resp objBytes))
          | Some obj \<Rightarrow>
              if KJSON \<noteq> Kind obj then (sm, Fail mustBeJson)
              else (case unm_map (Value obj) of
                 None \<Rightarrow> (sm, Fail (JsonError InvalidCharacterError))
               | Some m \<Rightarrow>
                   (case addNestedKey m path (EnsureUnmarshal value) of
                      Err _ \<Rightarrow> (sm, Fail (PathError path))
                    | Panic \<Rightarrow> (sm, Crash)
                    | Ret d \<Rightarrow>
                        let objBytes = MapToByte (Some d)
                        in store E sm key objBytes KJSON (Resp objBytes)))))"

definition jsonGetFunc :: "env \<Rightarrow> string list \<Rightarrow> db \<Rightarrow> db \<times> result" where
  "jsonGetFunc E args sm =
     (if args = [] then (sm, Fail noKey)
      else let key = args ! 0 in
        if \<not> IsValidKey key then (sm, Fail badKey)
        else fetch E sm key (\<lambda>sm ob.
          case ob of
            None \<Rightarrow> (sm, Resp [])
          | Some obj \<Rightarrow>
              if KJSON \<noteq> Kind obj then (sm, Fail mustBeJson)
              else if length args = 1 then (sm, Resp (Value obj))
              else let path = args ! 1 in
                (case unm_map (Value obj) of
                   None \<Rightarrow> (sm, Fail (JsonError InvalidCharacterError))
                 | Some m \<Rightarrow>
                     (case (if 2 < length args then refRead E sm m (drop 2 args) else (sm, m, RefOk)) of
                        (sm', m', r) \<Rightarrow>
                          if r = RefCrash then (sm', Crash)
                          else let d = or_nil (jsonReadNestedKey m' path) in
                            if d = JNull then (sm', Resp []) else (sm', Resp (ObjectToByte d))))))"

definition jsonPGetFunc :: "env \<Rightarrow> string list \<Rightarrow> db \<Rightarrow> db \<times> result" where
  "jsonPGetFunc E args sm =
     (if args = [] then (sm, Fail noKey)
      else if length args > 2 then
        (sm, Fail (CmdError InvalidArgsError
          ''invalid number of arguments, Syntax: JSON.GET <key> [<path>]''))
      else let key = args ! 0 in
        if \<not> IsValidKey key then (sm, Fail badKey)
        else fetch E sm key (\<lambda>sm ob.
          case ob of
            None \<Rightarrow> (sm, Resp [])
          | Some obj \<Rightarrow>
              if KJSON \<noteq> Kind obj then (sm, Fail mustBeJson)
              else if length args = 1 then (sm, Resp (Value obj))
              else let path = args ! 1 in
                (case unm_map (Value obj) of
                   None \<Rightarrow> (sm, Fail (JsonError InvalidCharacterError))
                 | Some m \<Rightarrow>
                     let d = or_nil (jsonReadNestedKey m path) in (sm, Resp (ObjectToByte d)))))"

definition jsonMergeFunc :: "env \<Rightarrow> string list \<Rightarrow> db \<Rightarrow> db \<times> result" where
  "jsonMergeFunc E args sm =
     (if args = [] then (sm, Fail noKey)
      else if length args \<noteq> 2 then
        (sm, Fail (CmdError InvalidArgsError
          ''invalid number of arguments, Syntax: JSON.MERGE <key> <value>''))
      else let key = args ! 0; value = args ! 1 in
        if \<not> IsValidKey key then (sm, Fail badKey)
        else fetch E sm key (\<lambda>sm ob.
          case ob of
            None \<Rightarrow>
              let objBytes = ObjectToByte (EnsureUnmarshal value)
              in store E sm key objBytes KJSON (Resp objBytes)
          | Some obj \<Rightarrow>
              if KJSON \<noteq> Kind obj then (sm, Fail mustBeJson)
              else (case unm_map (Value obj) of
                 None \<Rightarrow> (sm, Fail (JsonError InvalidCharacterError))
               | Some existingObj \<Rightarrow>
                   (case as_map (EnsureUnmarshal value) of
                      None \<Rightarrow>
                        (sm, Fail (CmdError InvalidValueError ''The value to merge must be a JSON object''))
                    | Some newObj \<Rightarrow>
                        let objBytes = MapToByte (Some (mergeObjects existingObj newObj))
                        in store E sm key objBytes KJSON (Resp objBytes)))))"

definition jsonRemoveFunc :: "env \<Rightarrow> string list \<Rightarrow> db \<Rightarrow> db \<times> result" where
  "jsonRemoveFunc E args sm =
     (if args = [] then (sm, Fail noKey)
      else let key = args ! 0 in
        if \<not> IsValidKey key then (sm, Fail badKey)
        else fetch E sm key (\<lambda>sm ob.
          case ob of
            None \<Rightarrow> (sm, Resp [])
          | Some obj \<Rightarrow>
              if KJSON \<noteq> Kind obj then (sm, Fail mustBeJson)
              else if length args = 1 then erase E sm key (Resp [])
              else (case unm_map (Value obj) of
                 None \<Rightarrow> (sm, Fail (JsonError InvalidCharacterError))
               | Some m \<Rightarrow>
                   let path = args ! 1 in
                   (case removeNestedKey m path of
                      None \<Rightarrow> (sm, Fail (PathError path))
                    | Some d \<Rightarrow>
                        let objBytes = MapToByte d
                        in store E sm key objBytes KJSON (Resp objBytes)))))"

text \<open>The loop of \<^verbatim>\<open>JSON.SETREF\<close> over its references, in the order of a Go map (\<open>ref_order\<close>).  The
  result of \<^verbatim>\<open>addNestedKey\<close> is dropped: it has changed \<open>m\<close> in place, unless it failed or \<open>m\<close> is
  nil.\<close>

definition set_ref :: "json gomap option \<Rightarrow> string \<Rightarrow> string \<Rightarrow> json gomap option option" where
  "set_ref m k v =
     (case addNestedKey m k (JStr (ref_prefix @ v)) of
        Ret d \<Rightarrow> Some (if m = None then None else Some d)
      | Err _ \<Rightarrow> Some m
      | Panic \<Rightarrow> None)"

fun setref_loop ::
  "env \<Rightarrow> db \<Rightarrow> json gomap option \<Rightarrow> (string \<times> string) list
    \<Rightarrow> (db \<Rightarrow> json gomap option \<Rightarrow> db \<times> result) \<Rightarrow> db \<times> result" where
  "setref_loop E sm m [] kont = kont sm m"
| "setref_loop E sm m ((k, v) # refs) kont =
     (if StrictMode E then
        fetch E sm v (\<lambda>sm ob.
          case ob of
            None \<Rightarrow> (sm, Fail (CmdError InvalidReferenceError (''reference key '' @ v @ '' not found'')))
          | Some _ \<Rightarrow>
              (case set_ref m k v of None \<Rightarrow> (sm, Crash) | Some m' \<Rightarrow> setref_loop E sm m' refs kont))
      else (case set_ref m k v of None \<Rightarrow> (sm, Crash) | Some m' \<Rightarrow> setref_loop E sm m' refs kont))"

definition jsonRefSetFunc :: "env \<Rightarrow> string list \<Rightarrow> db \<Rightarrow> db \<times> result" where
  "jsonRefSetFunc E args sm =
     (if args = [] then (sm, Fail noKey)
      else if length args \<noteq> 3 then
        (sm, Fail (CmdError InvalidArgsError
          ''invalid number of arguments, Syntax: JSON.SETREF <key> <value> <ref_object>''))
      else let key = args ! 0; value = args ! 1; refObject = args ! 2 in
        if \<not> IsValidKey key then (sm, Fail badKey)
        else if \<not> Valid value then (sm, Fail notJson)
        else if \<not> Valid refObject then
          (sm, Fail (CmdError InvalidValueError ''provided refObject not a valid json object''))
        else case unm_strmap refObject of
          None \<Rightarrow> (sm, Fail (JsonError InvalidCharacterError))
        | Some ref \<Rightarrow>
            (case unm_map value of
               None \<Rightarrow> (sm, Fail (JsonError InvalidCharacterError))
             | Some m \<Rightarrow>
                 setref_loop E sm m (ref_order E (case ref of Some ps \<Rightarrow> ps | None \<Rightarrow> [])) (\<lambda>sm m.
                   store E sm key (MapToByte m) KJSON (Resp []))))"

section \<open>Invariants\<close>

context request_inv
begin

lemma get_I:
  assumes "I sm"
  shows "I (with_mem sm key (fst (Get (now E) key (mem_of sm key))))"
  using assms drop [OF assms, of key]
  by (auto simp: Get_def with_mem_same split: option.split)

lemma GetShard_I: "I sm \<Longrightarrow> \<exists>sh. GetShardByKey sm key = Some sh \<and> M sh = mem_of sm key"
  using sm_wf_shard [OF I_wf, of sm key] by (auto simp: mem_of_def)

lemma resolve_keys_I: "I sm \<Longrightarrow> I (fst (resolve_keys E sm current keys))"
proof (induction keys arbitrary: sm current)
  case (Cons key keys)
  show ?case
  proof (cases "map_lookup current key")
    case (Some val)
    show ?thesis
    proof (cases "keys = []")
      case True
      {
        fix s assume v: "val = JStr s" and p: "HasPrefix s ref_prefix"
        let ?a = "TrimPrefix s ref_prefix"
        obtain sh where sh: "GetShardByKey sm ?a = Some sh" "M sh = mem_of sm ?a"
          using GetShard_I [OF Cons.prems] by blast
        have "I (with_mem sm ?a (fst (Get (now E) ?a (mem_of sm ?a))))"
          by (rule get_I) (rule Cons.prems)
        then have ?thesis
          using Some True v p sh by (auto simp: Let_def split: prod.split option.split)
      }
      then show ?thesis using Some True Cons.prems by (cases val) auto
    next
      case False
      have "I (fst (resolve_keys E sm m keys))" for m using Cons.prems by (rule Cons.IH)
      then show ?thesis
        using Some False Cons.prems by (auto split: option.split prod.split) (metis fst_conv)
    qed
  qed (simp add: Cons.prems)
qed simp

lemma refRead_I: "I sm \<Longrightarrow> I (fst (refRead E sm obj refs))"
proof (induction refs arbitrary: sm obj)
  case (Cons r refs)
  have "I (fst (resolveReference E sm obj r))"
    using Cons.prems by (simp add: resolveReference_def resolve_keys_I)
  with Cons.IH show ?case by (auto split: prod.split ref_result.split)
qed simp

lemma jsonGetFunc_J: "I sm \<Longrightarrow> J (fst (jsonGetFunc E args sm))"
proof -
  assume i: "I sm"
  have "I s" if "I sm'" "refRead E sm' m refs = (s, m', r)" for sm' m refs s m' r
    using refRead_I [OF that(1), of m refs] that(2) by simp
  with i show ?thesis
    by (auto simp: jsonGetFunc_def Let_def I_J intro!: fetch_I split: option.split prod.split)
qed

lemma jsonPGetFunc_J: "I sm \<Longrightarrow> J (fst (jsonPGetFunc E args sm))"
  by (auto simp: jsonPGetFunc_def Let_def I_J intro!: fetch_I split: option.split)

lemma setref_loop_J:
  "I sm \<Longrightarrow> (\<And>sm' m'. I sm' \<Longrightarrow> J (fst (k sm' m'))) \<Longrightarrow> J (fst (setref_loop E sm m refs k))"
  by (induction refs arbitrary: sm m) (auto simp: I_J intro!: fetch_I split: option.split)

lemma json_write_J:
  assumes "I sm" and "args \<noteq> [] \<Longrightarrow> writable (args ! 0)"
  shows "J (fst (jsonSetFunc E args sm))" "J (fst (jsonAddFunc E args sm))"
    "J (fst (jsonMergeFunc E args sm))" "J (fst (jsonRemoveFunc E args sm))"
    "J (fst (jsonRefSetFunc E args sm))"
  using assms
  by (auto simp: jsonSetFunc_def jsonAddFunc_def jsonMergeFunc_def jsonRemoveFunc_def
      jsonRefSetFunc_def Let_def I_J
      intro!: fetch_I store_J erase_J setref_loop_J split: option.split outcome.split)

end

end
