(* ===== verification/Commander.thy ===== *)
theory Commander
  imports Cmd_Common Cmd_Str_Num Cmd_List Cmd_Map Cmd_Json
begin

text \<open>
  The table of commands (\<^verbatim>\<open>Register\<close> in the \<^verbatim>\<open>init\<close> functions of \<^verbatim>\<open>src/commander/\<close>) and their
  dispatch, \<^verbatim>\<open>Cmd.Execute\<close> of \<^verbatim>\<open>src/commander/common/command.go\<close>; and what holds of every
  command: the rules of the handlers put together, and their instances.
\<close>

type_synonym handler = "env \<Rightarrow> string list \<Rightarrow> db \<Rightarrow> db \<times> result"

definition ExecCommands :: "(string \<times> handler) list" where
  "ExecCommands =
     [(''SET'', setKey), (''GET'', getKey), (''DELETE'', deleteKey), (''EXISTS'', existsFunc),
      (''PING'', echoBack), (''SESSION'', sessionAdd), (''STATUS'', serverStatus),
      (''TTL'', ttlKey), (''TTL.EXPIRE'', expireKey),
      (''STR.SET'', strSetFunc), (''STR.GET'', strGetFunc), (''STR.APPEND'', strAppendFunc),
      (''STR.LENGTH'', strLengthFunc), (''STR.RANGE'', strRangeFunc),
      (''NUM.SET'', numberSetFunc), (''NUM.GET'', numberGetFunc), (''NUM.INCR'', numberIncrFunc),
      (''NUM.DECR'', numberDecrFunc),
      (''LIST.SET'', listSetFunc), (''LIST.PUSH'', listPushFunc), (''LIST.POP'', listPopFunc),
      (''LIST.GPOP'', listGPopFunc), (''LIST.ISET'', listISetFunc), (''LIST.GET'', listGetFunc),
      (''LIST.LEN'', listLenFunc), (''LIST.FIND'', listFilterFunc),
      (''MAP.SET'', mapSetKey), (''MAP.CSET'', mapCSetKey), (''MAP.DEL'', mapDeleteKey),
      (''MAP.GET'', mapGetKey),
      (''JSON.SET'', jsonSetFunc), (''JSON.ADD'', jsonAddFunc), (''JSON.GET'', jsonGetFunc),
      (''JSON.PGET'', jsonPGetFunc), (''JSON.MERGE'', jsonMergeFunc),
      (''JSON.REMOVE'', jsonRemoveFunc), (''JSON.SETREF'', jsonRefSetFunc)]"

definition Execute :: "env \<Rightarrow> string \<Rightarrow> string list \<Rightarrow> db \<Rightarrow> db \<times> result" where
  "Execute E command args sm =
     (case map_of ExecCommands (ToUpper (euni E) command) of
        None \<Rightarrow> (sm, Fail (UnknownCommand command))
      | Some h \<Rightarrow> h E args sm)"

text \<open>The commands that are never allowed to change what a client can see.\<close>

definition read_only :: "string list" where
  "read_only = [''GET'', ''EXISTS'', ''PING'', ''SESSION'', ''STATUS'', ''STR.GET'', ''STR.LENGTH'',
     ''STR.RANGE'', ''NUM.GET'', ''LIST.GET'', ''LIST.LEN'', ''LIST.FIND'', ''MAP.GET'',
     ''JSON.GET'', ''JSON.PGET'']"

section \<open>Every handler keeps an invariant of requests\<close>

context request_inv
begin

text \<open>A command that reads.\<close>

lemma read_J:
  assumes "I sm" and "ToUpper (euni E) command \<in> set read_only"
  shows "J (fst (Execute E command args sm))"
  using assms(2)
  by (auto simp: read_only_def Execute_def ExecCommands_def getKey_J [OF assms(1)]
      existsFunc_J [OF assms(1)] read_only_J [OF assms(1)] str_read_J [OF assms(1)]
      list_read_J [OF assms(1)] mapGetKey_J [OF assms(1)] jsonGetFunc_J [OF assms(1)]
      jsonPGetFunc_J [OF assms(1)])

text \<open>Any command, its first argument being a key it may write.\<close>

lemma execute_J:
  assumes i: "I sm" and w: "args \<noteq> [] \<Longrightarrow> writable (args ! 0)"
    and expire: "\<And>s ob. ToUpper (euni E) command = ''TTL.EXPIRE'' \<Longrightarrow>
      ParseDurationToSeconds (args ! 1) = Some s \<Longrightarrow> 0 < s \<Longrightarrow> okob ob \<Longrightarrow>
      okob (ob\<lparr>Timestamp := i64 (now E + s)\<rparr>)"
    and persist: "\<And>ob. okob ob \<Longrightarrow> okob (ob\<lparr>Timestamp := 0\<rparr>)"
    and gpop: "\<And>sm key ob v r. ToUpper (euni E) command = ''LIST.GPOP'' \<Longrightarrow> I sm \<Longrightarrow> writable key \<Longrightarrow>
      gm_get (mem_of sm key) key = Some ob \<Longrightarrow>
      J (fst (log_put E key (ob\<lparr>Value := v\<rparr>) (with_mem sm key (Set key v (Kind ob) (mem_of sm key))) r))"
  shows "J (fst (Execute E command args sm))"
proof (cases "map_of ExecCommands (ToUpper (euni E) command)")
  case None
  then show ?thesis using i by (simp add: Execute_def I_J)
next
  case (Some h)
  then have c: "(ToUpper (euni E) command, h) \<in> set ExecCommands" by (rule map_of_SomeD)
  have x: "J (fst (expireKey E args sm))" if "ToUpper (euni E) command = ''TTL.EXPIRE''"
    by (rule expireKey_J [OF i w expire [OF that] persist]) assumption+
  have g: "J (fst (listGPopFunc E args sm))" if "ToUpper (euni E) command = ''LIST.GPOP''"
    by (rule listGPop_J [OF i w gpop [OF that]]) assumption+
  from c have "J (fst (h E args sm))"
    unfolding ExecCommands_def
    by (auto simp: setKey_J [OF i w] getKey_J [OF i] deleteKey_J [OF i w] existsFunc_J [OF i]
        read_only_J [OF i] ttlKey_J [OF i w] x str_read_J [OF i] str_write_J [OF i w]
        num_write_J [OF i w] list_read_J [OF i] list_write_J [OF i w] g mapGetKey_J [OF i]
        mapSetKey_J [OF i w] mapDeleteKey_J [OF i w] mapCSetKey_J [OF i w] json_write_J [OF i w]
        jsonGetFunc_J [OF i] jsonPGetFunc_J [OF i])
  with Some show ?thesis by (simp add: Execute_def)
qed

end

section \<open>Well-formed stores\<close>

lemma stored_log [simp]:
  "stored (fst (log_put E key ob sm r)) = stored sm" "stored (fst (log_del E key sm r)) = stored sm"
  "sm_wf (fst (log_put E key ob sm r)) = sm_wf sm" "sm_wf (fst (log_del E key sm r)) = sm_wf sm"
  by (auto simp: log_put_def log_del_def stored_def mem_of_def GetShardByKey_def sm_wf_def fun_eq_iff
      split: prod.split)

interpretation wf_inv: request_inv E "\<lambda>sm. in_i64 (now E) \<and> sm_wf sm" sm_wf "\<lambda>_. True" "\<lambda>_. True"
  for E
  by unfold_locales simp_all

section \<open>Frames\<close>

lemma visible_drop:
  assumes "sm_wf sm" and "gm_get (mem_of sm key) key = Some ob" and "0 < Timestamp ob"
    and "Timestamp ob < t"
  shows "visible t (with_mem sm key (gm_del key (mem_of sm key))) = visible t sm"
proof (rule ext)
  have "stored sm key = Some ob" using assms(2) by (simp add: stored_def)
  fix k
  show "visible t (with_mem sm key (gm_del key (mem_of sm key))) k = visible t sm k"
    using assms \<open>stored sm key = Some ob\<close> by (auto simp: visible_stored stored_same_node expired_def)
qed

lemma visible_drop_later:
  "sm_wf sm \<Longrightarrow> gm_get (mem_of sm key) key = Some ob \<Longrightarrow> 0 < Timestamp ob \<Longrightarrow> Timestamp ob < t \<Longrightarrow>
   t \<le> u \<Longrightarrow> visible u (with_mem sm key (gm_del key (mem_of sm key))) = visible u sm"
  by (rule visible_drop) auto

text \<open>What a client sees of a key stays when the command may not write that key.\<close>

interpretation frame_inv: request_inv E
  "\<lambda>sm. in_i64 (now E) \<and> sm_wf sm \<and> (\<forall>u. now E \<le> u \<longrightarrow> visible u sm k = x u)"
  "\<lambda>sm. sm_wf sm \<and> (\<forall>u. now E \<le> u \<longrightarrow> visible u sm k = x u)" "\<lambda>key. key \<noteq> k" "\<lambda>_. True"
  for E k x
  by unfold_locales (auto simp: visible_drop_later visible_stored stored_same_node)

text \<open>A command that may write no key changes nothing a client sees, and not the log.\<close>

interpretation read_inv: request_inv E
  "\<lambda>sm. in_i64 (now E) \<and> sm_wf sm \<and> smwal sm = w \<and> (\<forall>u. now E \<le> u \<longrightarrow> visible u sm = x u)"
  "\<lambda>sm. sm_wf sm \<and> smwal sm = w \<and> (\<forall>u. now E \<le> u \<longrightarrow> visible u sm = x u)" "\<lambda>_. False" "\<lambda>_. True"
  for E w x
  by unfold_locales (auto simp: visible_drop_later)

end
