(* ===== verification/Startup.thy ===== *)
theory Startup
  imports Shard_Manager
begin

text \<open>
  A system that has just been started (\<^verbatim>\<open>NewShardManager\<close>, \<^verbatim>\<open>NewWALSystem\<close>): its shards are those
  numbered below the shard count, its memories are empty and its log is open.
\<close>

section \<open>The shards of a new system\<close>

definition empty_store :: "shardManager \<Rightarrow> bool" where
  "empty_store sm \<longleftrightarrow> sm_wf sm \<and> (\<forall>k. stored sm k = None)"

text \<open>The first \<open>n\<close> numbered shards, added one by one.\<close>

lemma NewWALSystem_shards_fold:
  "wshards (fold (\<lambda>i ws. ws\<lparr>wshards := gm_upd (f i) (g i) (wshards ws), wchash := AddNode (f i) (wchash ws)\<rparr>) is ws)
     = fold (\<lambda>i. gm_upd (f i) (g i)) is (wshards ws) \<and>
   wclosed (fold (\<lambda>i ws. ws\<lparr>wshards := gm_upd (f i) (g i) (wshards ws), wchash := AddNode (f i) (wchash ws)\<rparr>) is ws)
     = wclosed ws"
  by (induction "is" arbitrary: ws) simp_all

lemma fold_gm_upd:
  "gm_ok m \<Longrightarrow> gm_ok (fold (\<lambda>i. gm_upd (f i) (g i)) is m) \<and>
   dom (map_of (fold (\<lambda>i. gm_upd (f i) (g i)) is m)) = f ` set is \<union> dom (map_of m) \<and>
   (\<forall>j x. map_of (fold (\<lambda>i. gm_upd (f i) (g i)) is m) j = Some x \<longrightarrow>
      map_of m j = Some x \<or> x \<in> g ` set is)"
proof (induction "is" arbitrary: m)
  case (Cons i "is")
  then have "gm_ok (gm_upd (f i) (g i) m)" by simp
  from Cons.IH [OF this] Cons.prems show ?case by (auto split: if_splits)
qed simp

lemma gm_ok_fst_dom: "gm_ok m \<Longrightarrow> set (map fst m) = dom (map_of m) \<and> distinct (map fst m)"
  by (simp add: gm_ok_distinct dom_map_of_conv_image_fst)

definition shard_ids :: "int \<Rightarrow> string set" where
  "shard_ids n = Itoa ` {0..<n}"

lemma NewShardManager_smwal:
  "smwal (NewShardManager g disk path aw n) = NewWALSystem g disk
     \<lparr>ShardCount = n, WALPath = path, BufSize = 0, BatchBytes = 1048576, FlushInterval = 5000000,
      WriteChanSize = 0, SyncPolicy = SyncEveryNBatch, SyncEveryN = aw, SegmentMaxSize = 0\<rparr>"
  unfolding NewShardManager_def Let_def by (simp add: fold_smwal)

lemma ShardCount_withDefaults: "0 < ShardCount o0 \<Longrightarrow> ShardCount (withDefaults g o0) = ShardCount o0"
  by (simp add: withDefaults_def Let_def)

lemma int_upt: "set (map int [0..<nat n]) = {0..<n}"
  by (cases "0 \<le> n") (simp_all add: image_int_atLeastLessThan)

lemma NewWALSystem_shards:
  assumes "0 < ShardCount o0"
  shows "gm_ok (wshards (NewWALSystem g disk o0))"
    and "dom (map_of (wshards (NewWALSystem g disk o0))) = shard_ids (ShardCount o0)"
    and "\<not> wclosed (NewWALSystem g disk o0)"
    and "disk = (\<lambda>_. None) \<Longrightarrow> map_of (wshards (NewWALSystem g disk o0)) i = Some sh \<Longrightarrow>
      \<exists>j. sh = newWalShard j [] (withDefaults g o0)"
proof -
  let ?o = "withDefaults g o0"
  let ?c = "\<lambda>i. newWalShard (Itoa i)
     (case disk (segPath (WALPath ?o) (Itoa i)) of Some s \<Rightarrow> s | None \<Rightarrow> []) ?o"
  let ?is = "map int [0..<nat (ShardCount ?o)]"
  have w: "wshards (NewWALSystem g disk o0) = fold (\<lambda>i. gm_upd (Itoa i) (?c i)) ?is []"
    "\<not> wclosed (NewWALSystem g disk o0)"
    unfolding NewWALSystem_def Let_def by (simp_all only: NewWALSystem_shards_fold walSystem.simps simp_thms)
  note f = fold_gm_upd [OF gm_ok_Nil, of Itoa ?c ?is]
  show "gm_ok (wshards (NewWALSystem g disk o0))" "\<not> wclosed (NewWALSystem g disk o0)"
    using f w by simp_all
  have "set ?is = {0..<ShardCount o0}"
    using ShardCount_withDefaults [OF assms] int_upt by simp
  then show "dom (map_of (wshards (NewWALSystem g disk o0))) = shard_ids (ShardCount o0)"
    using f w(1) by (simp only: shard_ids_def) simp
  show "\<exists>j. sh = newWalShard j [] ?o"
    if "disk = (\<lambda>_. None)" "map_of (wshards (NewWALSystem g disk o0)) i = Some sh"
  proof -
    have "map_of [] i = Some sh \<or> sh \<in> ?c ` set ?is"
      using f that(2) unfolding w(1) by blast
    then show ?thesis by (auto simp: that(1))
  qed
qed

lemma NewShardManager_empty:
  assumes "0 < n"
  shows "empty_store (NewShardManager g disk path aw n)"
proof -
  let ?s = "\<lambda>i sm. sm\<lparr>shards := gm_upd (Itoa i) (NewShard (Itoa i) (''Shard '' @ Itoa i) ''localhost:9291'') (shards sm),
    smring := AddNode (Itoa i) (smring sm)\<rparr>"
  have f: "\<forall>i sh. map_of (shards (fold ?s is sm)) i = Some sh \<longrightarrow> M sh = []"
    if "\<forall>i sh. map_of (shards sm) i = Some sh \<longrightarrow> M sh = []" for "is" sm
    using that
  proof (induction "is" arbitrary: sm)
    case (Cons i "is")
    have "\<forall>j sh. map_of (shards (?s i sm)) j = Some sh \<longrightarrow> M sh = []"
      using Cons.prems by (simp add: NewShard_def NewMemory_def)
    from Cons.IH [OF this] show ?case by (simp only: fold.simps comp_def)
  qed simp
  have "\<forall>i sh. map_of (shards (NewShardManager g disk path aw n)) i = Some sh \<longrightarrow> M sh = []"
    unfolding NewShardManager_def Let_def by (rule f) simp
  then have "stored (NewShardManager g disk path aw n) k = None" for k
    by (auto simp: stored_def mem_of_def GetShardByKey_def Let_def split: option.split)
  then show ?thesis using NewShardManager_wf(1) [OF assms] by (simp add: empty_store_def)
qed

end
