(* ===== verification/Keyspace.thy ===== *)
theory Keyspace
  imports Commander Startup
begin

text \<open>
  The abstract specification of the store: one map from keys to the objects a client can see,
  with the shards, the ring, the log and the lazy removal of expired objects hidden.  \<open>ready\<close> is
  the invariant under which no request meets a missing shard or a closed channel; the
  refinement lemmas say what the calls of the handlers do to the abstract map.
\<close>

definition wal_ok :: "walSystem \<Rightarrow> bool" where
  "wal_ok w \<longleftrightarrow> wal_wf w \<and>
     (\<not> wclosed w \<longrightarrow> (\<forall>i sh. map_of (wshards w) i = Some sh \<longrightarrow> \<not> sclosed sh))"

definition ready :: "db \<Rightarrow> bool" where
  "ready sm \<longleftrightarrow> sm_wf sm \<and> wal_ok (smwal sm)"

lemma ready_wf [simp]: "ready sm \<Longrightarrow> sm_wf sm"
  by (simp add: ready_def)

lemma ready_with_mem [simp]: "ready sm \<Longrightarrow> gm_ok m \<Longrightarrow> ready (with_mem sm key m)"
  by (simp add: ready_def)

lemma enqueue_wal_ok:
  assumes "wal_ok w" and "\<not> wclosed w"
  shows "wal_ok (fst (enqueue P bs k e (w\<lparr>writeCount := c\<rparr>)))"
    and "snd (enqueue P bs k e (w\<lparr>writeCount := c\<rparr>)) \<noteq> WPanic"
proof -
  have wf: "wal_wf w" using assms(1) by (simp add: wal_ok_def)
  then obtain sh where sh: "map_of (wshards w) (GetNode (wchash w) k) = Some sh"
    using wal_wf_shard unfolding wnode_def by blast
  have opn: "\<not> sclosed sh" using assms sh by (auto simp: wal_ok_def)
  have sh': "\<not> sclosed t" if "send e s = Some t" "\<not> sclosed s" for s t
    using that by (auto simp: send_def split: if_splits)
  have run: "\<not> sclosed (run_branches P bs sh)" using opn by (simp add: run_branches_sclosed)
  have inv: "shard_inv sh" using wf sh by (auto simp: wal_wf_def)
  have upd: "wal_ok (w\<lparr>writeCount := c, wshards := gm_upd (GetNode (wchash w) k) t (wshards w)\<rparr>)"
    if "shard_inv t" "\<not> sclosed t" for t
    using assms that by (auto simp: wal_ok_def wal_wf_def)
  have inv1: "shard_inv (run_branches P bs sh)" using run_branches_log [OF inv] by blast
  have snd: "shard_inv t" if "send e s = Some t" "shard_inv s" "\<not> sclosed s" for s t
    using shard_step_log [OF shard_step.send [OF that(3,1)] that(2)] by blast
  show "wal_ok (fst (enqueue P bs k e (w\<lparr>writeCount := c\<rparr>)))"
    using sh opn run inv inv1 sh' snd upd
    by (auto simp: enqueue_def Let_def split: option.split)
  show "snd (enqueue P bs k e (w\<lparr>writeCount := c\<rparr>)) \<noteq> WPanic"
    using sh opn by (auto simp: enqueue_def Let_def split: option.split)
qed

lemma wPut_wal_ok:
  assumes "wal_ok w"
  shows "wal_ok (fst (wPut P bs k ob w))" "snd (wPut P bs k ob w) \<noteq> WPanic"
    "wal_ok (fst (wDelete P bs k w))" "snd (wDelete P bs k w) \<noteq> WPanic"
  using assms enqueue_wal_ok [OF assms] by (auto simp: wPut_def wDelete_def)

lemma log_ready [simp]:
  assumes "ready sm"
  shows "ready (fst (log_put E k ob sm r))" "snd (log_put E k ob sm r) = r"
    "ready (fst (log_del E k sm r))" "snd (log_del E k sm r) = r"
  using assms wPut_wal_ok [of "smwal sm" "eproto E" "ebranches E" k]
  by (auto simp: log_put_def log_del_def ready_def sm_wf_def split: prod.split)
    (metis fst_conv snd_conv)+

lemma visible_log [simp]:
  "visible u (fst (log_put E k ob sm r)) = visible u sm" "visible u (fst (log_del E k sm r)) = visible u sm"
  by (simp_all add: fun_eq_iff visible_stored)

text \<open>A system that has just been started is ready and shows no key.\<close>

lemma NewShardManager_ready:
  assumes "0 < n"
  shows "ready (NewShardManager g (\<lambda>_. None) path aw n)"
    and "visible u (NewShardManager g (\<lambda>_. None) path aw n) k = None"
proof -
  let ?sm = "NewShardManager g (\<lambda>_. None) path aw n"
  define o0 where "o0 = \<lparr>ShardCount = n, WALPath = path, BufSize = 0,
      BatchBytes = 1048576, FlushInterval = 5000000, WriteChanSize = 0, SyncPolicy = SyncEveryNBatch,
      SyncEveryN = aw, SegmentMaxSize = 0\<rparr>"
  have w: "smwal ?sm = NewWALSystem g (\<lambda>_. None) o0" by (simp add: NewShardManager_smwal o0_def)
  have "\<not> sclosed sh" if "map_of (wshards (smwal ?sm)) i = Some sh" for i sh
    using NewWALSystem_shards(4) [of o0 "\<lambda>_. None" g i sh] that assms
    by (auto simp: w o0_def newWalShard_def)
  then show "ready ?sm" using NewShardManager_wf [OF assms] by (simp add: ready_def wal_ok_def)
  show "visible u ?sm k = None"
    using NewShardManager_empty [OF assms] by (simp add: empty_store_def visible_stored)
qed

text \<open>A small system and the environment of a request at time \<open>t\<close>, for the examples.\<close>

definition db1 :: db where
  "db1 = NewShardManager 1 (\<lambda>_. None) ''wal'' 1 2"

definition env1 :: "int \<Rightarrow> env" where
  "env1 t = \<lparr>now = t, eproto = P2, ebranches = [], StrictMode = False,
     euni = \<lparr>upper_rune = (\<lambda>r. r), same_fold = (\<lambda>_ _. False)\<rparr>, ref_order = (\<lambda>ps. ps), ClientID = ''c'',
     Sessions = [], time_text = (\<lambda>_. [])\<rparr>"

lemma db1_ready [simp]: "ready db1" "visible u db1 k = None"
  by (simp_all add: db1_def NewShardManager_ready)

lemma env1_simps [simp]: "now (env1 t) = t" "eproto (env1 t) = P2" "StrictMode (env1 t) = False"
  by (simp_all add: env1_def)

text \<open>A command in capitals, or not, is the command.\<close>

lemma ToUpper_upper: "list_all (\<lambda>c. byte_of c < 97) s \<Longrightarrow> ToUpper u s = s"
proof -
  assume a: "list_all (\<lambda>c. byte_of c < 97) s"
  then have "list_all (\<lambda>c. byte_of c < 128) s" by (auto simp: list_all_iff)
  moreover have "map (\<lambda>c. char_of (ascii_upper (byte_of c))) s = s"
    using a by (intro map_idI) (auto simp: list_all_iff ascii_upper_def byte_of_def)
  ultimately show ?thesis by (simp add: ToUpper_def)
qed

section \<open>Refinement of the calls\<close>

lemma visible_with_mem:
  assumes "sm_wf sm" and "\<And>j. j \<noteq> k \<Longrightarrow> gm_get m j = gm_get (mem_of sm k) j"
  shows "visible u (with_mem sm k m) = (visible u sm)(k := live u m k)"
  by (rule ext) (simp add: visible_stored stored_same_node [OF assms] live_def)

text \<open>The state in which a handler goes on after its look-up.\<close>

definition fetched :: "env \<Rightarrow> db \<Rightarrow> string \<Rightarrow> db" where
  "fetched E sm key = with_mem sm key (fst (Get (now E) key (mem_of sm key)))"

lemma fetch_eq: "sm_wf sm \<Longrightarrow> fetch E sm key kont = kont (fetched E sm key) (visible (now E) sm key)"
  by (simp add: fetch_def on_shard_wf visible_def fetched_def Get_eq)

lemma fetched:
  assumes "ready sm"
  shows "ready (fetched E sm key)" "smwal (fetched E sm key) = smwal sm"
    and "now E \<le> u \<Longrightarrow> visible u (fetched E sm key) = visible u sm"
  using assms visible_with_mem [OF ready_wf [OF assms] store_frame(1)]
  by (simp_all add: fetched_def live_Get visible_def fun_eq_iff)

lemma fetch_vis:
  assumes "ready sm"
  obtains sm' where "fetch E sm key kont = kont sm' (visible (now E) sm key)" "ready sm'"
    "\<And>u. now E \<le> u \<Longrightarrow> visible u sm' = visible u sm" "smwal sm' = smwal sm"
  using fetch_eq [OF ready_wf [OF assms]] fetched [OF assms] that by blast

lemma store_vis:
  assumes "ready sm"
  shows "ready (fst (store E sm key v kd r))" "snd (store E sm key v kd r) = r"
    "visible u (fst (store E sm key v kd r)) =
       (visible u sm)(key \<mapsto> \<lparr>Value = v, Kind = kd, Timestamp = 0\<rparr>)"
proof -
  have wf: "sm_wf sm" using assms by simp
  have r: "ready (with_mem sm key (Set key v kd (mem_of sm key)))" using assms wf by simp
  then show "ready (fst (store E sm key v kd r))" "snd (store E sm key v kd r) = r"
    by (simp_all add: store_def on_shard_wf [OF wf])
  have "visible u (with_mem sm key (Set key v kd (mem_of sm key))) =
      (visible u sm)(key := live u (Set key v kd (mem_of sm key)) key)"
    by (rule visible_with_mem [OF wf]) (rule store_frame(2))
  then show "visible u (fst (store E sm key v kd r)) =
       (visible u sm)(key \<mapsto> \<lparr>Value = v, Kind = kd, Timestamp = 0\<rparr>)"
    by (simp add: store_def on_shard_wf [OF wf] live_Set)
qed

lemma erase_vis:
  assumes "ready sm"
  shows "ready (fst (erase E sm key r))" "snd (erase E sm key r) = r"
    "visible u (fst (erase E sm key r)) = (visible u sm)(key := None)"
proof -
  have wf: "sm_wf sm" using assms by simp
  have r: "ready (with_mem sm key (fst (Delete key (mem_of sm key))))" using assms wf by simp
  then show "ready (fst (erase E sm key r))" "snd (erase E sm key r) = r"
    by (simp_all add: erase_def on_shard_wf [OF wf])
  have "visible u (with_mem sm key (fst (Delete key (mem_of sm key)))) =
      (visible u sm)(key := live u (fst (Delete key (mem_of sm key))) key)"
    by (rule visible_with_mem [OF wf]) (rule store_frame(4))
  then show "visible u (fst (erase E sm key r)) = (visible u sm)(key := None)"
    by (simp add: erase_def on_shard_wf [OF wf] live_Delete)
qed

section \<open>Every command keeps the invariant\<close>

interpretation ready_inv: request_inv E "\<lambda>sm. in_i64 (now E) \<and> ready sm" ready "\<lambda>_. True" "\<lambda>_. True"
  for E
  by unfold_locales simp_all

lemma Execute_ready: "ready sm \<Longrightarrow> in_i64 (now E) \<Longrightarrow> ready (fst (Execute E command args sm))"
  by (rule ready_inv.execute_J) simp_all

section \<open>Which commands can crash\<close>

definition fine :: "db \<times> result \<Rightarrow> bool" where
  "fine p \<longleftrightarrow> snd p \<noteq> Crash"

lemma fetch_no_crash:
  assumes "ready sm" and "\<And>sm'. ready sm' \<Longrightarrow> fine (c sm' (visible (now E) sm key))"
  shows "fine (fetch E sm key c)"
proof -
  obtain sm' where "fetch E sm key c = c sm' (visible (now E) sm key)" "ready sm'"
    by (rule fetch_vis [OF assms(1)])
  then show ?thesis using assms(2) by simp
qed

lemma store_no_crash: "ready sm \<Longrightarrow> r \<noteq> Crash \<Longrightarrow> fine (store E sm key v kd r)"
  by (simp add: fine_def store_vis)

lemma erase_no_crash: "ready sm \<Longrightarrow> r \<noteq> Crash \<Longrightarrow> fine (erase E sm key r)"
  by (simp add: fine_def erase_vis)

lemma done_no_crash: "r \<noteq> Crash \<Longrightarrow> fine (sm, r)"
  by (simp add: fine_def)

lemma log_no_crash:
  "ready sm \<Longrightarrow> r \<noteq> Crash \<Longrightarrow> fine (log_put E k ob sm r)"
  "ready sm \<Longrightarrow> r \<noteq> Crash \<Longrightarrow> fine (log_del E k sm r)"
  by (simp_all add: fine_def)

lemmas no_crash = done_no_crash log_no_crash fetch_no_crash store_no_crash erase_no_crash

lemma exists_no_crash: "ready sm \<Longrightarrow> fine (exists_loop E keys n sm)"
  by (induction keys arbitrary: n sm) (auto intro!: no_crash)

lemma common_no_crash:
  assumes "ready sm"
  shows "fine (setKey E args sm)" "fine (getKey E args sm)"
    "fine (deleteKey E args sm)" "fine (existsFunc E args sm)"
    "fine (echoBack E args sm)" "fine (sessionAdd E args sm)"
    "fine (serverStatus E args sm)" "fine (ttlKey E args sm)"
    "in_i64 (now E) \<Longrightarrow> fine (expireKey E args sm)"
proof -
  show "fine (expireKey E args sm)" if "in_i64 (now E)"
  proof (cases "length args = 2 \<and> IsValidKey (args ! 0) \<and> ParseDurationToSeconds (args ! 1) \<noteq> None")
    case False
    then show ?thesis by (auto simp: expireKey_def Let_def intro!: no_crash split: option.split)
  next
    case True
    then obtain s where "ParseDurationToSeconds (args ! 1) = Some s" by blast
    with True that assms show ?thesis by (auto simp: expireKey_eq Let_def intro!: no_crash split: option.split)
  qed
qed (use assms in \<open>auto simp: setKey_def getKey_def deleteKey_def existsFunc_def echoBack_def
    sessionAdd_def serverStatus_def ttlKey_def Let_def on_shard_wf Delete_def
    intro!: no_crash exists_no_crash split: option.split prod.split\<close>)

lemma str_num_no_crash:
  assumes "ready sm"
  shows "fine (strSetFunc E args sm)" "fine (strAppendFunc E args sm)"
    "fine (strLengthFunc E args sm)" "fine (numberSetFunc E args sm)"
    "fine (numberIncrFunc E args sm)" "fine (numberDecrFunc E args sm)"
  using assms
  by (auto simp: strSetFunc_def strAppendFunc_def strLengthFunc_def numberSetFunc_def
      numberIncrFunc_def numberDecrFunc_def Let_def intro!: no_crash split: option.split)

lemma list_no_crash:
  assumes "ready sm"
  shows "fine (listSetFunc E args sm)" "fine (listPushFunc E args sm)"
    "fine (listPopFunc E args sm)" "fine (listGPopFunc E args sm)"
    "fine (listISetFunc E args sm)" "fine (listGetFunc E args sm)"
    "fine (listLenFunc E args sm)" "fine (listFilterFunc E args sm)"
  using assms
  by (auto simp: listSetFunc_def listPushFunc_def listPopFunc_def listGPopFunc_def listISetFunc_def
      listGetFunc_def listLenFunc_def listFilterFunc_def Let_def on_shard_wf
      intro!: no_crash split: option.split)

lemma resolve_keys_no_crash:
  "ready sm \<Longrightarrow> ready (fst (resolve_keys E sm current keys)) \<and>
    snd (snd (resolve_keys E sm current keys)) \<noteq> RefCrash"
proof (induction keys arbitrary: sm current)
  case (Cons key keys)
  have r: "ready (with_mem sm a (fst (Get t a (M sh))))" if "GetShardByKey sm a = Some sh" for a sh t
  proof -
    have "M sh = mem_of sm a" using that by (simp add: mem_of_def)
    then show ?thesis using Cons.prems by simp
  qed
  have "\<exists>sh. GetShardByKey sm a = Some sh" for a using Cons.prems by (intro sm_wf_shard) simp
  then have n: "GetShardByKey sm a \<noteq> None" for a by simp
  have ih: "ready (fst (resolve_keys E sm m keys))" "snd (snd (resolve_keys E sm m keys)) \<noteq> RefCrash" for m
    using Cons by simp_all
  show ?case
  proof (cases "map_lookup current key")
    case (Some val)
    show ?thesis
    proof (cases "keys = []")
      case True
      {
        fix s assume v: "val = JStr s" and p: "HasPrefix s ref_prefix"
        let ?a = "TrimPrefix s ref_prefix"
        obtain sh where sh: "GetShardByKey sm ?a = Some sh" using n [of ?a] by blast
        obtain m' ob where g: "Get (now E) ?a (M sh) = (m', ob)" by (cases "Get (now E) ?a (M sh)")
        then have "ready (with_mem sm ?a m')" using r [OF sh, of "now E"] by simp
        then have ?thesis
          using Some True v p sh g by (simp add: Let_def split: option.split)
      }
      then show ?thesis using Some True Cons.prems by (cases val) auto
    next
      case False
      show ?thesis
      proof (cases "as_map val")
        case (Some m)
        obtain s' n' r' where "resolve_keys E sm m keys = (s', n', r')" by (cases "resolve_keys E sm m keys")
        with ih [of m] Some \<open>map_lookup current key = Some val\<close> False show ?thesis by simp
      qed (use Some False Cons.prems in simp)
    qed
  qed (simp add: Cons.prems)
qed simp

lemma refRead_no_crash:
  "ready sm \<Longrightarrow> ready (fst (refRead E sm obj refs)) \<and> snd (snd (refRead E sm obj refs)) \<noteq> RefCrash"
proof (induction refs arbitrary: sm obj)
  case (Cons r refs)
  have "ready (fst (resolveReference E sm obj r)) \<and> snd (snd (resolveReference E sm obj r)) \<noteq> RefCrash"
    using Cons.prems by (simp add: resolveReference_def resolve_keys_no_crash)
  with Cons.IH show ?case by (auto split: prod.split ref_result.split)
qed simp

lemma json_no_crash:
  assumes "ready sm"
  shows "fine (jsonSetFunc E args sm)" "fine (jsonGetFunc E args sm)"
    "fine (jsonPGetFunc E args sm)" "fine (jsonMergeFunc E args sm)"
    "fine (jsonRemoveFunc E args sm)"
proof -
  have "r \<noteq> RefCrash" if "refRead E sm' m refs = (s, m', r)" "ready sm'" for sm' m refs s m' r
    using refRead_no_crash [OF that(2), of E m refs] that(1) by simp
  then show "fine (jsonGetFunc E args sm)"
    using assms
    by (auto simp: jsonGetFunc_def Let_def intro!: no_crash split: option.split prod.split)
qed (use assms in \<open>auto simp: jsonSetFunc_def jsonPGetFunc_def jsonMergeFunc_def jsonRemoveFunc_def
    Let_def intro!: no_crash split: option.split\<close>)

text \<open>The commands whose handlers have a panic of their own.\<close>

definition can_crash :: "string list" where
  "can_crash = [''STR.GET'', ''STR.RANGE'', ''NUM.GET'', ''MAP.SET'', ''MAP.CSET'', ''MAP.DEL'',
     ''MAP.GET'', ''JSON.ADD'', ''JSON.SETREF'']"

lemma Execute_no_crash:
  assumes "ready sm" and "in_i64 (now E)" and "ToUpper (euni E) command \<notin> set can_crash"
  shows "snd (Execute E command args sm) \<noteq> Crash"
proof (cases "map_of ExecCommands (ToUpper (euni E) command)")
  case None
  then show ?thesis by (simp add: Execute_def)
next
  case (Some h)
  then have "(ToUpper (euni E) command, h) \<in> set ExecCommands" by (rule map_of_SomeD)
  then have "fine (h E args sm)"
    using assms(3) unfolding ExecCommands_def can_crash_def
    by (auto simp: common_no_crash [OF assms(1)] assms(2) str_num_no_crash [OF assms(1)]
        list_no_crash [OF assms(1)] json_no_crash [OF assms(1)])
  with Some show ?thesis by (simp add: Execute_def fine_def)
qed

section \<open>What every command leaves alone\<close>

lemma visible_frame:
  assumes "sm_wf sm" and "in_i64 (now E)" and "args = [] \<or> args ! 0 \<noteq> k" and "now E \<le> u"
  shows "visible u (fst (Execute E command args sm)) k = visible u sm k"
proof -
  have "visible u (with_mem sm' key (Set key v kd (mem_of sm' key))) k = visible u sm' k"
    if "sm_wf sm'" "key \<noteq> k" for sm' key v kd u
    using that by (simp add: visible_stored stored_same_node Set_def)
  then show ?thesis
    using frame_inv.execute_J [of E sm k "\<lambda>u. visible u sm k" args command] assms by auto
qed

text \<open>C9.  A command changes nothing but its first argument's key: whatever the command, its other
  arguments and its outcome, every other key shows the same object from then on.\<close>

theorem Execute_frame:
  assumes "sm_wf sm" and "in_i64 (now E)" and "args = [] \<or> args ! 0 \<noteq> k" and "now E \<le> u"
  shows "visible u (fst (Execute E command args sm)) k = visible u sm k"
  using assms by (rule visible_frame)

theorem Execute_frame_witness:
  "visible 9 (fst (Execute (env1 5) ''SET'' [''k'', ''v''] db1)) ''j'' = None"
  using Execute_frame [of db1 "env1 5" "[''k'', ''v'']" "''j''" 9 "''SET''"] by (simp add: in_i64_def)

text \<open>TTL drops an expired object a second before the other commands, and one whose expiration time has
  overflowed to a negative number, which they take for none.\<close>

lemma ttlKey_keeps:
  assumes "sm_wf sm" and "now E \<le> u"
  shows "smwal (fst (ttlKey E args sm)) = smwal sm"
    and "visible u (fst (ttlKey E args sm)) k = visible u sm k \<or>
      k = args ! 0 \<and> visible u (fst (ttlKey E args sm)) k = None \<and>
      (\<exists>ob. visible (now E) sm k = Some ob \<and> (Timestamp ob = now E \<or> Timestamp ob < 0))"
proof -
  let ?k = "args ! 0"
  obtain sh where sh: "GetShardByKey sm ?k = Some sh" using sm_wf_shard [OF assms(1)] by blast
  then have m: "M sh = mem_of sm ?k" by (simp add: mem_of_def)
  have cases: "fst (ttlKey E args sm) = sm \<or> (\<exists>ob. stored sm ?k = Some ob \<and> Timestamp ob \<noteq> 0 \<and> Timestamp ob \<le> now E \<and>
      fst (ttlKey E args sm) = with_mem sm ?k (gm_del ?k (mem_of sm ?k)))"
    using sh m with_mem_mem_of [OF assms(1), of ?k]
    by (auto simp: ttlKey_def TTL_def Let_def on_shard_def stored_def split: option.split)
  then show "smwal (fst (ttlKey E args sm)) = smwal sm" by auto
  have "stored (with_mem sm ?k (gm_del ?k (mem_of sm ?k))) j = (if j = ?k then None else stored sm j)" for j
    by (subst stored_same_node [OF assms(1)]) auto
  with cases assms(2) show "visible u (fst (ttlKey E args sm)) k = visible u sm k \<or>
      k = ?k \<and> visible u (fst (ttlKey E args sm)) k = None \<and>
      (\<exists>ob. visible (now E) sm k = Some ob \<and> (Timestamp ob = now E \<or> Timestamp ob < 0))"
    by (cases "k = ?k") (auto simp: visible_stored expired_def split: if_splits)
qed

text \<open>C18.  The commands that read (GET, EXISTS, PING, SESSION, STATUS, TTL, the reading commands of strings,
  numbers, lists and maps, JSON.GET and JSON.PGET) never touch the log, and change nothing that a client can
  see, now or later: they may drop objects that have expired, and nothing else.  The exception is TTL, which
  also drops the object of its key in the last second in which the others still see it, or when its
  expiration time has overflowed to a negative number.\<close>

theorem read_only_Execute:
  assumes "sm_wf sm" and "in_i64 (now E)" and "ToUpper (euni E) command \<in> set (''TTL'' # read_only)" and "now E \<le> u"
  shows "smwal (fst (Execute E command args sm)) = smwal sm \<and>
    (visible u (fst (Execute E command args sm)) k = visible u sm k \<or>
     ToUpper (euni E) command = ''TTL'' \<and> k = args ! 0 \<and> visible u (fst (Execute E command args sm)) k = None \<and>
     (\<exists>ob. visible (now E) sm k = Some ob \<and> (Timestamp ob = now E \<or> Timestamp ob < 0)))"
proof (cases "ToUpper (euni E) command = ''TTL''")
  case True
  then have "Execute E command args sm = ttlKey E args sm" by (simp add: Execute_def ExecCommands_def)
  then show ?thesis using ttlKey_keeps [OF assms(1,4)] True by simp
next
  case False
  then have "ToUpper (euni E) command \<in> set read_only" using assms(3) by simp
  then show ?thesis
    using read_inv.read_J [of E sm "smwal sm" "\<lambda>u. visible u sm" command args] assms(1,2,4) by auto
qed

theorem read_only_Execute_witness:
  "smwal (fst (Execute (env1 5) ''GET'' [''k''] db1)) = smwal db1 \<and>
   visible 7 (fst (Execute (env1 5) ''TTL'' [''k''] db1)) ''k'' = None"
proof -
  have u: "ToUpper u ''GET'' = ''GET''" "ToUpper u ''TTL'' = ''TTL''" for u by (simp_all add: ToUpper_upper byte_of_def)
  then show ?thesis
    using read_only_Execute [of db1 "env1 5" "''GET''" 5 "[''k'']"] read_only_Execute [of db1 "env1 5" "''TTL''" 7 "[''k'']" "''k''"]
    by (auto simp: in_i64_def read_only_def)
qed

text \<open>C8.  In a system that is ready no command but those listed in \<open>can_crash\<close> panics: every other
  request is answered, with a result or an error.\<close>

theorem answered:
  assumes "ready sm" and "in_i64 (now E)" and "ToUpper (euni E) command \<notin> set can_crash"
  shows "\<exists>sm' r. Execute E command args sm = (sm', r) \<and> ready sm' \<and> (r \<noteq> Crash)"
  using Execute_no_crash [OF assms] Execute_ready [OF assms(1,2)]
  by (metis prod.collapse)

theorem answered_witness:
  "\<exists>sm' r. Execute (env1 5) ''LIST.PUSH'' [] db1 = (sm', r) \<and> ready sm' \<and> r \<noteq> Crash"
proof -
  have "ToUpper u ''LIST.PUSH'' = ''LIST.PUSH''" for u by (simp add: ToUpper_upper byte_of_def)
  then show ?thesis
    using answered [of db1 "env1 5" "''LIST.PUSH''" "[]"] by (simp add: in_i64_def can_crash_def)
qed

end
