(* ===== verification/Transparency.thy ===== *)
theory Transparency
  imports Keyspace
begin

text \<open>
  The shards, the ring, the log and the moment an expired object is dropped are invisible: two
  systems that show the same objects answer every command alike (all but \<^verbatim>\<open>STATUS\<close>, which counts
  the stored keys) and show the same objects afterwards.
\<close>

section \<open>Systems that show the same\<close>

definition sim :: "int \<Rightarrow> db \<Rightarrow> db \<Rightarrow> bool" where
  "sim t sm sn \<longleftrightarrow> ready sm \<and> ready sn \<and> (\<forall>u. t \<le> u \<longrightarrow> visible u sm = visible u sn)"

text \<open>The outcomes of one request in both.\<close>

definition sim_out :: "int \<Rightarrow> db \<times> result \<Rightarrow> db \<times> result \<Rightarrow> bool" where
  "sim_out t p q \<longleftrightarrow> sim t (fst p) (fst q) \<and> snd p = snd q"

text \<open>The environment of the same request on a system with another log.\<close>

abbreviation other :: "proto \<Rightarrow> branch list \<Rightarrow> env \<Rightarrow> env" where
  "other P bs E \<equiv> E\<lparr>eproto := P, ebranches := bs\<rparr>"

lemma sim_ready: "sim t sm sn \<Longrightarrow> ready sm" "sim t sm sn \<Longrightarrow> ready sn"
  by (simp_all add: sim_def)

lemma sim_visible: "sim t sm sn \<Longrightarrow> t \<le> u \<Longrightarrow> visible u sm = visible u sn"
  by (simp add: sim_def)

lemma sim_later: "sim t sm sn \<Longrightarrow> t \<le> u \<Longrightarrow> sim u sm sn"
  by (simp add: sim_def)

text \<open>What is stored under a key is the same, or invisible on both sides.\<close>

lemma sim_cases:
  assumes "sim t sm sn"
  obtains (gone) "live t (mem_of sm k) k = None" "live t (mem_of sn k) k = None"
  | (same) ob where "gm_get (mem_of sm k) k = Some ob" "gm_get (mem_of sn k) k = Some ob" "\<not> expired t ob"
proof -
  have "live t (mem_of sm k) k = live t (mem_of sn k) k"
    using sim_visible [OF assms, of t] by (metis order_refl visible_def)
  then show ?thesis using that by (auto simp: live_def split: option.splits if_splits)
qed

lemma live_gone: "live t m k = None \<Longrightarrow> t \<le> u \<Longrightarrow> live u m k = None"
  by (auto simp: live_def expired_def split: option.splits if_splits)

lemma sim_live: "sim t sm sn \<Longrightarrow> t \<le> u \<Longrightarrow> live u (mem_of sm k) k = live u (mem_of sn k) k"
  using sim_visible [of t sm sn u] by (metis visible_def)

lemma sim_with_mem:
  assumes "sim t sm sn" and "gm_ok m" "gm_ok m'"
    and "\<And>j. j \<noteq> k \<Longrightarrow> gm_get m j = gm_get (mem_of sm k) j"
    and "\<And>j. j \<noteq> k \<Longrightarrow> gm_get m' j = gm_get (mem_of sn k) j"
    and "\<And>u. t \<le> u \<Longrightarrow> live u m k = live u m' k"
  shows "sim t (with_mem sm k m) (with_mem sn k m')"
proof -
  have r: "ready sm" "ready sn" using assms(1) by (simp_all add: sim_def)
  have "visible u (with_mem sm k m) = visible u (with_mem sn k m')" if "t \<le> u" for u
    using visible_with_mem [OF ready_wf [OF r(1)] assms(4)] visible_with_mem [OF ready_wf [OF r(2)] assms(5)]
      assms(6) [OF that] sim_visible [OF assms(1) that] by simp
  then show ?thesis using r assms(2,3) by (simp add: sim_def)
qed

lemma sim_log:
  "sim t sm sn \<Longrightarrow> sim_out t (log_put E k ob sm r) (log_put E' k ob' sn r)"
  "sim t sm sn \<Longrightarrow> sim_out t (log_del E k sm r) (log_del E' k sn r)"
  "sim t sm sn \<Longrightarrow> sim_out t (log_del E k sm r) (sn, r)"
  "sim t sm sn \<Longrightarrow> sim_out t (sm, r) (log_del E k sn r)"
  by (simp_all add: sim_out_def sim_def)

section \<open>The calls of the handlers\<close>

lemma sim_done: "sim t sm sn \<Longrightarrow> sim_out t (sm, r) (sn, r)"
  by (simp add: sim_out_def)

lemma sim_fetch:
  assumes "sim (now E) sm sn"
    and "\<And>sm' sn' ob. sim (now E) sm' sn' \<Longrightarrow> sim_out (now E) (c sm' ob) (c' sn' ob)"
  shows "sim_out (now E) (fetch E sm k c) (fetch (other P bs E) sn k c')"
proof -
  have r: "ready sm" "ready sn" using assms(1) by (simp_all add: sim_def)
  obtain sm' where 1: "fetch E sm k c = c sm' (visible (now E) sm k)" "ready sm'"
    "\<And>u. now E \<le> u \<Longrightarrow> visible u sm' = visible u sm"
    using fetch_vis [OF r(1)] by metis
  obtain sn' where 2: "fetch (other P bs E) sn k c' = c' sn' (visible (now E) sn k)" "ready sn'"
    "\<And>u. now E \<le> u \<Longrightarrow> visible u sn' = visible u sn"
    using fetch_vis [OF r(2), where E = "other P bs E" and kont = c' and key = k] by auto
  have "visible (now E) sm k = visible (now E) sn k" using sim_visible [OF assms(1)] by simp
  moreover have "sim (now E) sm' sn'" using 1 2 sim_visible [OF assms(1)] by (simp add: sim_def)
  ultimately show ?thesis using assms(2) 1(1) 2(1) by simp
qed

lemma sim_store:
  "sim t sm sn \<Longrightarrow> sim_out t (store E sm k v kd r) (store E' sn k v kd r)"
  by (simp add: sim_out_def sim_def store_vis)

lemma sim_erase: "sim t sm sn \<Longrightarrow> sim_out t (erase E sm k r) (erase E' sn k r)"
  by (simp add: sim_out_def sim_def erase_vis)

lemma sim_on_shard:
  "sim t sm sn \<Longrightarrow> sim_out t (c (mem_of sm k)) (c' (mem_of sn k)) \<Longrightarrow>
   sim_out t (on_shard sm k c) (on_shard sn k c')"
  using sim_ready by (simp add: on_shard_wf)

lemmas sims = sim_done sim_log sim_fetch sim_store sim_erase

section \<open>Every handler\<close>

lemma sim_delete: "sim t sm sn \<Longrightarrow>
   sim t (with_mem sm k (fst (Delete k (mem_of sm k)))) (with_mem sn k (fst (Delete k (mem_of sn k))))"
  by (rule sim_with_mem) (auto simp: store_frame live_Delete sim_ready)

lemma sim_delete': "sim t sm sn \<Longrightarrow> Delete k (mem_of sm k) = (m, st) \<Longrightarrow> Delete k (mem_of sn k) = (m', st') \<Longrightarrow>
   sim t (with_mem sm k m) (with_mem sn k m')"
  using sim_delete [of t sm sn k] by simp

lemma sim_put: "sim t sm sn \<Longrightarrow>
   sim t (with_mem sm k (gm_upd k ob (mem_of sm k))) (with_mem sn k (gm_upd k ob (mem_of sn k)))"
  by (rule sim_with_mem) (auto simp: live_upd sim_ready)

lemma sim_common:
  assumes "sim (now E) sm sn"
  shows "sim_out (now E) (setKey E args sm) (setKey (other P bs E) args sn)"
    "sim_out (now E) (getKey E args sm) (getKey (other P bs E) args sn)"
    "sim_out (now E) (deleteKey E args sm) (deleteKey (other P bs E) args sn)"
    "sim_out (now E) (echoBack E args sm) (echoBack (other P bs E) args sn)"
    "sim_out (now E) (sessionAdd E args sm) (sessionAdd (other P bs E) args sn)"
proof -
  show "sim_out (now E) (deleteKey E args sm) (deleteKey (other P bs E) args sn)"
    using assms
    by (auto simp: deleteKey_def Let_def intro!: sims sim_on_shard sim_delete' split: prod.split)
qed (use assms in \<open>auto simp: setKey_def getKey_def echoBack_def sessionAdd_def Let_def
    intro!: sims split: option.split\<close>)

lemma sim_exists:
  "sim (now E) sm sn \<Longrightarrow> sim_out (now E) (exists_loop E keys n sm) (exists_loop (other P bs E) keys n sn)"
  by (induction keys arbitrary: n sm sn) (auto intro!: sims)

lemma TTL_gone_result: "live t m k = None \<Longrightarrow> snd (TTL t k m) = -2"
  by (auto simp: TTL_def live_def expired_def split: option.splits if_splits)

lemma TTL_gone_live: "live t m k = None \<Longrightarrow> live u (fst (TTL t k m)) k = None"
  by (auto simp: TTL_def live_def expired_def split: option.splits if_splits)

lemma sim_TTL:
  assumes "sim t sm sn"
  shows "sim t (with_mem sm k (fst (TTL t k (mem_of sm k)))) (with_mem sn k (fst (TTL t k (mem_of sn k))))"
    and "snd (TTL t k (mem_of sm k)) = snd (TTL t k (mem_of sn k))"
proof -
  have "(\<forall>u \<ge> t. live u (fst (TTL t k (mem_of sm k))) k = live u (fst (TTL t k (mem_of sn k))) k) \<and>
      snd (TTL t k (mem_of sm k)) = snd (TTL t k (mem_of sn k))"
    using assms
  proof (cases rule: sim_cases [where k = k])
    case gone
    then show ?thesis by (simp add: TTL_gone_result TTL_gone_live)
  next
    case (same ob)
    then show ?thesis by (auto simp: TTL_def live_def)
  qed
  then show "snd (TTL t k (mem_of sm k)) = snd (TTL t k (mem_of sn k))"
    and "sim t (with_mem sm k (fst (TTL t k (mem_of sm k)))) (with_mem sn k (fst (TTL t k (mem_of sn k))))"
    using assms by (auto intro!: sim_with_mem simp: store_frame sim_ready)
qed

lemma sim_ttlKey:
  assumes "sim (now E) sm sn"
  shows "sim_out (now E) (ttlKey E args sm) (ttlKey (other P bs E) args sn)"
  using assms sim_TTL [OF assms] ready_wf [OF sim_ready(1) [OF assms]] ready_wf [OF sim_ready(2) [OF assms]]
  by (auto simp: ttlKey_def Let_def split_def sim_out_def on_shard_wf)

lemma sim_expireKey:
  assumes "sim (now E) sm sn" and "in_i64 (now E)"
  shows "sim_out (now E) (expireKey E args sm) (expireKey (other P bs E) args sn)"
proof (cases "length args = 2 \<and> IsValidKey (args ! 0) \<and> ParseDurationToSeconds (args ! 1) \<noteq> None")
  case False
  then show ?thesis using assms by (auto simp: expireKey_def Let_def intro!: sims split: option.split)
next
  case True
  then obtain s where s: "ParseDurationToSeconds (args ! 1) = Some s" by blast
  let ?k = "args ! 0"
  have wf: "sm_wf sm" "sm_wf sn" using assms(1) sim_ready ready_wf by blast+
  have a: "length args = 2" "IsValidKey ?k" using True by simp_all
  note eq = expireKey_eq [OF wf(1) assms(2) a s] expireKey_eq [where E = "other P bs E", OF wf(2) _ a s, simplified, OF assms(2)]
  have keep: "sim (now E) (with_mem sm ?k m) (with_mem sn ?k m')"
    if "m = mem_of sm ?k \<or> m = gm_del ?k (mem_of sm ?k)" "m' = mem_of sn ?k \<or> m' = gm_del ?k (mem_of sn ?k)"
      "\<And>u. now E \<le> u \<Longrightarrow> live u m ?k = None" "\<And>u. now E \<le> u \<Longrightarrow> live u m' ?k = None" for m m'
    using that assms(1) by (intro sim_with_mem) (auto simp: sim_ready)
  from assms(1) show ?thesis
  proof (cases rule: sim_cases [where k = ?k])
    case gone
    note live = live_gone [OF gone(1)] live_gone [OF gone(2)]
    have g: "gm_get m ?k = None \<or> (\<exists>ob. gm_get m ?k = Some ob \<and> 0 < Timestamp ob \<and> Timestamp ob \<le> now E)"
      if "live (now E) m ?k = None" for m
      using that by (auto simp: live_def expired_def split: option.splits if_splits)
    from g [OF gone(1)] g [OF gone(2)] show ?thesis
      by (auto simp: eq Let_def sim_out_def live live_del intro!: keep)
  next
    case (same ob)
    then show ?thesis
      using assms(1) by (auto simp: eq Let_def sim_out_def live_del intro!: keep sim_log [unfolded sim_out_def] sim_put
          simp del: log_ready)
  qed
qed

lemma sim_str_num:
  assumes "sim (now E) sm sn"
  shows "sim_out (now E) (strSetFunc E args sm) (strSetFunc (other P bs E) args sn)"
    "sim_out (now E) (strGetFunc E args sm) (strGetFunc (other P bs E) args sn)"
    "sim_out (now E) (strAppendFunc E args sm) (strAppendFunc (other P bs E) args sn)"
    "sim_out (now E) (strLengthFunc E args sm) (strLengthFunc (other P bs E) args sn)"
    "sim_out (now E) (strRangeFunc E args sm) (strRangeFunc (other P bs E) args sn)"
    "sim_out (now E) (numberSetFunc E args sm) (numberSetFunc (other P bs E) args sn)"
    "sim_out (now E) (numberGetFunc E args sm) (numberGetFunc (other P bs E) args sn)"
    "sim_out (now E) (numberIncrFunc E args sm) (numberIncrFunc (other P bs E) args sn)"
    "sim_out (now E) (numberDecrFunc E args sm) (numberDecrFunc (other P bs E) args sn)"
  using assms
  by (auto simp: strSetFunc_def strGetFunc_def strAppendFunc_def strLengthFunc_def strRangeFunc_def
      numberSetFunc_def numberGetFunc_def numberIncrFunc_def numberDecrFunc_def Let_def
      intro!: sims split: option.split)

lemma sim_list:
  assumes "sim (now E) sm sn"
  shows "sim_out (now E) (listSetFunc E args sm) (listSetFunc (other P bs E) args sn)"
    "sim_out (now E) (listPushFunc E args sm) (listPushFunc (other P bs E) args sn)"
    "sim_out (now E) (listPopFunc E args sm) (listPopFunc (other P bs E) args sn)"
    "sim_out (now E) (listISetFunc E args sm) (listISetFunc (other P bs E) args sn)"
    "sim_out (now E) (listGetFunc E args sm) (listGetFunc (other P bs E) args sn)"
    "sim_out (now E) (listLenFunc E args sm) (listLenFunc (other P bs E) args sn)"
    "sim_out (now E) (listFilterFunc E args sm) (listFilterFunc (other P bs E) args sn)"
  using assms
  by (auto simp: listSetFunc_def listPushFunc_def listPopFunc_def listISetFunc_def listGetFunc_def
      listLenFunc_def listFilterFunc_def Let_def intro!: sims split: option.split)

lemma sim_list_gpop:
  "sim (now E) sm sn \<Longrightarrow> sim_out (now E) (listGPopFunc E args sm) (listGPopFunc (other P bs E) args sn)"
  by (auto simp: listGPopFunc_def Let_def Set_def intro!: sims sim_on_shard sim_put split: option.split)

lemma sim_map:
  assumes "sim (now E) sm sn"
  shows "sim_out (now E) (mapSetKey E args sm) (mapSetKey (other P bs E) args sn)"
    "sim_out (now E) (mapCSetKey E args sm) (mapCSetKey (other P bs E) args sn)"
    "sim_out (now E) (mapDeleteKey E args sm) (mapDeleteKey (other P bs E) args sn)"
    "sim_out (now E) (mapGetKey E args sm) (mapGetKey (other P bs E) args sn)"
  using assms
  by (auto simp: mapSetKey_def mapCSetKey_def mapDeleteKey_def mapGetKey_def Let_def
      intro!: sims sim_on_shard sim_put sim_delete split: option.split)

section \<open>References\<close>

lemma sim_Get:
  assumes "sim t sm sn"
  shows "sim t (with_mem sm k (fst (Get t k (mem_of sm k)))) (with_mem sn k (fst (Get t k (mem_of sn k))))"
    and "snd (Get t k (mem_of sm k)) = snd (Get t k (mem_of sn k))"
  using sim_live [OF assms]
  by (auto simp: Get_live live_Get store_frame sim_ready [OF assms] intro!: sim_with_mem assms)

definition sim_ref :: "int \<Rightarrow> db \<times> json gomap option \<times> ref_result \<Rightarrow> db \<times> json gomap option \<times> ref_result \<Rightarrow> bool" where
  "sim_ref t p q \<longleftrightarrow> sim t (fst p) (fst q) \<and> snd p = snd q"

lemma sim_shard:
  assumes "sim t sm sn"
  obtains sh sh' where "GetShardByKey sm k = Some sh" "M sh = mem_of sm k"
    "GetShardByKey sn k = Some sh'" "M sh' = mem_of sn k"
proof -
  have "\<exists>sh. GetShardByKey s k = Some sh \<and> M sh = mem_of s k" if "ready s" for s
    using sm_wf_shard [OF ready_wf [OF that], of k] by (auto simp: mem_of_def)
  with that show ?thesis using sim_ready [OF assms] by blast
qed

lemma sim_resolve_keys:
  "sim (now E) sm sn \<Longrightarrow> sim_ref (now E) (resolve_keys E sm current keys) (resolve_keys (other P bs E) sn current keys)"
proof (induction keys arbitrary: sm sn current)
  case (Cons key keys)
  show ?case
  proof (cases "map_lookup current key")
    case (Some val)
    show ?thesis
    proof (cases "keys = []")
      case True
      {
        fix s assume v: "val = JStr s" and p: "HasPrefix s ref_prefix"
        let ?a = "TrimPrefix s ref_prefix"
        obtain sh sh' where sh: "GetShardByKey sm ?a = Some sh" "M sh = mem_of sm ?a"
          "GetShardByKey sn ?a = Some sh'" "M sh' = mem_of sn ?a"
          by (rule sim_shard [OF Cons.prems])
        note g = sim_Get [OF Cons.prems, of ?a]
        obtain m ob m' ob' where e: "Get (now E) ?a (mem_of sm ?a) = (m, ob)"
          "Get (now E) ?a (mem_of sn ?a) = (m', ob')" by fastforce
        from g e have "sim (now E) (with_mem sm ?a m) (with_mem sn ?a m')" "ob' = ob" by simp_all
        then have ?thesis
          using Some True v p sh e by (auto simp: Let_def sim_ref_def split: option.split)
      }
      then show ?thesis using Some True Cons.prems by (cases val) (auto simp: sim_ref_def)
    next
      case False
      have ih: "sim_ref (now E) (resolve_keys E sm m keys) (resolve_keys (other P bs E) sn m keys)" for m
        using Cons.prems by (rule Cons.IH)
      show ?thesis
      proof (cases "as_map val")
        case (Some m)
        then show ?thesis using ih [of m] \<open>map_lookup current key = Some val\<close> False
          by (auto simp: sim_ref_def split: prod.splits)
      qed (use Some False Cons.prems in \<open>simp add: sim_ref_def\<close>)
    qed
  qed (simp add: Cons.prems sim_ref_def)
qed (simp add: sim_ref_def)

lemma sim_refRead:
  "sim (now E) sm sn \<Longrightarrow> sim_ref (now E) (refRead E sm obj refs) (refRead (other P bs E) sn obj refs)"
proof (induction refs arbitrary: sm sn obj)
  case (Cons r refs)
  have "sim_ref (now E) (resolveReference E sm obj r) (resolveReference (other P bs E) sn obj r)"
    using Cons.prems by (simp add: resolveReference_def sim_resolve_keys)
  with Cons.IH show ?case by (auto simp: sim_ref_def split: prod.splits ref_result.splits)
qed (simp add: sim_ref_def)

lemma sim_setref_loop:
  "sim (now E) sm sn \<Longrightarrow>
   (\<And>sm' sn' m'. sim (now E) sm' sn' \<Longrightarrow> sim_out (now E) (k sm' m') (k' sn' m')) \<Longrightarrow>
   sim_out (now E) (setref_loop E sm m refs k) (setref_loop (other P bs E) sn m refs k')"
  by (induction refs arbitrary: sm sn m) (auto intro!: sims split: option.split)

lemma sim_jsonGet:
  assumes "sim (now E) sm sn"
  shows "sim_out (now E) (jsonGetFunc E args sm) (jsonGetFunc (other P bs E) args sn)"
proof -
  have ref: "sim_out (now E) (case refRead E s m rs of (s', m', r) \<Rightarrow> f s' m' r)
      (case refRead (other P bs E) s2 m rs of (s', m', r) \<Rightarrow> f s' m' r)"
    if "sim (now E) s s2" "\<And>s s2 m r. sim (now E) s s2 \<Longrightarrow> sim_out (now E) (f s m r) (f s2 m r)"
    for s s2 m rs f
    using sim_refRead [OF that(1), where obj = m and refs = rs and P = P and bs = bs] that
    by (auto simp: sim_ref_def split: prod.splits)
  show ?thesis
    using assms
    by (auto simp: jsonGetFunc_def Let_def intro!: sims ref split: option.split simp del: split_paired_All)
qed

lemma sim_json:
  assumes "sim (now E) sm sn"
  shows "sim_out (now E) (jsonSetFunc E args sm) (jsonSetFunc (other P bs E) args sn)"
    "sim_out (now E) (jsonAddFunc E args sm) (jsonAddFunc (other P bs E) args sn)"
    "sim_out (now E) (jsonPGetFunc E args sm) (jsonPGetFunc (other P bs E) args sn)"
    "sim_out (now E) (jsonMergeFunc E args sm) (jsonMergeFunc (other P bs E) args sn)"
    "sim_out (now E) (jsonRemoveFunc E args sm) (jsonRemoveFunc (other P bs E) args sn)"
    "sim_out (now E) (jsonRefSetFunc E args sm) (jsonRefSetFunc (other P bs E) args sn)"
  using assms
  by (auto simp: jsonSetFunc_def jsonAddFunc_def jsonPGetFunc_def jsonMergeFunc_def jsonRemoveFunc_def
      jsonRefSetFunc_def Let_def intro!: sims sim_setref_loop split: option.split outcome.split)

section \<open>Every command\<close>

lemma sim_Execute:
  assumes "sim (now E) sm sn" and "in_i64 (now E)" and "ToUpper (euni E) c \<noteq> ''STATUS''"
  shows "sim_out (now E) (Execute E c args sm) (Execute (other P bs E) c args sn)"
proof (cases "map_of ExecCommands (ToUpper (euni E) c)")
  case None
  then show ?thesis using assms(1) by (simp add: Execute_def sim_done)
next
  case (Some h)
  then have "(ToUpper (euni E) c, h) \<in> set ExecCommands" by (rule map_of_SomeD)
  then have "sim_out (now E) (h E args sm) (h (other P bs E) args sn)"
    using assms(3) unfolding ExecCommands_def
    by (auto simp: existsFunc_def sim_exists [OF assms(1)] sim_common [OF assms(1)] sim_ttlKey [OF assms(1)] sim_done [OF assms(1)]
        sim_expireKey [OF assms(1,2)] sim_str_num [OF assms(1)] sim_list [OF assms(1)]
        sim_list_gpop [OF assms(1)] sim_map [OF assms(1)] sim_json [OF assms(1)] sim_jsonGet [OF assms(1)])
  with Some show ?thesis by (simp add: Execute_def)
qed

section \<open>A sequence of requests\<close>

text \<open>The answers to the requests of one connection after another; a panic ends the process.\<close>

type_synonym request = "env \<times> string \<times> string list"

fun serve :: "request list \<Rightarrow> db \<Rightarrow> result list" where
  "serve [] sm = []"
| "serve ((E, c, args) # rs) sm =
     (case Execute E c args sm of (sm', r) \<Rightarrow> r # (if r = Crash then [] else serve rs sm'))"

lemma serve_length: "length (serve rs sm) \<le> length rs"
  by (induction rs sm rule: serve.induct) (auto split: prod.split)

definition asks_status :: "request \<Rightarrow> bool" where
  "asks_status r = (case r of (E, c, args) \<Rightarrow> ToUpper (euni E) c = ''STATUS'')"

lemma sim_status:
  assumes "sim t sm sn" and "ToUpper (euni E) c = ''STATUS''"
  shows "sim t (fst (Execute E c args sm)) (fst (Execute (other P bs E) c args sn))"
    and "snd (Execute E c args sm) \<noteq> Crash" and "snd (Execute (other P bs E) c args sn) \<noteq> Crash"
  using assms by (auto simp: Execute_def ExecCommands_def serverStatus_def)

lemma serve_sim:
  "sim t sm sn \<Longrightarrow> sorted (t # map (\<lambda>(E, c, args). now E) rs) \<Longrightarrow>
   \<forall>(E, c, args) \<in> set rs. in_i64 (now E) \<Longrightarrow>
   as = serve rs sm \<Longrightarrow> as' = serve (map (\<lambda>(E, c, args). (other P bs E, c, args)) rs) sn \<Longrightarrow>
   length as = length as' \<and> (\<forall>i < length as. \<not> asks_status (rs ! i) \<longrightarrow> as ! i = as' ! i)"
proof (induction rs arbitrary: t sm sn as as')
  case (Cons r rs)
  obtain E c args where r: "r = (E, c, args)" by (cases r)
  let ?p = "Execute E c args sm" and ?q = "Execute (other P bs E) c args sn"
  let ?as = "serve rs (fst ?p)" and ?as' = "serve (map (\<lambda>(E, c, args). (other P bs E, c, args)) rs) (fst ?q)"
  have s: "sim (now E) sm sn" using sim_later [OF Cons.prems(1)] Cons.prems(2) r by simp
  have step: "sim (now E) (fst ?p) (fst ?q) \<and> (snd ?p = Crash \<longleftrightarrow> snd ?q = Crash) \<and> (\<not> asks_status r \<longrightarrow> snd ?p = snd ?q)"
  proof (cases "asks_status r")
    case True
    then show ?thesis using sim_status [OF s] by (simp add: asks_status_def r)
  next
    case False
    then show ?thesis
      using sim_Execute [OF s, of c args] Cons.prems(3) by (simp add: asks_status_def r sim_out_def)
  qed
  then have "length ?as = length ?as' \<and> (\<forall>i < length ?as. \<not> asks_status (rs ! i) \<longrightarrow> ?as ! i = ?as' ! i)"
    using Cons.prems(2,3) r by (intro Cons.IH) auto
  moreover have "as = snd ?p # (if snd ?p = Crash then [] else ?as)" "as' = snd ?q # (if snd ?q = Crash then [] else ?as')"
    using Cons.prems(4,5) by (simp_all add: r split_def)
  ultimately show ?case using step by (auto simp: nth_Cons split: nat.split)
qed simp

text \<open>C5.  The number of shards, the log and its settings are invisible to clients: two servers
  started with different ones answer the same requests of any sequence, and all of them alike, whatever keys
  fall into which shard and whenever an expired object is dropped.  The exception is \<^verbatim>\<open>STATUS\<close>, which
  reports the shards: the sequence may contain it, and the answers to all other requests are the same.\<close>

theorem shard_count_transparent:
  assumes "0 < n" and "0 < m" and "sorted (map (\<lambda>(E, c, args). now E) rs)"
    and "\<forall>(E, c, args) \<in> set rs. in_i64 (now E)"
  shows "let as = serve rs (NewShardManager g (\<lambda>_. None) path aw n);
      as' = serve (map (\<lambda>(E, c, args). (E\<lparr>eproto := P, ebranches := bs\<rparr>, c, args)) rs)
        (NewShardManager g' (\<lambda>_. None) path' aw' m)
    in length as = length as' \<and> (\<forall>i < length as. \<not> asks_status (rs ! i) \<longrightarrow> as ! i = as' ! i)"
proof (cases rs)
  case (Cons r rs')
  then have "sorted ((case r of (E, c, args) \<Rightarrow> now E) # map (\<lambda>(E, c, args). now E) rs)"
    using assms(3) by (cases r) simp
  moreover have "sim t (NewShardManager g (\<lambda>_. None) path aw n) (NewShardManager g' (\<lambda>_. None) path' aw' m)" for t
    using assms(1,2) by (simp add: sim_def NewShardManager_ready fun_eq_iff)
  ultimately show ?thesis using assms(4) unfolding Let_def by (intro serve_sim) auto
qed simp

theorem shard_count_transparent_witness:
  "length (serve [(env1 5, ''STATUS'', []), (env1 7, ''GET'', [''k''])] (NewShardManager 1 (\<lambda>_. None) [] 1 1)) =
     length (serve [(env1 5, ''STATUS'', []), (env1 7, ''GET'', [''k''])] (NewShardManager 1 (\<lambda>_. None) [] 1 3)) \<and>
   serve [(env1 5, ''SET'', [''k'', ''v'']), (env1 7, ''GET'', [''k''])] (NewShardManager 1 (\<lambda>_. None) [] 1 1) =
   serve [(env1 5, ''SET'', [''k'', ''v'']), (env1 7, ''GET'', [''k''])] (NewShardManager 1 (\<lambda>_. None) [] 1 3)"
proof -
  have u: "ToUpper u ''SET'' = ''SET''" "ToUpper u ''GET'' = ''GET''" for u
    by (simp_all add: ToUpper_upper byte_of_def)
  note t = shard_count_transparent [where n = 1 and m = 3 and P = P2 and bs = "[]" and g = 1 and g' = 1
      and path = "[]" and path' = "[]" and aw = 1 and aw' = 1, unfolded Let_def]
  have e: "E\<lparr>eproto := P2, ebranches := []\<rparr> = E" if "E = env1 t" for E t using that by (simp add: env1_def)
  have "length (serve [(env1 5, ''STATUS'', []), (env1 7, ''GET'', [''k''])] (NewShardManager 1 (\<lambda>_. None) [] 1 1)) =
      length (serve [(env1 5, ''STATUS'', []), (env1 7, ''GET'', [''k''])] (NewShardManager 1 (\<lambda>_. None) [] 1 3))"
    using t [of "[(env1 5, ''STATUS'', []), (env1 7, ''GET'', [''k''])]"] by (simp add: in_i64_def e)
  moreover have "\<not> asks_status ([(env1 5, ''SET'', [''k'', ''v'']), (env1 7, ''GET'', [''k''])] ! i)" if "i < 2" for i
    using that u by (auto simp: asks_status_def less_2_cases_iff)
  then have "serve [(env1 5, ''SET'', [''k'', ''v'']), (env1 7, ''GET'', [''k''])] (NewShardManager 1 (\<lambda>_. None) [] 1 1) =
      serve [(env1 5, ''SET'', [''k'', ''v'']), (env1 7, ''GET'', [''k''])] (NewShardManager 1 (\<lambda>_. None) [] 1 3)"
    using t [of "[(env1 5, ''SET'', [''k'', ''v'']), (env1 7, ''GET'', [''k''])]"]
      serve_length [of "[(env1 5, ''SET'', [''k'', ''v'']), (env1 7, ''GET'', [''k''])]" "NewShardManager 1 (\<lambda>_. None) [] 1 1"]
    by (intro nth_equalityI) (simp_all add: in_i64_def e del: serve.simps)
  ultimately show ?thesis by blast
qed

end
