(* ===== verification/Replay.thy ===== *)
theory Replay
  imports Commander
begin

text \<open>
  The store and its log agree: what a client can see of a key is what replaying the entries of
  that key gives.  This is the refinement that makes recovery work; every command keeps it as
  long as the log accepts its entry, with one exception (\<^verbatim>\<open>LIST.GPOP\<close> on a list that has an
  expiration time).
\<close>

definition apply_entry :: "string \<Rightarrow> walEntry \<Rightarrow> object option \<Rightarrow> object option" where
  "apply_entry k e st =
     (if EKey e \<noteq> k then st
      else if Op e = UPDATE then (case EObject e of Some ob \<Rightarrow> Some ob | None \<Rightarrow> st)
      else if Op e = DELETE then None
      else st)"

definition replay :: "string \<Rightarrow> walEntry list \<Rightarrow> object option" where
  "replay k es = fold (apply_entry k) es None"

lemma replay_snoc: "replay k (es @ [e]) = apply_entry k e (replay k es)"
  by (simp add: replay_def)

text \<open>What of a replayed object is visible at time \<open>u\<close>.\<close>

definition alive :: "int \<Rightarrow> object option \<Rightarrow> object option" where
  "alive u st = (case st of None \<Rightarrow> None | Some ob \<Rightarrow> if expired u ob then None else Some ob)"

lemma alive_simps [simp]:
  "alive u None = None" "alive u (Some ob) = (if expired u ob then None else Some ob)"
  by (simp_all add: alive_def)

lemma visible_alive: "visible u sm k = alive u (stored sm k)"
  by (simp add: visible_stored alive_def)

definition agree :: "int \<Rightarrow> db \<Rightarrow> (string \<Rightarrow> walEntry list) \<Rightarrow> bool" where
  "agree t sm h \<longleftrightarrow>
     (\<forall>k u. t < u \<longrightarrow> visible u sm k = alive u (replay k (h (wnode (smwal sm) k))))"

text \<open>The log takes another entry for any key.\<close>

definition room :: "walSystem \<Rightarrow> bool" where
  "room w \<longleftrightarrow> \<not> wclosed w \<and> (\<forall>i sh. map_of (wshards w) i = Some sh \<longrightarrow>
     \<not> sclosed sh \<and> int (length (ch sh)) < WriteChanSize (opts sh))"

lemma enqueue_room:
  assumes "wal_wf ws" and "room ws"
  shows "\<exists>ws'. enqueue P bs k e (ws\<lparr>writeCount := c\<rparr>) = (ws', WOk)"
proof -
  obtain sh where sh: "map_of (wshards ws) (GetNode (wchash ws) k) = Some sh"
    using wal_wf_shard [OF assms(1)] unfolding wnode_def by blast
  then have "\<not> sclosed sh" "int (length (ch sh)) < WriteChanSize (opts sh)"
    using assms(2) by (auto simp: room_def)
  then show ?thesis using sh by (simp add: enqueue_def Let_def send_def)
qed

lemma wPut_room: "wal_wf ws \<Longrightarrow> room ws \<Longrightarrow> \<exists>ws'. wPut P bs k ob ws = (ws', WOk)"
  using enqueue_room by (simp add: wPut_def room_def)

lemma wDelete_room: "wal_wf ws \<Longrightarrow> room ws \<Longrightarrow> \<exists>ws'. wDelete P bs k ws = (ws', WOk)"
  using enqueue_room by (simp add: wDelete_def room_def)

section \<open>The invariant of a request\<close>

definition ts_ok :: "object \<Rightarrow> bool" where
  "ts_ok ob \<longleftrightarrow> 0 \<le> Timestamp ob \<and> Timestamp ob < 2 ^ 63"

definition nonneg :: "db \<Rightarrow> bool" where
  "nonneg sm \<longleftrightarrow> (\<forall>k ob. stored sm k = Some ob \<longrightarrow> ts_ok ob)"

text \<open>Every entry is in the log of the node of its key.\<close>

definition placed :: "walSystem \<Rightarrow> (string \<Rightarrow> walEntry list) \<Rightarrow> bool" where
  "placed w h \<longleftrightarrow> (\<forall>i. \<forall>e \<in> set (h i). wnode w (EKey e) = i)"

text \<open>An entry that protobuf cannot encode is dropped by the goroutine: here, every such entry is still
  in the channel of its shard, and \<open>marshals\<close> says that there is none.\<close>

definition pending :: "proto \<Rightarrow> walSystem \<Rightarrow> (string \<Rightarrow> walEntry list) \<Rightarrow> bool" where
  "pending P w h \<longleftrightarrow> (\<forall>i. \<forall>e \<in> set (h i). Marshal P e = None \<longrightarrow>
     (\<exists>sh. map_of (wshards w) i = Some sh \<and> e \<in> set (ch sh)))"

definition marshals :: "proto \<Rightarrow> walSystem \<Rightarrow> bool" where
  "marshals P w \<longleftrightarrow> (\<forall>i sh. map_of (wshards w) i = Some sh \<longrightarrow> (\<forall>e \<in> set (ch sh). Marshal P e \<noteq> None))"

lemma pending_marshals: "pending P w h \<Longrightarrow> marshals P w \<Longrightarrow> e \<in> set (h i) \<Longrightarrow> Marshal P e \<noteq> None"
  unfolding pending_def marshals_def by blast

lemma enqueue_pending:
  assumes "wal_wf ws" and "room ws" and "pending P ws h"
  shows "pending P (fst (enqueue P bs k e (ws\<lparr>writeCount := c\<rparr>))) (h(wnode ws k := h (wnode ws k) @ [e]))"
proof -
  obtain sh where sh: "map_of (wshards ws) (wnode ws k) = Some sh"
    using wal_wf_shard [OF assms(1)] by blast
  then have "\<not> sclosed sh" "int (length (ch sh)) < WriteChanSize (opts sh)"
    using assms(2) by (auto simp: room_def)
  then have "fst (enqueue P bs k e (ws\<lparr>writeCount := c\<rparr>)) =
      ws\<lparr>writeCount := c, wshards := gm_upd (wnode ws k) (sh\<lparr>ch := ch sh @ [e]\<rparr>) (wshards ws)\<rparr>"
    using sh by (simp add: enqueue_def send_def Let_def wnode_def)
  then show ?thesis using assms(3) sh by (fastforce simp: pending_def split: if_splits)
qed

lemma wPut_pending:
  assumes "wal_wf ws" and "room ws" and "pending P ws h"
  shows "pending P (fst (wPut P bs k ob ws)) (h(wnode ws k := h (wnode ws k) @ [\<lparr>Op = UPDATE, EKey = k, EObject = ob\<rparr>]))"
    and "pending P (fst (wDelete P bs k ws)) (h(wnode ws k := h (wnode ws k) @ [\<lparr>Op = DELETE, EKey = k, EObject = None\<rparr>]))"
  using enqueue_pending [OF assms] assms(2) by (simp_all add: wPut_def wDelete_def room_def)

definition logged :: "proto \<Rightarrow> int \<Rightarrow> db \<Rightarrow> bool" where
  "logged P t sm \<longleftrightarrow> sm_wf sm \<and> nonneg sm \<and> 
     (\<exists>h. holds P (smwal sm) h \<and> placed (smwal sm) h \<and> agree t sm h \<and> pending P (smwal sm) h)"

lemma logged_drop:
  assumes "logged P t sm" and "gm_get (mem_of sm key) key = Some ob" and "Timestamp ob \<noteq> 0"
    and "Timestamp ob \<le> t"
  shows "logged P t (with_mem sm key (gm_del key (mem_of sm key)))"
proof -
  have s: "stored sm key = Some ob" using assms(2) by (simp add: stored_def)
  then have pos: "0 < Timestamp ob" using assms(1,3) by (force simp: logged_def nonneg_def ts_ok_def)
  have wf: "sm_wf sm" using assms(1) by (simp add: logged_def)
  have st: "stored (with_mem sm key (gm_del key (mem_of sm key))) k =
      (if k = key then None else stored sm k)" for k
    using wf by (simp add: stored_same_node)
  have "visible u (with_mem sm key (gm_del key (mem_of sm key))) k = visible u sm k" if "t < u" for u k
    using that s pos assms(4) by (simp add: visible_alive st expired_def)
  then show ?thesis
    using assms(1) wf by (auto simp: logged_def nonneg_def st agree_def split: if_splits)
qed

lemma logged_write:
  assumes "logged P t sm" and "room (smwal sm)" and "gm_ok m"
    and "\<And>j. j \<noteq> key \<Longrightarrow> gm_get m j = gm_get (mem_of sm key) j"
    and "\<And>ob. gm_get m key = Some ob \<Longrightarrow> ts_ok ob"
    and "\<And>h. holds P (smwal sm) h \<Longrightarrow>
      holds P w (h(wnode (smwal sm) key := h (wnode (smwal sm) key) @ [e])) \<and> wnode w = wnode (smwal sm)"
    and "\<And>h. pending P (smwal sm) h \<Longrightarrow> pending P w (h(wnode (smwal sm) key := h (wnode (smwal sm) key) @ [e]))"
    and "EKey e = key" and "\<And>st u. t < u \<Longrightarrow> alive u (apply_entry key e st) = alive u (gm_get m key)"
  shows "logged P t ((with_mem sm key m)\<lparr>smwal := w\<rparr>)"
proof -
  obtain h where h: "holds P (smwal sm) h" "agree t sm h" "placed (smwal sm) h"
    "pending P (smwal sm) h" and wf: "sm_wf sm"
    using assms(1) by (auto simp: logged_def)
  let ?n = "wnode (smwal sm)" and ?sm = "(with_mem sm key m)\<lparr>smwal := w\<rparr>"
  let ?h = "h(?n key := h (?n key) @ [e])"
  have "stored ?sm = stored (with_mem sm key m)"
    by (simp add: stored_def mem_of_def GetShardByKey_def fun_eq_iff)
  then have st: "stored ?sm k = (if k = key then gm_get m key else stored sm k)" for k
    using stored_same_node [OF wf assms(4)] by simp
  have wf': "sm_wf ?sm" using sm_wf_with_mem [OF wf assms(3)] by (simp add: sm_wf_def)
  have w: "holds P w ?h" "wnode w = ?n" using assms(6) [OF h(1)] by simp_all
  have "visible u ?sm k = alive u (replay k (?h (?n k)))" if u: "t < u" for u k
  proof (cases "k = key")
    case True
    then show ?thesis using assms(9) [OF u] by (simp add: visible_alive st replay_snoc)
  next
    case False
    then have "replay k (?h (?n k)) = replay k (h (?n k))"
      using assms(8) by (simp add: replay_snoc apply_entry_def)
    then show ?thesis using False h(2) u by (simp add: visible_alive st agree_def)
  qed
  then have "agree t ?sm ?h" by (simp add: agree_def w(2))
  moreover have "nonneg ?sm"
    using assms(1,5) by (auto simp: nonneg_def st logged_def)
  moreover have "placed w ?h" using h(3) assms(8) w(2) by (auto simp: placed_def)
  moreover have "pending P w ?h" by (rule assms(7) [OF h(4)])
  ultimately show ?thesis using w(1) wf' by (auto simp: logged_def)
qed

lemma logged_put:
  assumes "logged (eproto E) t sm" and "room (smwal sm)" and "gm_ok m"
    and "\<And>j. j \<noteq> key \<Longrightarrow> gm_get m j = gm_get (mem_of sm key) j" and "gm_get m key = Some ob'"
    and "ts_ok ob'" and "\<And>u. t < u \<Longrightarrow> alive u (Some ob) = alive u (Some ob')"
  shows "logged (eproto E) t (fst (log_put E key ob (with_mem sm key m) r))"
proof -
  let ?P = "eproto E"
  have wf: "wal_wf (smwal sm)" using assms(1) by (auto simp: logged_def holds_def)
  then obtain w where w: "wPut ?P (ebranches E) key (Some ob) (smwal sm) = (w, WOk)"
    using wPut_room assms(2) by blast
  let ?e = "\<lparr>Op = UPDATE, EKey = key, EObject = Some ob\<rparr>"
  have "logged ?P t ((with_mem sm key m)\<lparr>smwal := w\<rparr>)"
  proof (rule logged_write [OF assms(1-4), where e = ?e])
    show "ts_ok x" if "gm_get m key = Some x" for x using that assms(5,6) by simp
    show "holds ?P w (h(wnode (smwal sm) key := h (wnode (smwal sm) key) @ [?e])) \<and>
        wnode w = wnode (smwal sm)" if "holds ?P (smwal sm) h" for h
      using wPut_holds [OF that w] by (simp add: log_add_def)
    show "pending ?P w (h(wnode (smwal sm) key := h (wnode (smwal sm) key) @ [?e]))"
      if "pending ?P (smwal sm) h" for h
      using wPut_pending(1) [OF wf assms(2) that, of "ebranches E" key "Some ob"] w by simp
  qed (use assms(5,7) in \<open>simp_all add: apply_entry_def\<close>)
  then show ?thesis by (simp add: log_put_def w)
qed

lemma logged_del:
  assumes "logged (eproto E) t sm" and "room (smwal sm)"
  shows "logged (eproto E) t (fst (log_del E key (with_mem sm key (gm_del key (mem_of sm key))) r))"
proof -
  let ?P = "eproto E"
  have wf: "sm_wf sm" and ww: "wal_wf (smwal sm)" using assms(1) by (auto simp: logged_def holds_def)
  then obtain w where w: "wDelete ?P (ebranches E) key (smwal sm) = (w, WOk)"
    using wDelete_room assms(2) by blast
  let ?e = "\<lparr>Op = DELETE, EKey = key, EObject = None\<rparr>"
  have "logged ?P t ((with_mem sm key (gm_del key (mem_of sm key)))\<lparr>smwal := w\<rparr>)"
  proof (rule logged_write [OF assms, where e = ?e])
    show "holds ?P w (h(wnode (smwal sm) key := h (wnode (smwal sm) key) @ [?e])) \<and>
        wnode w = wnode (smwal sm)" if "holds ?P (smwal sm) h" for h
      using wDelete_holds [OF that w] by (simp add: log_add_def)
    show "pending ?P w (h(wnode (smwal sm) key := h (wnode (smwal sm) key) @ [?e]))"
      if "pending ?P (smwal sm) h" for h
      using wPut_pending(2) [OF ww assms(2) that, of "ebranches E" key] w by simp
  qed (simp_all add: wf apply_entry_def UPDATE_def DELETE_def)
  then show ?thesis by (simp add: log_del_def w)
qed

interpretation log_inv: request_inv E
  "\<lambda>sm. in_i64 (now E) \<and> logged (eproto E) (now E) sm \<and> room (smwal sm)"
  "logged (eproto E) (now E)" "\<lambda>_. True" ts_ok for E
proof unfold_locales
  fix sm key ob r
  assume i: "in_i64 (now E) \<and> logged (eproto E) (now E) sm \<and> room (smwal sm)"
  show "sm_wf sm" using i by (simp add: logged_def)
  show "logged (eproto E) (now E) sm" using i by simp
  show "in_i64 (now E)" using i by simp
  {
    assume "gm_get (mem_of sm key) key = Some ob"
    then show "ts_ok ob" using i by (auto simp: logged_def nonneg_def stored_def)
  }
  show "logged (eproto E) (now E) (fst (log_put E key ob (with_mem sm key (gm_upd key ob (mem_of sm key))) r))"
    if "ts_ok ob"
    using i that by (intro logged_put [where ob' = ob]) (auto simp: logged_def)
  show "logged (eproto E) (now E) (fst (log_del E key (with_mem sm key (gm_del key (mem_of sm key))) r))"
    using i by (intro logged_del) auto
  show "in_i64 (now E) \<and> logged (eproto E) (now E) (with_mem sm key (gm_del key (mem_of sm key))) \<and>
      room (smwal (with_mem sm key (gm_del key (mem_of sm key))))"
    if "gm_get (mem_of sm key) key = Some ob" "0 < Timestamp ob" "Timestamp ob < now E"
    using i that by (auto intro: logged_drop)
  show "in_i64 (now E) \<and> logged (eproto E) (now E) (with_mem sm key (gm_del key (mem_of sm key))) \<and>
      room (smwal (with_mem sm key (gm_del key (mem_of sm key))))"
    if "gm_get (mem_of sm key) key = Some ob" "Timestamp ob \<noteq> 0" "Timestamp ob \<le> now E"
    using i that by (auto intro: logged_drop)
qed (simp_all add: ts_ok_def)

section \<open>Requests and the work of the log\<close>

lemma logged_later: "logged P t sm \<Longrightarrow> t \<le> u \<Longrightarrow> logged P u sm"
  by (auto simp: logged_def agree_def)

lemma logged_log_step:
  assumes a: "logged P t sm" and m: "marshals P (smwal sm)"
  shows "logged P t (sm\<lparr>smwal := wal_run P i b (smwal sm)\<rparr>)"
proof -
  from a obtain h where h: "holds P (smwal sm) h" "agree t sm h" "placed (smwal sm) h"
    "pending P (smwal sm) h"
    by (auto simp: logged_def)
  let ?sm = "sm\<lparr>smwal := wal_run P i b (smwal sm)\<rparr>"
  have w: "holds P (smwal ?sm) h" "wnode (wal_run P i b (smwal sm)) = wnode (smwal sm)"
    using wal_run_holds [OF h(1), of i b] by simp_all
  have st: "stored ?sm = stored sm" and "sm_wf ?sm = sm_wf sm"
    by (auto simp: stored_def mem_of_def GetShardByKey_def sm_wf_def fun_eq_iff)
  then have "sm_wf ?sm" "nonneg ?sm" using a by (simp_all add: logged_def nonneg_def)
  moreover have "agree t ?sm h" "placed (smwal ?sm) h"
    using h(2,3) by (simp_all add: agree_def placed_def visible_alive st w(2))
  moreover have "pending P (smwal ?sm) h"
    unfolding pending_def using pending_marshals [OF h(4) m] by blast
  ultimately show ?thesis using w(1) by (auto simp: logged_def)
qed

text \<open>The expiration times a request sets do not overflow.\<close>

definition no_overflow :: "env \<Rightarrow> string list \<Rightarrow> bool" where
  "no_overflow E args \<longleftrightarrow>
     (case ParseDurationToSeconds (args ! 1) of None \<Rightarrow> True | Some s \<Rightarrow> now E + s < 2 ^ 63)"

text \<open>A \<^verbatim>\<open>LIST.GPOP\<close> of a list that does not expire.\<close>

definition gpop_safe :: "env \<Rightarrow> string list \<Rightarrow> db \<Rightarrow> bool" where
  "gpop_safe E args sm \<longleftrightarrow> args = [] \<or>
     (case visible (now E) sm (args ! 0) of None \<Rightarrow> True | Some ob \<Rightarrow> Timestamp ob = 0)"

lemma listGPop_logged:
  assumes "logged (eproto E) (now E) sm" and "room (smwal sm)" and "gpop_safe E args sm"
  shows "logged (eproto E) (now E) (fst (listGPopFunc E args sm))"
proof (cases "args = [] \<or> \<not> IsValidKey (args ! 0)")
  case True
  then show ?thesis using assms(1) by (auto simp: listGPopFunc_def Let_def)
next
  case False
  let ?k = "args ! 0"
  have wf: "sm_wf sm" using assms(1) by (simp add: logged_def)
  note get = fetch_def on_shard_wf [OF wf] Get_def with_mem_mem_of [OF wf]
  show ?thesis
  proof (cases "gm_get (mem_of sm ?k) ?k")
    case None
    then show ?thesis using False assms(1) by (simp add: listGPopFunc_def Let_def get)
  next
    case (Some ob)
    show ?thesis
    proof (cases "0 < Timestamp ob \<and> Timestamp ob < now E")
      case True
      then show ?thesis
        using False Some logged_drop [OF assms(1) Some] by (simp add: listGPopFunc_def Let_def get)
    next
      case fresh: False
      then have "Timestamp ob = 0"
        using assms(3) False Some fresh by (auto simp: gpop_safe_def visible_stored stored_def expired_def split: if_splits)
      moreover have "logged (eproto E) (now E) (fst (log_put E ?k (ob\<lparr>Value := v\<rparr>) (with_mem sm ?k (Set ?k v KList (mem_of sm ?k))) x))"
        if "Timestamp ob = 0" "KList = Kind ob" for v x
      proof (rule logged_put [OF assms(1,2), where ob' = "\<lparr>Value = v, Kind = KList, Timestamp = 0\<rparr>"])
        show "gm_ok (Set ?k v KList (mem_of sm ?k))" using wf by (simp add: Set_def)
        show "alive u (Some (ob\<lparr>Value := v\<rparr>)) = alive u (Some \<lparr>Value = v, Kind = KList, Timestamp = 0\<rparr>)" for u
          using that by (cases ob) (simp add: expired_def)
      qed (simp_all add: Set_def ts_ok_def)
      ultimately show ?thesis
        using False fresh Some assms(1) by (auto simp: listGPopFunc_def Let_def get split: option.split)
    qed
  qed
qed

lemma Execute_logged:
  assumes "logged (eproto E) t sm" and "t \<le> now E" and "0 \<le> now E" and "now E < 2 ^ 63"
    and "room (smwal sm)" and "ToUpper (euni E) command = ''LIST.GPOP'' \<Longrightarrow> gpop_safe E args sm"
    and "ToUpper (euni E) command = ''TTL.EXPIRE'' \<Longrightarrow> no_overflow E args"
  shows "logged (eproto E) (now E) (fst (Execute E command args sm))"
proof (cases "ToUpper (euni E) command = ''LIST.GPOP''")
  case True
  then show ?thesis
    using listGPop_logged [OF logged_later [OF assms(1,2)] assms(5,6)] by (simp add: Execute_def ExecCommands_def)
next
  case other: False
  show ?thesis
  proof (rule log_inv.execute_J)
  show "in_i64 (now E) \<and> logged (eproto E) (now E) sm \<and> room (smwal sm)"
    using assms logged_later by (auto simp: in_i64_def)
  show "ts_ok (ob\<lparr>Timestamp := i64 (now E + s)\<rparr>)"
    if "ToUpper (euni E) command = ''TTL.EXPIRE''" "ParseDurationToSeconds (args ! 1) = Some s" "0 < s" for s ob
  proof -
    have "in_i64 (now E + s)"
      using assms(3,7) that by (simp add: no_overflow_def in_i64_def)
    then show ?thesis using assms(3) that(3) by (simp add: i64_id ts_ok_def in_i64_def)
  qed
  qed (use other in \<open>auto simp: ts_ok_def\<close>)
qed

datatype event = Request env string "string list" | LogStep string branch

fun run_event :: "proto \<Rightarrow> event \<Rightarrow> db \<Rightarrow> db" where
  "run_event P (Request E command args) sm = fst (Execute E command args sm)"
| "run_event P (LogStep i b) sm = sm\<lparr>smwal := wal_run P i b (smwal sm)\<rparr>"

text \<open>A trace in which the clock does not go back, the log always has room and every entry it takes
  can be encoded, no expiration time overflows, and no list that expires is popped by \<^verbatim>\<open>LIST.GPOP\<close>; \<open>t\<close> is
  the time of the last request.\<close>

fun trace_ok :: "proto \<Rightarrow> int \<Rightarrow> event list \<Rightarrow> db \<Rightarrow> bool" where
  "trace_ok P t [] sm = True"
| "trace_ok P t (LogStep i b # es) sm =
     (marshals P (smwal sm) \<and> trace_ok P t es (run_event P (LogStep i b) sm))"
| "trace_ok P t (Request E command args # es) sm =
     (eproto E = P \<and> t \<le> now E \<and> 0 \<le> now E \<and> now E < 2 ^ 63 \<and> room (smwal sm) \<and>
      (ToUpper (euni E) command = ''LIST.GPOP'' \<longrightarrow> gpop_safe E args sm) \<and>
      (ToUpper (euni E) command = ''TTL.EXPIRE'' \<longrightarrow> no_overflow E args) \<and>
      trace_ok P (now E) es (run_event P (Request E command args) sm))"

fun last_time :: "int \<Rightarrow> event list \<Rightarrow> int" where
  "last_time t [] = t"
| "last_time t (LogStep i b # es) = last_time t es"
| "last_time t (Request E command args # es) = last_time (now E) es"

lemma trace_logged:
  "logged P t sm \<Longrightarrow> trace_ok P t es sm \<Longrightarrow> logged P (last_time t es) (fold (run_event P) es sm)"
proof (induction es arbitrary: t sm)
  case (Cons e es)
  show ?case
  proof (cases e)
    case (Request E command args)
    with Cons.prems have "logged P (now E) (run_event P e sm)"
      using Execute_logged [of E t sm command args] by simp
    with Cons Request show ?thesis by simp
  next
    case (LogStep i b)
    with Cons.prems have "logged P t (run_event P e sm)" by (simp add: logged_log_step)
    with Cons LogStep show ?thesis by simp
  qed
qed simp

section \<open>The shards of the log\<close>

text \<open>No request and no work of the log changes which shards the log has.\<close>

lemma enqueue_dom: "dom (map_of (wshards (fst (enqueue P bs k e w)))) = dom (map_of (wshards w))"
  by (auto simp: enqueue_def Let_def split: option.split)

lemma log_dom [simp]:
  "dom (map_of (wshards (smwal (fst (log_put E k ob sm r))))) = dom (map_of (wshards (smwal sm)))"
  "dom (map_of (wshards (smwal (fst (log_del E k sm r))))) = dom (map_of (wshards (smwal sm)))"
  using enqueue_dom [where w = "smwal sm\<lparr>writeCount := writeCount (smwal sm) + 1\<rparr>"]
  by (auto simp: log_put_def log_del_def wPut_def wDelete_def split: prod.split)
    (metis (no_types, lifting) domI domD fst_conv walSystem.select_convs(1) walSystem.simps(6))+

interpretation dom_inv: request_inv E
  "\<lambda>sm. in_i64 (now E) \<and> sm_wf sm \<and> dom (map_of (wshards (smwal sm))) = D"
  "\<lambda>sm. sm_wf sm \<and> dom (map_of (wshards (smwal sm))) = D" "\<lambda>_. True" "\<lambda>_. True"
  for E D
  by unfold_locales simp_all

lemma run_event_dom:
  assumes "sm_wf sm" and "case e of Request E _ _ \<Rightarrow> in_i64 (now E) | LogStep _ _ \<Rightarrow> True"
  shows "sm_wf (run_event P e sm) \<and>
    dom (map_of (wshards (smwal (run_event P e sm)))) = dom (map_of (wshards (smwal sm)))"
proof (cases e)
  case (Request E command args)
  with assms show ?thesis
    using dom_inv.execute_J [where E = E and D = "dom (map_of (wshards (smwal sm)))" and sm = sm
        and args = args and command = command] by simp
next
  case (LogStep i b)
  have "sm_wf (sm\<lparr>smwal := w\<rparr>) = sm_wf sm" for w by (simp add: sm_wf_def)
  with assms LogStep show ?thesis by (auto simp: wal_run_def split: option.split)
qed

lemma trace_dom:
  "sm_wf sm \<Longrightarrow> trace_ok P t es sm \<Longrightarrow> sm_wf (fold (run_event P) es sm) \<and>
   dom (map_of (wshards (smwal (fold (run_event P) es sm)))) = dom (map_of (wshards (smwal sm)))"
proof (induction es arbitrary: t sm)
  case (Cons e es)
  have "case e of Request E _ _ \<Rightarrow> in_i64 (now E) | LogStep _ _ \<Rightarrow> True"
    using Cons.prems(2) by (cases e) (auto simp: in_i64_def)
  from run_event_dom [OF Cons.prems(1) this, of P]
  have r: "sm_wf (run_event P e sm)"
    "dom (map_of (wshards (smwal (run_event P e sm)))) = dom (map_of (wshards (smwal sm)))" by simp_all
  obtain t' where "trace_ok P t' es (run_event P e sm)"
    using Cons.prems(2) by (cases e) auto
  from Cons.IH [OF r(1) this] r(2) show ?case by simp
qed simp

end
