(* ===== verification/Recovery.thy ===== *)
theory Recovery
  imports Replay Startup "HOL-Library.Multiset"
begin

text \<open>
  Shutdown and restart: closing the log puts everything it accepted into its files
  (\<^verbatim>\<open>WALSystem.Close\<close>), and recovery into an empty store (\<^verbatim>\<open>RecoverMemory\<close>) rebuilds for every
  key the object its log entries replay to, the expiration time moved as the code moves it.
\<close>

section \<open>Closing\<close>

text \<open>The files after closing hold the history.\<close>

lemma wClose_files:
  assumes "holds P w h" and "room w" and "map_of (wshards (wClose P w)) i = Some sh"
  shows "wfile sh = records P (h i)"
proof -
  obtain s where s: "map_of (wshards w) i = Some s" "sh = sClose P s"
    using assms(2,3) by (auto simp: wClose_def room_def map_of_apsnd)
  then have "shard_inv s" "log_of P s = records P (h i)" "\<not> sclosed s"
    using assms(1,2) by (auto simp: holds_def wal_wf_def room_def)
  then show ?thesis using s(2) by (simp add: sClose_file)
qed

section \<open>The callback\<close>

text \<open>What recovery makes of an object: one whose time has come loses its expiration time.\<close>

definition restore :: "int \<Rightarrow> int \<Rightarrow> object \<Rightarrow> object" where
  "restore t t' ob = ob\<lparr>Timestamp :=
     if 0 < Timestamp ob \<and> 0 < i64 (Timestamp ob - t) then i64 (t' + i64 (Timestamp ob - t)) else 0\<rparr>"

definition cb_apply :: "int \<Rightarrow> int \<Rightarrow> string \<Rightarrow> delivery \<Rightarrow> object option \<Rightarrow> object option" where
  "cb_apply t t' k d st =
     (case d of (key, ob, isDeleted) \<Rightarrow>
        if key \<noteq> k then st
        else if isDeleted then None
        else case ob of None \<Rightarrow> st | Some ob \<Rightarrow> Some (restore t t' ob))"

lemma stored_with_mem:
  assumes "sm_wf sm" and "\<And>j. j \<noteq> key \<Longrightarrow> gm_get m j = gm_get (mem_of sm key) j"
  shows "stored (with_mem sm key m) = (stored sm)(key := gm_get m key)"
  using stored_same_node [OF assms] by (auto simp: fun_eq_iff)

lemma recover_cb_spec:
  assumes "sm_wf sm"
  shows "\<exists>sm'. recover_cb t t' d sm = Some sm' \<and> sm_wf sm' \<and>
    (\<forall>k. stored sm' k = cb_apply t t' k d (stored sm k))"
proof -
  obtain key ob del where d: "d = (key, ob, del)" by (cases d) auto
  obtain sh where sh: "GetShardByKey sm key = Some sh" using sm_wf_shard [OF assms] by blast
  then have m: "M sh = mem_of sm key" by (simp add: mem_of_def)
  have ok: "gm_ok (mem_of sm key)" using assms by simp
  let ?put = "\<lambda>x. with_mem sm key (gm_upd key x (mem_of sm key))"
  have put: "sm_wf (?put x)" "stored (?put x) = (stored sm)(key \<mapsto> x)" for x
    using assms ok by (simp_all add: stored_with_mem)
  have same: "\<lparr>Value = Value x, Kind = Kind x, Timestamp = ts\<rparr> = x\<lparr>Timestamp := ts\<rparr>" for x :: object and ts
    by (cases x) simp
  consider "del" | "\<not> del" "ob = None" | x where "\<not> del" "ob = Some x" by (cases ob) auto
  then show ?thesis
  proof cases
    case 1
    let ?sm = "with_mem sm key (fst (Delete key (mem_of sm key)))"
    have "sm_wf ?sm" "stored ?sm = (stored sm)(key := None)"
      using assms ok by (auto simp: stored_with_mem Delete_def fun_eq_iff stored_def)
    then show ?thesis using 1 sh by (auto simp: d recover_cb_def Let_def m cb_apply_def)
  next
    case 2
    then show ?thesis using assms by (simp add: d recover_cb_def Let_def cb_apply_def)
  next
    case 3
    then have "recover_cb t t' d sm = Some (?put (restore t t' x))"
      using sh by (auto simp: d recover_cb_def Let_def m SetWithTTL_def Set_def same restore_def)
    with put [of "restore t t' x"] 3 show ?thesis by (auto simp: d cb_apply_def)
  qed
qed

lemma recover_all_spec:
  "sm_wf sm \<Longrightarrow> \<exists>sm'. recover_all t t' ds sm = Some sm' \<and> sm_wf sm' \<and>
     (\<forall>k. stored sm' k = fold (cb_apply t t' k) ds (stored sm k))"
proof (induction ds arbitrary: sm)
  case (Cons d ds)
  from recover_cb_spec [OF Cons.prems] obtain sm1 where
    1: "recover_cb t t' d sm = Some sm1" "sm_wf sm1"
      "\<forall>k. stored sm1 k = cb_apply t t' k d (stored sm k)" by blast
  from Cons.IH [OF 1(2)] 1(1,3) show ?case by auto
qed simp

section \<open>Deliveries and replay\<close>

lemma cb_apply_deliver:
  "fold (cb_apply t t' k) (deliver e) (map_option (restore t t') st) =
   map_option (restore t t') (apply_entry k e st)"
  by (auto simp: deliver_def cb_apply_def apply_entry_def UPDATE_def DELETE_def split: option.split)

lemma cb_apply_deliveries:
  "\<forall>e \<in> set es. Marshal P e \<noteq> None \<Longrightarrow>
   fold (cb_apply t t' k) (deliveries P es) (map_option (restore t t') st) =
   map_option (restore t t') (fold (apply_entry k) es st)"
  by (induction es arbitrary: st) (auto simp: cb_apply_deliver)

lemma cb_apply_other:
  "\<forall>e \<in> set es. EKey e \<noteq> k \<Longrightarrow> fold (cb_apply t t' k) (deliveries P es) st = st"
  by (induction es arbitrary: st) (auto simp: deliver_def cb_apply_def)

text \<open>Over the files of all shards: only that of the key's node counts.\<close>

lemma cb_apply_shards:
  assumes "distinct ids" and "\<forall>i \<in> set ids. \<forall>e \<in> set (h i). node (EKey e) = i"
    and "\<forall>i. \<forall>e \<in> set (h i). Marshal P e \<noteq> None"
  shows "fold (cb_apply t t' k) (concat (map (\<lambda>i. deliveries P (h i)) ids)) None =
    (if node k \<in> set ids then map_option (restore t t') (replay k (h (node k))) else None)"
proof -
  have skip: "fold (cb_apply t t' k) (concat (map (\<lambda>i. deliveries P (h i)) js)) st = st"
    if "node k \<notin> set js" "set js \<subseteq> set ids" for js st
    using that assms(2)
  proof (induction js arbitrary: st)
    case (Cons j js)
    have "\<forall>e \<in> set (h j). EKey e \<noteq> k" using Cons.prems by auto
    then have "fold (cb_apply t t' k) (deliveries P (h j)) st = st" for st by (rule cb_apply_other)
    with Cons show ?case by simp
  qed simp
  show ?thesis
  proof (cases "node k \<in> set ids")
    case True
    then obtain xs ys where ids: "ids = xs @ node k # ys" by (meson split_list)
    then have n: "node k \<notin> set xs" "node k \<notin> set ys" "set xs \<subseteq> set ids" "set ys \<subseteq> set ids"
      using assms(1) by auto
    have d: "fold (cb_apply t t' k) (deliveries P (h (node k))) None =
        map_option (restore t t') (replay k (h (node k)))"
      using cb_apply_deliveries [where st = None] assms(3) by (simp add: replay_def)
    have "fold (cb_apply t t' k) (concat (map (\<lambda>i. deliveries P (h i)) ids)) None =
        fold (cb_apply t t' k) (concat (map (\<lambda>i. deliveries P (h i)) ys))
          (fold (cb_apply t t' k) (deliveries P (h (node k)))
            (fold (cb_apply t t' k) (concat (map (\<lambda>i. deliveries P (h i)) xs)) None))"
      by (simp add: ids)
    then show ?thesis using True d by (simp only: skip [OF n(1,3)] skip [OF n(2,4)]) simp
  next
    case False
    then show ?thesis using skip [of ids None] by simp
  qed
qed

lemma recover_shards_records:
  assumes "proto_ok P" and "\<forall>i \<in> set ids. disk (segPath path i) = Some (records P (h i))"
  shows "recover_shards P disk path ids = (concat (map (\<lambda>i. deliveries P (h i)) ids), None)"
  using assms(2)
proof (induction ids)
  case (Cons i ids)
  have "recoverShard P (disk (segPath path i)) = (deliveries P (h i), None)"
    using Cons.prems recover_records [OF assms(1), of "h i" "[]"] by (simp add: recoverShard_def)
  with Cons show ?case by simp
qed simp

section \<open>Recovery into an empty store\<close>

lemma recover_memory:
  assumes "proto_ok P" and "empty_store sm0" and "mset (order ids) = mset ids" and "distinct ids"
    and "map fst (wshards (smwal sm0)) = ids"
    and "\<forall>i \<in> set ids. disk (segPath path i) = Some (records P (h i))"
    and "\<forall>i. \<forall>e \<in> set (h i). node (EKey e) = i \<and> Marshal P e \<noteq> None"
  shows "\<exists>sm. RecoverMemory P disk order t t' path sm0 = Some sm \<and> sm_wf sm \<and>
    (\<forall>k. stored sm k = (if node k \<in> set ids then map_option (restore t t') (replay k (h (node k))) else None))"
proof -
  have ids: "set (order ids) = set ids" "distinct (order ids)"
    using assms(3,4) mset_eq_setD mset_eq_imp_distinct_iff by blast+
  let ?ds = "concat (map (\<lambda>i. deliveries P (h i)) (order ids))"
  have r: "Recover P disk order path (smwal sm0) = (?ds, None)"
    using recover_shards_records [OF assms(1), of "order ids"] assms(5,6) ids(1)
    by (simp add: Recover_def)
  have wf: "sm_wf sm0" "\<And>k. stored sm0 k = None" using assms(2) by (simp_all add: empty_store_def)
  from recover_all_spec [OF wf(1)] obtain sm where
    "recover_all t t' ?ds sm0 = Some sm" "sm_wf sm"
    "\<forall>k. stored sm k = fold (cb_apply t t' k) ?ds None" by (metis wf(2))
  moreover have "fold (cb_apply t t' k) ?ds None =
      (if node k \<in> set ids then map_option (restore t t') (replay k (h (node k))) else None)" for k
    using cb_apply_shards [OF ids(2), of h node P] assms(7) ids(1) by auto
  ultimately show ?thesis using r by (auto simp: RecoverMemory_def)
qed

text \<open>What is still alive when recovery runs comes back as it was.\<close>

lemma restore_alive:
  assumes "0 \<le> Timestamp ob" and "Timestamp ob = 0 \<or> t < Timestamp ob" and "0 \<le> t"
    and "Timestamp ob < 2 ^ 63"
  shows "restore t t ob = ob"
proof (cases "Timestamp ob = 0")
  case True
  then show ?thesis by (cases ob) (simp add: restore_def)
next
  case False
  then have "i64 (Timestamp ob - t) = Timestamp ob - t" "i64 (Timestamp ob) = Timestamp ob"
    using assms by (auto intro!: i64_id simp: in_i64_def)
  then show ?thesis using False assms(1,2) by (cases ob) (simp add: restore_def)
qed

section \<open>A new system\<close>

lemma new_logged:
  assumes "0 < n" and sm: "sm = NewShardManager g (\<lambda>_. None) path aw n"
  shows "logged P t sm" and "room (smwal sm)"
proof -
  define o0 where "o0 = \<lparr>ShardCount = n, WALPath = path, BufSize = 0,
      BatchBytes = 1048576, FlushInterval = 5000000, WriteChanSize = 0, SyncPolicy = SyncEveryNBatch,
      SyncEveryN = aw, SegmentMaxSize = 0\<rparr>"
  have w: "smwal sm = NewWALSystem g (\<lambda>_. None) o0" by (simp add: sm NewShardManager_smwal o0_def)
  have n: "0 < ShardCount o0" using assms(1) by (simp add: o0_def)
  have sh: "\<exists>j. sh = newWalShard j [] (withDefaults g o0)"
    if "map_of (wshards (smwal sm)) i = Some sh" for i sh
    using NewWALSystem_shards(4) [OF n HOL.refl] that by (simp add: w)
  have o: "options_ok (withDefaults g o0)" by (rule withDefaults_ok)
  show "room (smwal sm)"
    using NewWALSystem_shards(3) [OF n] sh o
    by (force simp: room_def w newWalShard_def options_ok_def)
  have "holds P (smwal sm) (\<lambda>_. [])"
    using NewShardManager_wf(2) [OF assms(1)] sh by (force simp: holds_def sm)
  moreover have "pending P (smwal sm) (\<lambda>_. [])" by (simp add: pending_def)
  moreover have "stored sm k = None" for k
    using NewShardManager_empty [OF assms(1)] by (simp add: empty_store_def sm)
  ultimately show "logged P t sm"
    using NewShardManager_wf(1) [OF assms(1)]
    by (auto simp: logged_def sm nonneg_def placed_def agree_def visible_alive replay_def)
qed

section \<open>Restart\<close>

lemma wClose_dom: "dom (map_of (wshards (wClose P w))) = dom (map_of (wshards w))"
  by (auto simp: wClose_def map_of_apsnd)

text \<open>The files that closing leaves behind.\<close>

definition disk_of :: "string \<Rightarrow> walSystem \<Rightarrow> string \<Rightarrow> bytes option" where
  "disk_of path w f = map_option wfile (map_of (map (\<lambda>(i, sh). (segPath path i, sh)) (wshards w)) f)"

lemma disk_of_seg: "disk_of path w (segPath path i) = map_option wfile (map_of (wshards w) i)"
proof -
  have "map_of (map (\<lambda>(i, sh). (segPath path i, sh)) m) (segPath path i) = map_of m i" for m :: "walShard gomap"
    by (induction m) (auto simp: segPath_def)
  then show ?thesis by (simp add: disk_of_def)
qed

text \<open>A server started on an empty directory, its requests, its log closed, and a second server
  recovering from the files.  \<open>h\<close> is the history of every shard of the log.\<close>

lemma restart:
  assumes "proto_ok P" and "0 < n" and sm0: "sm0 = NewShardManager g (\<lambda>_. None) path aw n"
    and tr: "trace_ok P t0 es sm0" and sm1: "sm1 = fold (run_event P) es sm0"
    and "room (smwal sm1)" and m: "marshals P (smwal sm1)"
    and order: "\<And>ids. mset (order ids) = mset ids"
  shows "\<exists>h sm. logged P (last_time t0 es) sm1 \<and> agree (last_time t0 es) sm1 h \<and> holds P (smwal sm1) h \<and> sm_wf sm \<and>
    RecoverMemory P (disk_of path (wClose P (smwal sm1))) order t t' path
      (NewShardManager g' (disk_of path (wClose P (smwal sm1))) path aw' n) = Some sm \<and>
    (\<forall>k. stored sm k = map_option (restore t t') (replay k (h (wnode (smwal sm1) k))))"
proof -
  let ?disk = "disk_of path (wClose P (smwal sm1))"
  let ?sm2 = "NewShardManager g' ?disk path aw' n"
  have l: "logged P (last_time t0 es) sm1"
    unfolding sm1 by (rule trace_logged [OF new_logged(1) [OF assms(2) sm0] tr])
  then obtain h where h: "holds P (smwal sm1) h" "placed (smwal sm1) h"
    "agree (last_time t0 es) sm1 h" "pending P (smwal sm1) h" by (auto simp: logged_def)
  let ?node = "wnode (smwal sm1)"
  have "sm_wf sm0" unfolding sm0 by (rule NewShardManager_wf(1) [OF assms(2)])
  then have "dom (map_of (wshards (smwal sm1))) = dom (map_of (wshards (smwal sm0)))"
    using trace_dom [OF _ tr] sm1 by simp
  also have "\<dots> = shard_ids n"
    by (simp add: sm0 NewShardManager_smwal NewWALSystem_shards(2) assms(2))
  finally have d: "dom (map_of (wshards (smwal sm1))) = shard_ids n" .
  let ?ids = "map fst (wshards (smwal ?sm2))"
  have "gm_ok (wshards (smwal ?sm2))" "dom (map_of (wshards (smwal ?sm2))) = shard_ids n"
    by (simp_all add: NewShardManager_smwal NewWALSystem_shards(1,2) assms(2))
  then have ids: "set ?ids = shard_ids n" "distinct ?ids" using gm_ok_fst_dom by blast+
  have files: "\<forall>i \<in> set ?ids. ?disk (segPath path i) = Some (records P (h i))"
  proof
    fix i assume "i \<in> set ?ids"
    then obtain sh where sh: "map_of (wshards (wClose P (smwal sm1))) i = Some sh"
      using d ids(1) wClose_dom by (metis domD)
    with wClose_files [OF h(1) assms(6) sh] show "?disk (segPath path i) = Some (records P (h i))"
      by (simp add: disk_of_seg)
  qed
  have place: "\<forall>i. \<forall>e \<in> set (h i). ?node (EKey e) = i \<and> Marshal P e \<noteq> None"
    using h(2) pending_marshals [OF h(4) m] unfolding placed_def by blast
  have "?node k \<in> set ?ids" for k
    using h(1) wal_wf_shard d ids(1) by (fastforce simp: holds_def)
  with recover_memory [where h = h and node = ?node and ?sm0.0 = ?sm2 and ids = ?ids and P = P
      and path = path and disk = ?disk and order = order, OF assms(1) NewShardManager_empty [OF assms(2)] order ids(2) HOL.refl files place, of t t']
  obtain sm where sm: "RecoverMemory P ?disk order t t' path ?sm2 = Some sm" "sm_wf sm"
    "\<forall>k. stored sm k = map_option (restore t t') (replay k (h (?node k)))" by auto
  from l h sm show ?thesis by blast
qed

text \<open>The objects of the second server, seen at a time after recovery.\<close>

lemma restore_alive_iff:
  assumes "agree t sm h" and "nonneg sm" and "t \<le> r" and "0 \<le> r" and "r < 2 ^ 63" and "r < u"
    and "rep = replay k (h (wnode (smwal sm) k))"
  shows "alive u (map_option (restore r r) rep) =
    (case rep of
       None \<Rightarrow> None
     | Some ob \<Rightarrow> if 0 < Timestamp ob \<and> Timestamp ob \<le> r then Some (ob\<lparr>Timestamp := 0\<rparr>) else visible u sm k)"
proof (cases rep)
  case (Some ob)
  have v: "visible w sm k = alive w rep" if "t < w" for w using assms(1,7) that by (simp add: agree_def)
  have s: "ts_ok ob" if "visible w sm k = Some ob" for w
    using that assms(2) by (auto simp: visible_stored nonneg_def split: option.splits if_splits)
  consider "0 < Timestamp ob" "Timestamp ob \<le> r" | "Timestamp ob = 0 \<or> r < Timestamp ob" | "Timestamp ob < 0"
    by linarith
  then show ?thesis
  proof cases
    case 1
    have "i64 (Timestamp ob - r) = Timestamp ob - r"
      using 1 assms(4,5) by (intro i64_id) (simp add: in_i64_def)
    then show ?thesis using Some 1 by (simp add: restore_def expired_def)
  next
    case 2
    then have "visible (r + 1) sm k = Some ob" using v [of "r + 1"] Some assms(3) by (auto simp: expired_def)
    then have ok: "ts_ok ob" by (rule s)
    then have "restore r r ob = ob" using 2 assms(4) by (intro restore_alive) (auto simp: ts_ok_def)
    then show ?thesis using Some 2 v [of u] assms(3,6) by auto
  next
    case 3
    then have "visible (r + 1) sm k = Some ob" using v [of "r + 1"] Some assms(3) by (auto simp: expired_def)
    then show ?thesis using s 3 by (auto simp: ts_ok_def)
  qed
qed simp

end
