(* ===== verification/Float_Ok.thy ===== *)
theory Float_Ok
  imports Float_Text
begin

text \<open>
  Every number the program computes is a proper double: rounding, reading and adding give a
  canonical pair of mantissa and exponent.
\<close>

lemma rhe_bounds:
  assumes "0 < b"
  shows "real (rhe a b) \<le> real a / real b + 1 / 2" and "real a / real b \<le> real (rhe a b) + 1 / 2"
proof -
  have d: "real a / real b = real (a div b) + real (a mod b) / real b"
    using assms by (simp add: real_of_nat_div field_simps flip: of_nat_add of_nat_mult)
  have m: "a mod b < b" using assms by simp
  then have m': "2 * real (a mod b) \<le> real b * 3" by linarith
  show "real (rhe a b) \<le> real a / real b + 1 / 2"
    unfolding d using assms
    by (simp add: rhe_def Let_def field_simps)
  show "real a / real b \<le> real (rhe a b) + 1 / 2"
    unfolding d using assms
    by (simp add: rhe_def Let_def field_simps) (rule impI, use m' in linarith)
qed

lemma rhe_le: 
  assumes "0 < b" and "real a / real b < real n"
  shows "rhe a b \<le> n"
proof -
  have "real (rhe a b) < real (n + 1)" using rhe_bounds(1) [OF assms(1), of a] assms(2) by simp
  then show ?thesis by linarith
qed

lemma rhe_ge:
  assumes "0 < b" and "real n \<le> real a / real b"
  shows "n \<le> rhe a b"
proof -
  have "real n < real (rhe a b + 1)" using rhe_bounds(2) [OF assms(1), of a] assms(2) by simp
  then show ?thesis by linarith
qed

theorem round_ratio_ok:
  assumes "0 < q"
  shows "f64_ok (round_ratio s p q)"
proof (cases "p = 0")
  case True
  then show ?thesis by (simp add: round_ratio_def f64_ok_def)
next
  case False
  then have p: "0 < p" by simp
  define E where "E = max (- 1074) (flog2 p q - 52)"
  obtain a b where ab: "scale2 p q (- E) = (a, b)" by force
  have x: "real a / real b = real p / real q * 2 powi (- E)" and b: "0 < b"
    using scale2_ratio [OF assms, of p "- E"] ab by (auto simp: ratio_def)
  note bounds = flog2_bounds [OF p assms]
  have "real a / real b < 2 powi (flog2 p q + 1) * 2 powi (- E)"
    unfolding x using bounds by (intro mult_strict_right_mono) auto
  also have "\<dots> = 2 powi (flog2 p q + 1 - E)" by (simp flip: powi2_add)
  also have "\<dots> \<le> (2::real) powi 53" by (intro power_int_increasing) (auto simp: E_def)
  finally have "rhe a b \<le> 2 ^ 53" by (intro rhe_le [OF b]) simp
  moreover have "2 ^ 52 \<le> rhe a b" if "- 1074 < E"
  proof (rule rhe_ge [OF b])
    have "flog2 p q = E + 52" using that by (simp add: E_def)
    then have "2 powi (E + 52) * 2 powi (- E) \<le> real a / real b"
      unfolding x using bounds by (intro mult_right_mono) auto
    moreover have "2 powi (E + 52) * 2 powi (- E) = (2::real) ^ 52"
      by (simp flip: powi2_add)
    ultimately show "real (2 ^ 52) \<le> real a / real b" by simp
  qed
  moreover have "- 1074 \<le> E" by (simp add: E_def)
  ultimately show ?thesis
    unfolding round_ratio_pos [OF False E_def ab] by (cases "- 1074 < E") (auto simp: f64_ok_def not_less)
qed

lemma scale_pos: "0 < q \<Longrightarrow> 0 < snd (scale2 p q k)" "0 < q \<Longrightarrow> 0 < snd (scale10 p q k)"
  by (simp_all add: scale2_def scale10_def)

lemma round2_ok: "f64_ok (round2 s c k)"
  using scale_pos(1) [of 1 c k] by (auto simp: round2_def round_ratio_ok split: prod.split)

lemma round10_ok: "f64_ok (round10 s c k)"
  using scale_pos(2) [of 1 c k] by (auto simp: round10_def round_ratio_ok split: prod.split)

lemma f64_of_int_ok: "f64_ok (f64_of_int i)"
  by (simp add: f64_of_int_def round_ratio_ok)

lemma uminus_ok: "f64_ok x \<Longrightarrow> f64_ok (- x)"
  by (cases x) (simp_all add: f64_ok_def)

lemma plus_ok: "f64_ok x \<Longrightarrow> f64_ok y \<Longrightarrow> f64_ok (x + y)"
  by (cases x; cases y) (simp_all add: Let_def round2_ok, simp_all add: f64_ok_def)

lemma minus_ok: "f64_ok x \<Longrightarrow> f64_ok y \<Longrightarrow> f64_ok (x - y)"
  by (simp add: minus_f64_def plus_ok uminus_ok)

lemma f64_one_ok: "f64_ok f64_one"
  by (simp add: f64_one_def f64_ok_def)

lemma ParseFloat_ok: "ParseFloat s = Some x \<Longrightarrow> f64_ok x"
proof -
  assume p: "ParseFloat s = Some x"
  show "f64_ok x"
  proof (cases "special s")
    case (Some v)
    then have "x = v" "\<exists>neg. v = Inf neg \<or> v = NaN"
      using p by (auto simp: ParseFloat_def special_def Let_def split: if_splits prod.splits)
    then show ?thesis by (auto simp: f64_ok_def)
  next
    case None
    then obtain neg hex c k where "(if hex then round2 neg c k else round10 neg c k) = x"
      using p by (auto simp: ParseFloat_def split: option.splits f64.splits prod.splits)
    then show ?thesis using round2_ok round10_ok by (auto split: if_splits)
  qed
qed

lemma finite_fmt: "fmt_json x \<noteq> None \<longleftrightarrow> (\<exists>s m e. x = Fin s m e)"
  by (cases x) (simp_all add: fmt_json_def split: prod.split)

lemma ParseFloat_finite: "special s = None \<Longrightarrow> ParseFloat s = Some x \<Longrightarrow> fmt_json x \<noteq> None"
  unfolding finite_fmt
  by (auto simp: ParseFloat_def split: option.splits f64.splits prod.splits) (metis+)

end
