(* ===== verification/Json_Round.thy ===== *)
theory Json_Round
  imports Json Float_Ok
begin

text \<open>
  Reading back what was written: \<open>unm_any\<close> inverts \<open>enc\<close> on every value that \<open>unm_any\<close> can
  produce (\<open>jok\<close>: finite canonical numbers, well-formed UTF-8, canonical maps, nesting within
  the limit); that it produces only such values is in \<open>Json_Grammar\<close>.
\<close>

section \<open>Strings\<close>

lemma hex_val_digit: "d < 16 \<Longrightarrow> hex_val (hex_digit d) = Some d"
  by (auto simp: hex_val_def hex_digit_def is_digit_def dval_def is_hexletter_def lower_def Let_def)

lemma hex4_digits:
  "a < 16 \<Longrightarrow> b < 16 \<Longrightarrow> c < 16 \<Longrightarrow> d < 16 \<Longrightarrow>
    hex4 (hex_digit a) (hex_digit b) (hex_digit c) (hex_digit d)
      = Some (((a * 16 + b) * 16 + c) * 16 + d)"
  by (simp add: hex4_def hex_val_digit)

lemma char_of_eq: "n < 256 \<Longrightarrow> char_of n = c \<longleftrightarrow> byte_of c = n"
  by auto

lemma hex_digit_consts: "hex_digit 0 = CHR ''0''" "hex_digit 2 = CHR ''2''"
  by (simp_all add: hex_digit_def char_of_eq) (simp_all add: byte_of_def)

lemma eq_char_of: "n < 256 \<Longrightarrow> c = char_of n \<longleftrightarrow> byte_of c = n"
  by auto

lemma quote_bslash: "byte_of quote_ch = 34" "byte_of bslash = 92" "quote_ch \<noteq> bslash"
  "CHR ''u'' \<noteq> quote_ch" "bslash \<noteq> quote_ch"
  by (simp_all add: quote_ch_def bslash_def eq_char_of) (simp add: byte_of_def)

lemma ascii_codes:
  "byte_of (CHR ''/'') = 47" "byte_of (CHR ''b'') = 98" "byte_of (CHR ''f'') = 102"
  "byte_of (CHR ''n'') = 110" "byte_of (CHR ''r'') = 114" "byte_of (CHR ''t'') = 116"
  "byte_of (CHR ''u'') = 117"
  by (simp_all add: byte_of_def)

lemma append_one: "(@) [c] = (#) c"
  by auto

lemma p_str_quote: "p_str (quote_ch # s) = Some ([], s)"
  by (simp add: p_str.simps)

lemma p_str_u:
  assumes "hex4 x1 x2 x3 x4 = Some r" "\<not> is_surrogate r"
  shows "p_str (bslash # CHR ''u'' # x1 # x2 # x3 # x4 # s) = map_option (apfst ((@) (EncodeRune r))) (p_str s)"
  using assms by (subst p_str.simps) (simp add: quote_bslash)

lemma p_str_esc:
  assumes "esc_val e = Some d"
  shows "p_str (bslash # e # s) = map_option (apfst ((#) d)) (p_str s)"
proof -
  have "e \<noteq> CHR ''u''" using assms
    by (auto simp: esc_val_def quote_ch_def bslash_def eq_char_of byte_of_def split: if_splits)
  then show ?thesis using assms by (subst p_str.simps) (simp add: quote_bslash)
qed

lemma p_str_ascii:
  assumes "32 \<le> byte_of c" "byte_of c < 128" "c \<noteq> quote_ch" "c \<noteq> bslash"
  shows "p_str (c # s) = map_option (apfst ((#) c)) (p_str s)"
  using assms by (subst p_str.simps) simp

lemma p_str_rune:
  assumes "scalar r" "128 \<le> r"
  shows "p_str (EncodeRune r @ s) = map_option (apfst ((@) (EncodeRune r))) (p_str s)"
proof -
  obtain c t where c: "EncodeRune r = c # t" using EncodeRune_Cons by blast
  have d: "DecodeRune (c # t @ s) = (r, length (EncodeRune r))"
    using DecodeRune_EncodeRune [OF assms(1), of s] c by simp
  have b: "128 \<le> byte_of c"
  proof (rule ccontr)
    assume "\<not> ?thesis"
    then have "DecodeRune (c # t @ s) = (byte_of c, 1)" by (intro DecodeRune_ascii) simp
    with d assms(2) \<open>\<not> 128 \<le> byte_of c\<close> show False by simp
  qed
  then have "c \<noteq> quote_ch" "c \<noteq> bslash" by (auto simp: quote_bslash)
  then show ?thesis using b d c by (simp add: p_str.simps)
qed

lemma short_escape:
  assumes "byte_of c \<in> {8, 9, 10, 12, 13}"
  shows "\<exists>e. enc_ascii c = [bslash, e] \<and> esc_val e = Some c"
proof -
  let ?e = "if byte_of c = 8 then CHR ''b'' else if byte_of c = 12 then CHR ''f''
    else if byte_of c = 10 then CHR ''n'' else if byte_of c = 13 then CHR ''r'' else CHR ''t''"
  have "enc_ascii c = [bslash, ?e] \<and> esc_val ?e = Some c"
    using assms
    by (auto simp: enc_ascii_def esc_val_def Let_def quote_ch_def bslash_def eq_char_of char_of_eq ascii_codes)
  then show ?thesis by blast
qed

lemma ascii_escape_cases:
  assumes "byte_of c < 128"
  obtains e where "enc_ascii c = [bslash, e]" "esc_val e = Some c"
  | "enc_ascii c = [bslash, CHR ''u'', CHR ''0'', CHR ''0'', hex_digit (byte_of c div 16), hex_digit (byte_of c mod 16)]"
  | "enc_ascii c = [c]" "32 \<le> byte_of c" "c \<noteq> quote_ch" "c \<noteq> bslash"
proof -
  consider "c = quote_ch \<or> c = bslash" | "byte_of c \<in> {8, 9, 10, 12, 13}"
    | "c \<noteq> quote_ch" "c \<noteq> bslash" "byte_of c \<notin> {8, 9, 10, 12, 13}" by blast
  then show thesis
  proof cases
    case 1
    then show ?thesis using that(1) [of c] by (auto simp: enc_ascii_def esc_val_def Let_def)
  next
    case 2
    then show ?thesis using short_escape that(1) by blast
  next
    case 3
    then show ?thesis
      using that(2,3) by (cases "byte_of c < 32 \<or> c = CHR ''<'' \<or> c = CHR ''>'' \<or> c = CHR ''&''")
        (simp_all add: enc_ascii_def Let_def)
  qed
qed

lemma p_str_enc_ascii:
  assumes "byte_of c < 128"
  shows "p_str (enc_ascii c @ s) = map_option (apfst ((#) c)) (p_str s)"
  using assms
proof (cases rule: ascii_escape_cases)
  case (1 e)
  then show ?thesis by (simp add: p_str_esc)
next
  case 2
  have "byte_of c div 16 < 16" "byte_of c mod 16 < 16" using assms by auto
  then have "hex4 (CHR ''0'') (CHR ''0'') (hex_digit (byte_of c div 16)) (hex_digit (byte_of c mod 16))
      = Some (byte_of c)"
    using hex4_digits [of 0 0 "byte_of c div 16" "byte_of c mod 16"] by (simp add: hex_digit_consts)
  then show ?thesis
    using 2 assms by (simp add: p_str_u is_surrogate_def EncodeRune_def append_one)
next
  case 3
  with assms show ?thesis by (simp add: p_str_ascii)
qed

text \<open>A rune beyond ASCII, written as it is or, for the two line separators, as an escape.\<close>

lemma p_str_enc_rune:
  assumes "scalar r" and "128 \<le> r" and "p_str x = Some (t, rest)"
  shows "p_str ((if r = 8232 \<or> r = 8233 then bslash # ''u202'' @ [hex_digit (r mod 16)] else EncodeRune r) @ x)
    = Some (EncodeRune r @ t, rest)"
proof (cases "r = 8232 \<or> r = 8233")
  case True
  then have "hex4 (CHR ''2'') (CHR ''0'') (CHR ''2'') (hex_digit (r mod 16)) = Some r" "\<not> is_surrogate r"
    using hex4_digits [of 2 0 2 "r mod 16"] by (auto simp: hex_digit_consts is_surrogate_def)
  with True assms(3) show ?thesis by (simp add: p_str_u)
qed (simp add: p_str_rune [OF assms(1,2)] assms(3))

lemma enc_chars_rune:
  assumes "\<not> byte_of c < 128" and "c # s = EncodeRune r @ t" and "scalar r" and "valid_utf8 (c # s)"
  shows "128 \<le> r" and "valid_utf8 t" and "drop (length (EncodeRune r) - 1) s = t"
    and "enc_chars (c # s) =
      (if r = 8232 \<or> r = 8233 then bslash # ''u202'' @ [hex_digit (r mod 16)] else EncodeRune r) @ enc_chars t"
proof -
  have d: "DecodeRune (c # s) = (r, length (EncodeRune r))"
    using DecodeRune_EncodeRune [OF assms(3), of t] assms(2) by simp
  obtain c' u where e: "EncodeRune r = c' # u" using EncodeRune_Cons by blast
  show "128 \<le> r"
  proof (rule ccontr)
    assume "\<not> ?thesis"
    then have "EncodeRune r = [char_of r]" by (simp add: EncodeRune_def)
    with assms(1,2) \<open>\<not> 128 \<le> r\<close> show False by simp
  qed
  show "valid_utf8 t" using assms(2-4) valid_EncodeRune by metis
  show t: "drop (length (EncodeRune r) - 1) s = t" using assms(2) e by simp
  show "enc_chars (c # s) =
      (if r = 8232 \<or> r = 8233 then bslash # ''u202'' @ [hex_digit (r mod 16)] else EncodeRune r) @ enc_chars t"
    using assms(1,4) d t assms(2) e by auto
qed

theorem p_str_enc_chars:
  "valid_utf8 s \<Longrightarrow> p_str (enc_chars s @ quote_ch # rest) = Some (s, rest)"
proof (induction s rule: enc_chars.induct)
  case 1
  show ?case by (simp add: p_str_quote)
next
  case (2 c s)
  show ?case
  proof (cases "byte_of c < 128")
    case True
    then have "valid_utf8 s" using "2.prems" by (simp add: DecodeRune_ascii)
    with 2 True show ?thesis by (simp add: p_str_enc_ascii)
  next
    case False
    obtain r n where d: "DecodeRune (c # s) = (r, n)" by force
    from d show ?thesis
    proof (cases rule: DecodeRune_cases)
      case bad
      with "2.prems" d show ?thesis by simp
    next
      case (ok t)
      note e = enc_chars_rune [OF False ok(1,3) "2.prems"]
      have "p_str (enc_chars t @ quote_ch # rest) = Some (t, rest)"
        using "2.IH"(2) [OF False d [symmetric]] e(2,3) ok(2) by simp
      from p_str_enc_rune [OF ok(3) e(1) this] show ?thesis unfolding e(4) append_assoc by (simp only: ok(1))
    qed
  qed
qed

section \<open>Numbers\<close>

definition follow :: "bytes \<Rightarrow> bool" where
  "follow s \<longleftrightarrow> (case s of [] \<Rightarrow> True | c # _ \<Rightarrow>
     \<not> is_digit c \<and> c \<noteq> CHR ''.'' \<and> c \<noteq> CHR ''e'' \<and> c \<noteq> CHR ''E'')"

lemma scan_digits_app:
  assumes "list_all is_digit ds" "ds \<noteq> []" "s = [] \<or> \<not> is_digit (hd s)"
  shows "scan_digits (ds @ s) = Some (ds, s)"
proof -
  have "\<forall>x \<in> set ds. is_digit x" using assms(1) by (simp add: list_all_iff)
  moreover have "takeWhile is_digit s = []" "dropWhile is_digit s = s"
    using assms(3) by (cases s; auto)+
  ultimately have "takeWhile is_digit (ds @ s) = ds" "dropWhile is_digit (ds @ s) = s"
    by (simp_all add: takeWhile_append2 dropWhile_append2)
  with assms(2) show ?thesis by (cases ds) (simp_all add: scan_digits_def)
qed

lemma frac_exp_hd:
  "frac_str B @ exp_str E @ s = [] \<or> \<not> is_digit (hd (frac_str B @ exp_str E @ s))" if "follow s"
  using that by (auto simp: frac_str_def exp_str_def follow_def is_digit_def byte_of_def
      split: option.splits list.splits)

lemma exp_hd: "exp_str E @ s = [] \<or> \<not> is_digit (hd (exp_str E @ s)) \<and> hd (exp_str E @ s) \<noteq> CHR ''.''"
  if "follow s"
  using that by (auto simp: exp_str_def follow_def is_digit_def byte_of_def split: option.splits list.splits)

lemma scan_exp_shape:
  assumes "shape_ok A B E" "follow s"
  shows "scan_exp (exp_str E @ s) = Some (exp_str E, s)"
proof (cases E)
  case None
  then show ?thesis using assms(2)
    by (auto simp: exp_str_def scan_exp_def follow_def split: list.splits)
next
  case (Some x)
  obtain en es where x: "x = (en, es)" by force
  have "list_all is_digit es" "es \<noteq> []" using assms(1) Some x by (auto simp: shape_ok_def)
  moreover have "s = [] \<or> \<not> is_digit (hd s)" using assms(2) by (auto simp: follow_def split: list.splits)
  ultimately have "scan_digits (es @ s) = Some (es, s)" by (rule scan_digits_app)
  then show ?thesis by (simp add: Some x exp_str_def scan_exp_def)
qed

lemma scan_frac_shape:
  assumes "shape_ok A B E" "follow s"
  shows "scan_frac (frac_str B @ exp_str E @ s) = Some (frac_str B, exp_str E @ s)"
proof (cases "B = []")
  case True
  then show ?thesis
    using exp_hd [OF assms(2), of E] by (cases "exp_str E @ s") (auto simp: frac_str_def scan_frac_def)
next
  case False
  have "list_all is_digit B" using assms(1) by (simp add: shape_ok_def)
  then have "scan_digits (B @ exp_str E @ s) = Some (B, exp_str E @ s)"
    using exp_hd [OF assms(2), of E] False by (intro scan_digits_app) auto
  with False show ?thesis by (simp add: frac_str_def scan_frac_def)
qed

lemma scan_int_shape:
  assumes "shape_ok A B E" "follow s"
  shows "scan_int (A @ frac_str B @ exp_str E @ s) = Some (A, frac_str B @ exp_str E @ s)"
proof -
  obtain a A' where a: "A = a # A'" using shape_ok_Cons [OF assms(1)] by blast
  show ?thesis
  proof (cases "a = CHR ''0''")
    case True
    with assms(1) a have "A = ''0''" by (simp add: shape_ok_def)
    then show ?thesis by (simp add: scan_int_def)
  next
    case False
    have "list_all is_digit A" "A \<noteq> []" using assms(1) by (simp_all add: shape_ok_def)
    then have "scan_digits (A @ frac_str B @ exp_str E @ s) = Some (A, frac_str B @ exp_str E @ s)"
      using frac_exp_hd [OF assms(2)] by (intro scan_digits_app) auto
    with False a show ?thesis by (simp add: scan_int_def)
  qed
qed

lemma scan_num_shape:
  assumes "shape_ok A B E" "follow s"
  shows "scan_num (num_shape neg A B E @ s) = Some (num_shape neg A B E, s)"
proof -
  obtain a A' where a: "A = a # A'" "is_digit a" using shape_ok_Cons [OF assms(1)] by blast
  have "a \<noteq> CHR ''-''" using digit_neq [OF a(2)] by simp
  then show ?thesis
    using a scan_int_shape [OF assms] scan_frac_shape [OF assms] scan_exp_shape [OF assms]
    by (cases neg) (simp_all add: scan_num_def num_shape_def sign_str_def)
qed

section \<open>Values\<close>

text \<open>The values that can be written and read again, nested at most \<open>d\<close> deep.\<close>

fun jok :: "nat \<Rightarrow> json \<Rightarrow> bool"
  and joks :: "nat \<Rightarrow> json list \<Rightarrow> bool"
  and jokm :: "nat \<Rightarrow> (string \<times> json) list \<Rightarrow> bool" where
  "jok d JNull = True"
| "jok d (JBool b) = True"
| "jok d (JNum x) = (f64_ok x \<and> fmt_json x \<noteq> None)"
| "jok d (JStr s) = valid_utf8 s"
| "jok d (JArr vs) = (0 < d \<and> joks (d - 1) vs)"
| "jok d (JObj ps) = (0 < d \<and> gm_ok ps \<and> jokm (d - 1) ps)"
| "jok d JNilMap = False"
| "joks d [] = True"
| "joks d (v # vs) = (jok d v \<and> joks d vs)"
| "jokm d [] = True"
| "jokm d ((k, v) # ps) = (valid_utf8 k \<and> jok d v \<and> jokm d ps)"

lemma joks_iff: "joks d vs \<longleftrightarrow> (\<forall>v \<in> set vs. jok d v)"
  by (induction vs) simp_all

lemma jokm_iff: "jokm d ps \<longleftrightarrow> (\<forall>(k, v) \<in> set ps. valid_utf8 k \<and> jok d v)"
  by (induction ps) auto

lemma jok_enc:
  "jok d v \<Longrightarrow> enc v \<noteq> None"
  "joks d vs \<Longrightarrow> enc_elems vs \<noteq> None"
  "jokm d ps \<Longrightarrow> enc_members ps \<noteq> None"
  by (induction v and vs and ps arbitrary: d and d and d rule: enc_enc_elems_enc_members.induct)
    (auto split: option.splits)

text \<open>The first character of a value.\<close>

definition starts :: "char \<Rightarrow> bool" where
  "starts c \<longleftrightarrow> \<not> is_ws c \<and> c \<noteq> CHR '']'' \<and> c \<noteq> CHR ''}''"

lemma num_start:
  assumes "shape_ok A B E"
  obtains c r where "num_shape neg A B E = c # r" "starts c" "c \<noteq> CHR ''{''" "c \<noteq> CHR ''[''"
    "c \<noteq> quote_ch" "c \<noteq> CHR ''t''" "c \<noteq> CHR ''f''" "c \<noteq> CHR ''n''"
proof -
  obtain a A' where a: "A = a # A'" "is_digit a" using shape_ok_Cons [OF assms] by blast
  have d: "starts a \<and> a \<noteq> CHR ''{'' \<and> a \<noteq> CHR ''['' \<and> a \<noteq> quote_ch \<and> a \<noteq> CHR ''t'' \<and>
      a \<noteq> CHR ''f'' \<and> a \<noteq> CHR ''n''"
    using a(2) by (auto simp: starts_def is_ws_def is_digit_def byte_of_def quote_ch_def)
  have m: "starts (CHR ''-'') \<and> CHR ''-'' \<noteq> quote_ch"
    by (simp add: starts_def is_ws_def byte_of_def quote_ch_def eq_char_of)
  show ?thesis
  proof (cases neg)
    case True
    then show ?thesis using m by (intro that [of "CHR ''-''"]) (simp_all add: num_shape_def sign_str_def)
  next
    case False
    then show ?thesis using d a(1) by (intro that [of a]) (simp_all add: num_shape_def sign_str_def)
  qed
qed

lemma starts_consts:
  "starts quote_ch" "starts (CHR ''n'')" "starts (CHR ''t'')" "starts (CHR ''f'')"
  "starts (CHR ''['')" "starts (CHR ''{'')"
  by (simp_all add: starts_def is_ws_def quote_bslash quote_ch_def char_of_eq) (simp_all add: byte_of_def)

lemma enc_start:
  assumes "enc v = Some t" and "jok d v"
  obtains c r where "t = c # r" "starts c"
proof (cases v)
  case (JNum x)
  then have "f64_ok x" "fmt_json x = Some t" using assms by simp_all
  then obtain s m e A B E where "t = num_shape s A B E" "shape_ok A B E" by (rule fmt_json_shape)
  then show ?thesis using num_start that by metis
next
  case (JBool b)
  then show ?thesis using assms(1) that starts_consts by (cases b) auto
qed (use assms that starts_consts in \<open>auto simp: enc_str_def\<close>)

lemma skip_ws_starts: "starts c \<Longrightarrow> skip_ws (c # r) = c # r"
  by (simp add: skip_ws_def starts_def)

lemma skip_ws_punct [simp]:
  "skip_ws (CHR '','' # r) = CHR '','' # r" "skip_ws (CHR '']'' # r) = CHR '']'' # r"
  "skip_ws (CHR ''}'' # r) = CHR ''}'' # r" "skip_ws (CHR '':'' # r) = CHR '':'' # r"
  "skip_ws (quote_ch # r) = quote_ch # r" "skip_ws (CHR ''['' # r) = CHR ''['' # r"
  "skip_ws (CHR ''{'' # r) = CHR ''{'' # r"
  by (simp_all add: skip_ws_def is_ws_def quote_bslash) (simp_all add: byte_of_def)

lemma follow_punct [simp]:
  "follow []" "follow (CHR '','' # r)" "follow (CHR '']'' # r)" "follow (CHR ''}'' # r)"
  by (simp_all add: follow_def is_digit_def byte_of_def)

lemma p_value_num:
  assumes "f64_ok x" and "fmt_json x = Some t" and "follow rest"
  shows "p_value (Suc n) d (t @ rest) = Some (TNum t, rest)"
proof -
  obtain s m e A B E where t: "t = num_shape s A B E" "shape_ok A B E"
    using assms(1,2) by (rule fmt_json_shape)
  obtain c r where c: "t = c # r" "starts c" "c \<noteq> CHR ''{''" "c \<noteq> CHR ''[''"
    "c \<noteq> quote_ch" "c \<noteq> CHR ''t''" "c \<noteq> CHR ''f''" "c \<noteq> CHR ''n''"
    using num_start [OF t(2)] t(1) by metis
  have "scan_num (t @ rest) = Some (t, rest)"
    unfolding t(1) by (rule scan_num_shape [OF t(2) assms(3)])
  with c show ?thesis by (simp add: skip_ws_starts)
qed

lemma p_value_lit:
  "p_value (Suc n) d (''null'' @ rest) = Some (TNull, rest)"
  "p_value (Suc n) d (''true'' @ rest) = Some (TBool True, rest)"
  "p_value (Suc n) d (''false'' @ rest) = Some (TBool False, rest)"
  using starts_consts
  by (simp_all add: skip_ws_starts p_lit_def HasPrefix_def quote_ch_def eq_char_of byte_of_def)

lemma p_value_str:
  "valid_utf8 s \<Longrightarrow> p_value (Suc n) d (enc_str s @ rest) = Some (TStr s, rest)"
  by (simp add: enc_str_def p_str_enc_chars) (simp add: quote_ch_def char_of_eq byte_of_def)

text \<open>A text starts with what is written for a value, a list of elements, of members.\<close>

abbreviation reads :: "nat \<Rightarrow> nat \<Rightarrow> json \<Rightarrow> bytes \<Rightarrow> bytes \<Rightarrow> bool" where
  "reads n d v s r \<equiv> \<exists>x. p_value n d s = Some (x, r) \<and> to_any x = Some v"

abbreviation reads_elems :: "nat \<Rightarrow> nat \<Rightarrow> json list \<Rightarrow> bytes \<Rightarrow> bytes \<Rightarrow> bool" where
  "reads_elems n d vs s r \<equiv> \<exists>xs. p_elems n d s = Some (xs, r) \<and> to_list xs = Some vs"

abbreviation reads_members :: "nat \<Rightarrow> nat \<Rightarrow> (string \<times> json) list \<Rightarrow> bytes \<Rightarrow> bytes \<Rightarrow> bool" where
  "reads_members n d ps s r \<equiv> \<exists>xs. p_members n d s = Some (xs, r) \<and> to_members xs = Some ps"

lemma reads_arr:
  assumes "0 < d" and "enc_elems vs = Some u" and "joks (d - 1) vs"
    and "vs \<noteq> [] \<Longrightarrow> reads_elems n (d - 1) vs (u @ CHR '']'' # rest) rest"
  shows "reads (Suc n) d (JArr vs) (CHR ''['' # u @ CHR '']'' # rest) rest"
proof (cases vs)
  case Nil
  then show ?thesis using assms by simp
next
  case (Cons v vs')
  then obtain t0 y where t0: "enc v = Some t0" "u = t0 @ y"
    using assms(2) by (auto split: option.splits if_splits)
  moreover obtain c r where c: "t0 = c # r" "starts c" using enc_start t0(1) assms(3) Cons by (metis joks.simps(2))
  moreover have "c \<noteq> CHR '']''" using c(2) by (simp add: starts_def)
  moreover have "CHR ''['' \<noteq> quote_ch" by (simp add: quote_ch_def eq_char_of byte_of_def)
  ultimately show ?thesis using assms(1,4) Cons by (auto simp: skip_ws_starts)
qed

lemma reads_obj:
  assumes "0 < d" and "enc_members ps = Some u" and "gm_ok ps"
    and "ps \<noteq> [] \<Longrightarrow> reads_members n (d - 1) ps (u @ CHR ''}'' # rest) rest"
  shows "reads (Suc n) d (JObj ps) (CHR ''{'' # u @ CHR ''}'' # rest) rest"
proof (cases "ps = []")
  case True
  then show ?thesis using assms by (simp add: gm_of_list_def)
next
  case False
  then obtain r where c: "u = quote_ch # r"
    using assms(2) by (cases ps) (auto simp: enc_str_def split: option.splits if_splits)
  have "quote_ch \<noteq> CHR ''}''" by (simp add: quote_ch_def char_of_eq byte_of_def)
  then show ?thesis using assms(1,3,4) False c by (auto simp: gm_of_list_id)
qed

lemma reads_elems_Cons:
  "reads n d v (t @ CHR '']'' # rest) (CHR '']'' # rest) \<Longrightarrow> reads_elems (Suc n) d [v] (t @ CHR '']'' # rest) rest"
  "reads n d v (t @ CHR '','' # s) (CHR '','' # s) \<Longrightarrow> reads_elems n d vs s rest \<Longrightarrow>
     reads_elems (Suc n) d (v # vs) (t @ CHR '','' # s) rest"
  by auto

lemma reads_members_Cons:
  "valid_utf8 k \<Longrightarrow> reads n d v (t @ CHR ''}'' # rest) (CHR ''}'' # rest) \<Longrightarrow>
     reads_members (Suc n) d [(k, v)] (enc_str k @ CHR '':'' # t @ CHR ''}'' # rest) rest"
  "valid_utf8 k \<Longrightarrow> reads n d v (t @ CHR '','' # s) (CHR '','' # s) \<Longrightarrow> reads_members n d ps s rest \<Longrightarrow>
     reads_members (Suc n) d ((k, v) # ps) (enc_str k @ CHR '':'' # t @ CHR '','' # s) rest"
  by (auto simp: enc_str_def p_str_enc_chars)

lemma reads_elems_step:
  assumes "enc_elems (v # vs) = Some u" and "enc v = Some t" and "2 * length u + 1 \<le> n"
    and v: "\<And>s m. follow s \<Longrightarrow> 2 * length t \<le> m \<Longrightarrow> reads m d v (t @ s) s"
    and vs: "\<And>u' m. vs \<noteq> [] \<Longrightarrow> enc_elems vs = Some u' \<Longrightarrow> 2 * length u' + 1 \<le> m \<Longrightarrow>
      reads_elems m d vs (u' @ CHR '']'' # rest) rest"
  shows "reads_elems n d (v # vs) (u @ CHR '']'' # rest) rest"
proof -
  obtain n' where n: "n = Suc n'" using assms(3) by (cases n) auto
  show ?thesis
  proof (cases "vs = []")
    case True
    then have "u = t" using assms(1,2) by simp
    with v [of "CHR '']'' # rest" n'] True n assms(3) reads_elems_Cons(1) show ?thesis by simp
  next
    case False
    then obtain u' where u': "enc_elems vs = Some u'" "u = t @ CHR '','' # u'" using assms(1,2) by auto
    then have "reads n' d v (t @ CHR '','' # u' @ CHR '']'' # rest) (CHR '','' # u' @ CHR '']'' # rest)"
      "reads_elems n' d vs (u' @ CHR '']'' # rest) rest"
      using v vs [OF False u'(1)] n assms(3) by simp_all
    from reads_elems_Cons(2) [OF this] show ?thesis using n u'(2) by simp
  qed
qed

lemma reads_members_step:
  assumes "enc_members ((k, v) # ps) = Some w" and "enc v = Some t" and "valid_utf8 k" and "2 * length w + 1 \<le> n"
    and v: "\<And>s m. follow s \<Longrightarrow> 2 * length t \<le> m \<Longrightarrow> reads m d v (t @ s) s"
    and ps: "\<And>u' m. ps \<noteq> [] \<Longrightarrow> enc_members ps = Some u' \<Longrightarrow> 2 * length u' + 1 \<le> m \<Longrightarrow>
      reads_members m d ps (u' @ CHR ''}'' # rest) rest"
  shows "reads_members n d ((k, v) # ps) (w @ CHR ''}'' # rest) rest"
proof -
  obtain n' where n: "n = Suc n'" using assms(4) by (cases n) auto
  show ?thesis
  proof (cases "ps = []")
    case True
    then have "w = enc_str k @ CHR '':'' # t" using assms(1,2) by simp
    with v [of "CHR ''}'' # rest" n'] True n assms(4) reads_members_Cons(1) [OF assms(3)] show ?thesis by simp
  next
    case False
    then obtain u' where u': "enc_members ps = Some u'" "w = enc_str k @ CHR '':'' # t @ CHR '','' # u'"
      using assms(1,2) by auto
    then have "reads n' d v (t @ CHR '','' # u' @ CHR ''}'' # rest) (CHR '','' # u' @ CHR ''}'' # rest)"
      "reads_members n' d ps (u' @ CHR ''}'' # rest) rest"
      using v ps [OF False u'(1)] n assms(4) by simp_all
    from reads_members_Cons(2) [OF assms(3) this] show ?thesis using n u'(2) by simp
  qed
qed

lemma round_enc:
  "enc v = Some t \<Longrightarrow> jok d v \<Longrightarrow> follow rest \<Longrightarrow> 2 * length t \<le> n \<Longrightarrow> reads n d v (t @ rest) rest"
  "enc_elems vs = Some u \<Longrightarrow> joks d vs \<Longrightarrow> vs \<noteq> [] \<Longrightarrow> 2 * length u + 1 \<le> n \<Longrightarrow>
    reads_elems n d vs (u @ CHR '']'' # rest) rest"
  "enc_members ps = Some w \<Longrightarrow> jokm d ps \<Longrightarrow> ps \<noteq> [] \<Longrightarrow> 2 * length w + 1 \<le> n \<Longrightarrow>
    reads_members n d ps (w @ CHR ''}'' # rest) rest"
proof (induction v and vs and ps arbitrary: t d rest n and u d rest n and w d rest n
    rule: enc_enc_elems_enc_members.induct)
  case (1 t d rest n)
  then show ?case by (cases n) (auto simp: p_value_lit simp del: append.simps p_value.simps)
next
  case (3 b t d rest n)
  then show ?case
    by (cases n; cases b) (auto simp: p_value_lit simp del: append.simps p_value.simps)
next
  case (4 x t d rest n)
  then have x: "f64_ok x" "fmt_json x = Some t" by simp_all
  then have "t \<noteq> []" by (metis fmt_json_shape num_start list.distinct(1))
  with 4 obtain n' where "n = Suc n'" by (cases n) auto
  then show ?case using p_value_num [OF x "4.prems"(3)] ParseFloat_fmt_json [OF x] by simp
next
  case (5 s t d rest n)
  then obtain n' where "n = Suc n'" by (cases n) (auto simp: enc_str_def)
  with 5 show ?case using p_value_str by (auto simp del: p_value.simps)
next
  case (6 vs t d rest n)
  then obtain u where u: "enc_elems vs = Some u" "t = CHR ''['' # u @ '']''" by auto
  with "6.prems" obtain n' where n: "n = Suc n'" "2 * length u + 1 \<le> n'" by (cases n) auto
  have d: "0 < d" "joks (d - 1) vs" using "6.prems"(2) by simp_all
  show ?case using reads_arr [OF d(1) u(1) d(2) "6.IH" [OF u(1) d(2) _ n(2)]] u(2) n(1) by simp
next
  case (7 ps t d rest n)
  then obtain u where u: "enc_members ps = Some u" "t = CHR ''{'' # u @ ''}''" by auto
  with "7.prems" obtain n' where n: "n = Suc n'" "2 * length u + 1 \<le> n'" by (cases n) auto
  have d: "0 < d" "jokm (d - 1) ps" "gm_ok ps" using "7.prems"(2) by simp_all
  show ?case using reads_obj [OF d(1) u(1) d(3) "7.IH" [OF u(1) d(2) _ n(2)]] u(2) n(1) by simp
next
  case (9 v vs u d rest n)
  then obtain t where t: "enc v = Some t" by (auto split: option.splits)
  show ?case
    by (rule reads_elems_step [OF "9.prems"(1) t "9.prems"(4)])
      (use "9.IH"(1) [OF t] "9.IH"(2) [OF t] "9.prems"(2) in auto)
next
  case (11 k v ps w d rest n)
  then obtain t where t: "enc v = Some t" by (auto split: option.splits)
  show ?case
    by (rule reads_members_step [OF "11.prems"(1) t _ "11.prems"(4)])
      (use "11.IH"(1) [OF t] "11.IH"(2) [OF t] "11.prems"(2) in auto)
qed simp_all

section \<open>Documents\<close>

text \<open>Reading what was written.\<close>

lemma parse_enc:
  assumes "enc v = Some t" and "jok maxNestingDepth v"
  shows "\<exists>x. parse t = Some x \<and> to_any x = Some v"
proof -
  obtain x where "p_value (2 * length t + 2) maxNestingDepth (t @ []) = Some (x, [])" "to_any x = Some v"
    using round_enc(1) [OF assms follow_punct(1), of "2 * length t + 2"] by auto
  then show ?thesis by (simp add: parse_def skip_ws_def)
qed

lemma unm_any_enc:
  "enc v = Some t \<Longrightarrow> jok maxNestingDepth v \<Longrightarrow> unm_any t = Some v"
  using parse_enc by (fastforce simp: unm_any_def)

end
