(* ===== verification/Json_Grammar.thy ===== *)
theory Json_Grammar
  imports Json_Round
begin

text \<open>
  What the parser reads: its language as a grammar (\<open>is_value\<close>), the well-formedness of its
  results, so that what was read can be written, and how much fuel it needs (\<open>fuel_enough\<close>).
\<close>

section \<open>Strings\<close>

text \<open>What was read can be written.\<close>

lemma valid_ascii: "byte_of c < 128 \<Longrightarrow> valid_utf8 (c # s) = valid_utf8 s"
  by (auto simp: DecodeRune_ascii RuneError_def)

lemma hex_val_less: "hex_val c = Some n \<Longrightarrow> n < 16"
  by (auto simp: hex_val_def is_digit_def dval_def is_hexletter_def Let_def split: if_splits)

lemma hex4_less: "hex4 a b c d = Some n \<Longrightarrow> n < 65536"
  by (auto simp: hex4_def dest!: hex_val_less split: option.splits)

lemma esc_val_ascii: "esc_val e = Some d \<Longrightarrow> byte_of d < 128"
  by (auto simp: esc_val_def quote_bslash ascii_codes split: if_splits)

lemma surrogate_pair_scalar:
  assumes "is_surrogate rr" and "rr < 56320" and "low_surrogate s = Some lo"
  shows "scalar ((rr - 55296) * 1024 + (lo - 56320) + 65536)"
proof -
  have "56320 \<le> lo" "lo < 57344"
    using assms(3) by (auto simp: low_surrogate_def split: list.splits if_splits option.splits)
  then show ?thesis using assms(1,2) by (auto simp: is_surrogate_def scalar_def)
qed

lemma scalar_RuneError: "scalar RuneError"
  by (simp add: scalar_def RuneError_def is_surrogate_def)

lemma DecodeRune_scalar: "DecodeRune (c # s) = (r, n) \<Longrightarrow> scalar r"
  by (erule DecodeRune_cases) (simp_all add: scalar_RuneError)

text \<open>A step of the string scanner: it adds well-formed bytes.\<close>

definition adds :: "bytes \<Rightarrow> bytes \<Rightarrow> bytes \<Rightarrow> bytes \<Rightarrow> bool" where
  "adds s k r x \<longleftrightarrow> (\<forall>y. valid_utf8 (x @ y) = valid_utf8 y) \<and>
     (\<exists>k' s'. k = x @ k' \<and> p_str s' = Some (k', r) \<and> length s' < length s)"

lemma adds_rune:
  "scalar q \<Longrightarrow> map_option (apfst ((@) (EncodeRune q))) (p_str s') = Some (k, r) \<Longrightarrow>
   length s' < length s \<Longrightarrow> \<exists>x. adds s k r x"
  by (intro exI [of _ "EncodeRune q"]) (auto simp: adds_def valid_EncodeRune)

lemma adds_ascii:
  "byte_of c < 128 \<Longrightarrow> map_option (apfst ((#) c)) (p_str s') = Some (k, r) \<Longrightarrow>
   length s' < length s \<Longrightarrow> \<exists>x. adds s k r x"
  by (intro exI [of _ "[c]"]) (auto simp: adds_def valid_ascii simp del: valid_utf8.simps)

lemma four_chars:
  "(case t of x1 # x2 # x3 # x4 # u \<Rightarrow> f x1 x2 x3 x4 u | _ \<Rightarrow> None) = Some y \<Longrightarrow>
   \<exists>x1 x2 x3 x4 u. t = x1 # x2 # x3 # x4 # u \<and> f x1 x2 x3 x4 u = Some y"
  by (auto split: list.splits)

text \<open>The three kinds of a step: an escape by number, another escape, and anything else.\<close>

lemma adds_unicode:
  assumes "p_str (bslash # CHR ''u'' # t) = Some (k, r)"
  shows "\<exists>x. adds (bslash # CHR ''u'' # t) k r x"
proof -
  note eq = assms [unfolded p_str.simps(2)]
  obtain x1 x2 x3 x4 u rr where t: "t = x1 # x2 # x3 # x4 # u" "hex4 x1 x2 x3 x4 = Some rr"
    using eq by (auto simp: quote_bslash split: list.splits option.splits)
  have u: "length u < length (bslash # CHR ''u'' # t)" "length (drop 6 u) < length (bslash # CHR ''u'' # t)"
    using t by auto
  consider "\<not> is_surrogate rr" | "is_surrogate rr" "(if rr < 56320 then low_surrogate u else None) = None"
    | lo where "is_surrogate rr" "rr < 56320" "low_surrogate u = Some lo"
    by (cases "if rr < 56320 then low_surrogate u else None") (auto split: if_splits)
  then show ?thesis
  proof cases
    case 1
    then have "map_option (apfst ((@) (EncodeRune rr))) (p_str u) = Some (k, r)"
      using eq t by (simp add: quote_bslash)
    moreover have "scalar rr" using hex4_less [OF t(2)] 1 by (simp add: scalar_def)
    ultimately show ?thesis using adds_rune u(1) by blast
  next
    case 2
    then have "map_option (apfst ((@) (EncodeRune RuneError))) (p_str u) = Some (k, r)"
      using eq t by (simp add: quote_bslash)
    then show ?thesis using adds_rune [OF scalar_RuneError] u(1) by blast
  next
    case 3
    then have "map_option (apfst ((@) (EncodeRune ((rr - 55296) * 1024 + (lo - 56320) + 65536))))
        (p_str (drop 6 u)) = Some (k, r)"
      using eq t by (simp add: quote_bslash)
    then show ?thesis using adds_rune surrogate_pair_scalar [OF 3] u(2) by blast
  qed
qed

lemma adds_escape:
  assumes "p_str (bslash # e # t) = Some (k, r)" and "e \<noteq> CHR ''u''"
  shows "\<exists>x. adds (bslash # e # t) k r x"
proof -
  have e: "(case esc_val e of None \<Rightarrow> None | Some d \<Rightarrow> map_option (apfst ((#) d)) (p_str t)) = Some (k, r)"
    using assms by (simp add: p_str.simps(2) quote_bslash)
  then obtain d where d: "esc_val e = Some d" by (cases "esc_val e") simp_all
  with e have "map_option (apfst ((#) d)) (p_str t) = Some (k, r)" by simp
  with adds_ascii [OF esc_val_ascii [OF d], of t k r "bslash # e # t"] show ?thesis by simp
qed

lemma adds_plain:
  assumes "p_str (c # s) = Some (k, r)" and "c \<noteq> quote_ch" and "c \<noteq> bslash"
  shows "\<exists>x. adds (c # s) k r x"
proof (cases "byte_of c < 128")
  case True
  then have "map_option (apfst ((#) c)) (p_str s) = Some (k, r)"
    using assms by (auto simp: p_str.simps(2) split: if_splits)
  then show ?thesis using adds_ascii [OF True] by simp
next
  case False
  obtain q n where d: "DecodeRune (c # s) = (q, n)" by force
  then have "map_option (apfst ((@) (EncodeRune q))) (p_str (drop (n - 1) s)) = Some (k, r)"
    using assms False by (simp add: p_str.simps(2))
  then show ?thesis using adds_rune [OF DecodeRune_scalar [OF d]] by simp
qed

lemma p_str_step:
  assumes "p_str (c # s) = Some (k, r)"
  shows "k = [] \<and> r = s \<or> (\<exists>x. adds (c # s) k r x)"
proof (cases "c = quote_ch")
  case True
  with assms show ?thesis by (simp add: p_str_quote)
next
  case False
  show ?thesis
  proof (cases "c = bslash")
    case True
    then obtain e t where "s = e # t" using assms False by (cases s) (auto simp: p_str.simps)
    with True assms adds_unicode adds_escape show ?thesis by (cases "e = CHR ''u''") auto
  qed (use assms False adds_plain in blast)
qed

lemma p_str_valid: "p_str s = Some (k, r) \<Longrightarrow> valid_utf8 k \<and> length r < length s"
proof (induction s arbitrary: k r rule: length_induct)
  case (1 s)
  then obtain c s' where s: "s = c # s'" by (cases s) auto
  from p_str_step [of c s' k r] 1 s show ?case by (auto simp: adds_def)
qed

section \<open>A grammar\<close>

text \<open>The language of the parser without its fuel: \<open>is_value d s t r\<close> when \<open>s\<close> starts with a document
  \<open>t\<close> of depth at most \<open>d\<close>, with \<open>r\<close> behind it.\<close>

inductive is_value :: "nat \<Rightarrow> bytes \<Rightarrow> jtext \<Rightarrow> bytes \<Rightarrow> bool"
  and is_elems :: "nat \<Rightarrow> bytes \<Rightarrow> jtext list \<Rightarrow> bytes \<Rightarrow> bool"
  and is_members :: "nat \<Rightarrow> bytes \<Rightarrow> (string \<times> jtext) list \<Rightarrow> bytes \<Rightarrow> bool" where
  obj0: "skip_ws s = CHR ''{'' # u \<Longrightarrow> skip_ws u = CHR ''}'' # r \<Longrightarrow> 0 < d \<Longrightarrow> is_value d s (TObj []) r"
| obj: "skip_ws s = CHR ''{'' # u \<Longrightarrow> 0 < d \<Longrightarrow> is_members (d - 1) (skip_ws u) ps r \<Longrightarrow> is_value d s (TObj ps) r"
| arr0: "skip_ws s = CHR ''['' # u \<Longrightarrow> skip_ws u = CHR '']'' # r \<Longrightarrow> 0 < d \<Longrightarrow> is_value d s (TArr []) r"
| arr: "skip_ws s = CHR ''['' # u \<Longrightarrow> 0 < d \<Longrightarrow> is_elems (d - 1) (skip_ws u) ts r \<Longrightarrow> is_value d s (TArr ts) r"
| str: "skip_ws s = quote_ch # u \<Longrightarrow> p_str u = Some (k, r) \<Longrightarrow> is_value d s (TStr k) r"
| lit: "skip_ws s = w @ r \<Longrightarrow> (w, t) \<in> {(''true'', TBool True), (''false'', TBool False), (''null'', TNull)} \<Longrightarrow>
    is_value d s t r"
| num: "scan_num (skip_ws s) = Some (w, r) \<Longrightarrow> is_value d s (TNum w) r"
| last_elem: "is_value d s t u \<Longrightarrow> skip_ws u = CHR '']'' # r \<Longrightarrow> is_elems d s [t] r"
| more_elems: "is_value d s t u \<Longrightarrow> skip_ws u = CHR '','' # w \<Longrightarrow> is_elems d w ts r \<Longrightarrow> is_elems d s (t # ts) r"
| last_member: "skip_ws s = quote_ch # u \<Longrightarrow> p_str u = Some (k, u1) \<Longrightarrow> skip_ws u1 = CHR '':'' # u2 \<Longrightarrow>
    is_value d u2 t u3 \<Longrightarrow> skip_ws u3 = CHR ''}'' # r \<Longrightarrow> is_members d s [(k, t)] r"
| more_members: "skip_ws s = quote_ch # u \<Longrightarrow> p_str u = Some (k, u1) \<Longrightarrow> skip_ws u1 = CHR '':'' # u2 \<Longrightarrow>
    is_value d u2 t u3 \<Longrightarrow> skip_ws u3 = CHR '','' # u4 \<Longrightarrow> is_members d u4 ps r \<Longrightarrow> is_members d s ((k, t) # ps) r"

lemma p_lit_split: "p_lit w v s = Some (t, r) \<Longrightarrow> t = v \<and> s = w @ r"
  by (auto simp: p_lit_def HasPrefix_def split: if_splits) (metis append_take_drop_id)

lemma p_lit_grammar:
  "p_lit ''true'' (TBool True) (skip_ws s) = Some (t, r) \<Longrightarrow> is_value d s t r"
  "p_lit ''false'' (TBool False) (skip_ws s) = Some (t, r) \<Longrightarrow> is_value d s t r"
  "p_lit ''null'' TNull (skip_ws s) = Some (t, r) \<Longrightarrow> is_value d s t r"
  by (drule p_lit_split, rule lit, auto)+

lemma p_value_grammar:
  "p_value n d s = Some (t, r) \<Longrightarrow> is_value d s t r"
  "p_elems n d s = Some (ts, r) \<Longrightarrow> is_elems d s ts r"
  "p_members n d s = Some (ps, r) \<Longrightarrow> is_members d s ps r"
proof (induction n d s and n d s and n d s arbitrary: t r and ts r and ps r
    rule: p_value_p_elems_p_members.induct)
  case (2 n d s)
  have q: "quote_ch \<noteq> CHR ''{''" "quote_ch \<noteq> CHR ''[''" by (simp_all add: quote_ch_def char_of_eq byte_of_def)
  obtain c u where s: "skip_ws s = c # u" using "2.prems" by (cases "skip_ws s") auto
  consider "c = CHR ''{''" | "c = CHR ''[''" | "c = quote_ch"
    | "c \<noteq> CHR ''{''" "c \<noteq> CHR ''[''" "c \<noteq> quote_ch" by blast
  then show ?case
  proof cases
    case 1
    then show ?thesis
      using "2.prems" "2.IH"(1) [OF s 1] s obj0 [of s u] obj [of s u d]
      by (auto split: list.splits if_splits)
  next
    case 2
    then show ?thesis
      using "2.prems" "2.IH"(2) [OF s _ 2] s arr0 [of s u] arr [of s u d]
      by (auto split: list.splits if_splits)
  next
    case 3
    then show ?thesis using "2.prems" s str q by auto
  next
    case 4
    then show ?thesis
      using "2.prems" s num [of s] p_lit_grammar [of s t r d] by (auto split: if_splits)
  qed
next
  case (4 n d s)
  then show ?case
    by (auto split: option.splits list.splits if_splits) (metis more_elems, metis last_elem)
next
  case (6 n d s)
  then show ?case
    by (auto split: option.splits list.splits if_splits) (metis more_members, metis last_member)
qed simp_all

section \<open>What the parser accepts\<close>

text \<open>The documents of depth at most \<open>d\<close>, with well-formed strings and numbers that start like
  numbers.\<close>

definition numeric :: "string \<Rightarrow> bool" where
  "numeric s \<longleftrightarrow> (\<exists>sg c r. s = sign_str sg @ c # r \<and> is_digit c)"

fun tok :: "nat \<Rightarrow> jtext \<Rightarrow> bool"
  and toks :: "nat \<Rightarrow> jtext list \<Rightarrow> bool"
  and tokm :: "nat \<Rightarrow> (string \<times> jtext) list \<Rightarrow> bool" where
  "tok d TNull = True"
| "tok d (TBool b) = True"
| "tok d (TNum s) = numeric s"
| "tok d (TStr s) = valid_utf8 s"
| "tok d (TArr ts) = (0 < d \<and> toks (d - 1) ts)"
| "tok d (TObj ps) = (0 < d \<and> tokm (d - 1) ps)"
| "toks d [] = True"
| "toks d (t # ts) = (tok d t \<and> toks d ts)"
| "tokm d [] = True"
| "tokm d ((k, t) # ps) = (valid_utf8 k \<and> tok d t \<and> tokm d ps)"

lemma scan_digits_some: "scan_digits s = Some (a, r) \<Longrightarrow> \<exists>c x. a = c # x \<and> is_digit c"
  by (cases s) (auto simp: scan_digits_def split: if_splits)

lemma scan_int_some: "scan_int s = Some (a, r) \<Longrightarrow> \<exists>c x. a = c # x \<and> is_digit c"
proof (cases s)
  case (Cons c t)
  assume "scan_int s = Some (a, r)"
  with Cons have "a = ''0'' \<or> scan_digits s = Some (a, r)"
    by (simp add: scan_int_def split: if_splits)
  then show ?thesis using scan_digits_some zero_digit by blast
qed (simp add: scan_int_def)

lemma scan_num_numeric: "scan_num s = Some (t, r) \<Longrightarrow> numeric t"
proof -
  assume n: "scan_num s = Some (t, r)"
  obtain sg s1 where s1: "(case s of c # t \<Rightarrow> if c = CHR ''-'' then ([c], t) else ([], s) | [] \<Rightarrow> ([], s)) = (sg, s1)"
    by force
  then have sg: "\<exists>neg. sg = sign_str neg"
    by (auto simp: sign_str_def split: list.splits if_splits intro: exI [of _ True] exI [of _ False])
  from n s1 obtain a b e where "t = sg @ a @ b @ e" "\<exists>r. scan_int s1 = Some (a, r)"
    by (auto simp: scan_num_def split: option.splits)
  then show ?thesis using sg scan_int_some by (fastforce simp: numeric_def)
qed

lemma grammar_tok:
  "is_value d s t r \<Longrightarrow> tok d t"
  "is_elems d s ts r \<Longrightarrow> toks d ts"
  "is_members d s ps r \<Longrightarrow> tokm d ps"
  by (induction d s t r and d s ts r and d s ps r rule: is_value_is_elems_is_members.inducts)
    (auto dest: p_str_valid scan_num_numeric)

lemmas p_value_tok = grammar_tok(1) [OF p_value_grammar(1)]

lemma special_numeric:
  assumes "numeric s"
  shows "special s = None"
proof -
  obtain sg a x where s: "s = sign_str sg @ a # x" and a: "is_digit a"
    using assms by (auto simp: numeric_def)
  note n = digit_neq [OF a]
  have sm: "lower CHR ''-'' = CHR ''-''" by (simp add: lower_def byte_of_def)
  have neq: "map lower (a # x) \<noteq> ''inf''" "map lower (a # x) \<noteq> ''infinity''"
    "map lower (sign_str sg @ a # x) \<noteq> ''nan''"
    using n sm by (cases sg; simp add: sign_str_def)+
  have ss: "strip_sign (map lower (sign_str sg @ a # x)) = (sg, map lower (a # x))"
    using n sm strip_sign_digit [OF a, of "map lower x"]
    by (cases sg) (simp_all add: sign_str_def strip_sign_def)
  show ?thesis
    unfolding s special_def Let_def ss prod.case using neq by simp
qed

lemma set_gm_of_list: "set (gm_of_list ps) \<subseteq> set ps"
proof
  fix p assume p: "p \<in> set (gm_of_list ps)"
  have "map_of (gm_of_list ps) (fst p) = Some (snd p)"
    using p gm_ok_distinct [OF gm_ok_of_list [of ps]] map_of_is_SomeI by fastforce
  then have "map_of (rev ps) (fst p) = Some (snd p)" by (simp add: map_of_gm_of_list)
  then show "p \<in> set ps" using map_of_SomeD by fastforce
qed

lemma tok_jok:
  "tok d t \<Longrightarrow> to_any t = Some v \<Longrightarrow> jok d v"
  "toks d ts \<Longrightarrow> to_list ts = Some vs \<Longrightarrow> joks d vs"
  "tokm d qs \<Longrightarrow> to_members qs = Some ps \<Longrightarrow> jokm d ps"
proof (induction t and ts and qs arbitrary: d v and d vs and d ps
    rule: to_any_to_list_to_members.induct)
  case (3 s)
  then obtain x where "ParseFloat s = Some x" "v = JNum x" "numeric s" by auto
  then show ?case using ParseFloat_ok ParseFloat_finite [OF special_numeric] by simp
next
  case (6 qs)
  then obtain ps where ps: "to_members qs = Some ps" "v = JObj (gm_of_list ps)" by auto
  with 6 have "jokm (d - 1) ps" by simp
  then have "jokm (d - 1) (gm_of_list ps)"
    using set_gm_of_list [of ps] unfolding jokm_iff by blast
  with 6 ps show ?case by simp
qed (auto split: option.splits)

theorem unm_any_jok: "unm_any s = Some v \<Longrightarrow> jok maxNestingDepth v"
  by (auto simp: unm_any_def parse_def simp del: p_value.simps intro: tok_jok(1) dest!: p_value_tok
      split: option.splits if_splits)

section \<open>Fuel\<close>

lemma skip_ws_length: "length (skip_ws s) \<le> length s"
  by (simp add: skip_ws_def length_dropWhile_le)

lemma scan_digits_split: "scan_digits s = Some (a, r) \<Longrightarrow> s = a @ r"
  by (cases s) (auto simp: scan_digits_def split: if_splits)

lemma scan_int_split: "scan_int s = Some (a, r) \<Longrightarrow> s = a @ r"
  by (auto simp: scan_int_def scan_digits_split split: list.splits if_splits)

lemma scan_frac_split: "scan_frac s = Some (a, r) \<Longrightarrow> s = a @ r"
  by (auto simp: scan_frac_def dest: scan_digits_split split: list.splits if_splits)

lemma scan_exp_split: "scan_exp s = Some (a, r) \<Longrightarrow> s = a @ r"
  by (auto simp: scan_exp_def dest: scan_digits_split split: list.splits if_splits)

lemma scan_num_split: "scan_num s = Some (a, r) \<Longrightarrow> s = a @ r"
  by (auto simp: scan_num_def dest!: scan_int_split scan_frac_split scan_exp_split
      split: list.splits if_splits option.splits)


lemma shorter_ws: "skip_ws s = c # r \<Longrightarrow> length r < length s"
  using skip_ws_length [of s] by simp

lemma less_ws: "length r < length (skip_ws s) \<Longrightarrow> length r < length s"
  using skip_ws_length [of s] by simp

lemma grammar_shorter:
  "is_value d s t r \<Longrightarrow> length r < length s"
  "is_elems d s ts r \<Longrightarrow> length r < length s"
  "is_members d s ps r \<Longrightarrow> length r < length s"
proof (induction d s t r and d s ts r and d s ps r rule: is_value_is_elems_is_members.inducts)
  case (lit s w r t d)
  then show ?case using skip_ws_length [of s] by auto
next
  case (num s w r d)
  then show ?case
    using scan_num_split [OF num] scan_num_numeric [OF num] skip_ws_length [of s] by (auto simp: numeric_def)
qed (auto dest!: shorter_ws p_str_valid less_ws)

lemmas p_value_shorter = grammar_shorter(1) [OF p_value_grammar(1)]

text \<open>With enough fuel, more of it changes nothing.\<close>

lemma fuel_step:
  "2 * length s + 1 \<le> n \<Longrightarrow> p_value (Suc n) d s = p_value n d s"
  "2 * length s + 2 \<le> n \<Longrightarrow> p_elems (Suc n) d s = p_elems n d s"
  "2 * length s + 2 \<le> n \<Longrightarrow> p_members (Suc n) d s = p_members n d s"
proof (induction n d s and n d s and n d s rule: p_value_p_elems_p_members.induct)
  case (2 n d s)
  show ?case
  proof (cases "skip_ws s")
    case (Cons c u)
    have l: "length u < length s" by (rule shorter_ws [OF Cons])
    have m: "p_members (Suc n) (d - 1) (c1 # w) = p_members n (d - 1) (c1 # w)"
      if "c = CHR ''{''" "d \<noteq> 0" "skip_ws u = c1 # w" "c1 \<noteq> CHR ''}''" for c1 w
      using "2.IH"(1) [OF Cons that] "2.prems" l shorter_ws [OF that(3)] by simp
    have e: "p_elems (Suc n) (d - 1) (c1 # w) = p_elems n (d - 1) (c1 # w)"
      if "c \<noteq> CHR ''{''" "c = CHR ''[''" "d \<noteq> 0" "skip_ws u = c1 # w" "c1 \<noteq> CHR '']''" for c1 w
      using "2.IH"(2) [OF Cons that] "2.prems" l shorter_ws [OF that(4)] by simp
    show ?thesis using Cons m e
      by (simp del: p_members.simps p_elems.simps split: list.split)
  qed simp
next
  case (4 n d s)
  have v: "p_value (Suc n) d s = p_value n d s" using "4.IH"(1) "4.prems" by simp
  show ?case
  proof (cases "p_value n d s")
    case (Some p)
    then obtain x u where x: "p_value n d s = Some (x, u)" by (cases p) auto
    have "p_elems (Suc n) d w = p_elems n d w" if "skip_ws u = c # w" "c = CHR '',''" for c w
      using "4.IH"(2) [OF x HOL.refl that] "4.prems" p_value_shorter [OF x] shorter_ws [OF that(1)] by simp
    then show ?thesis
      using v x by (simp del: p_value.simps p_elems.simps add: p_elems.simps(2) split: list.split)
  qed (use v in simp)
next
  case (6 n d s)
  have v: "p_value (Suc n) d r1 = p_value n d r1"
    if "skip_ws s = q # t" "\<not> q \<noteq> quote_ch" "p_str t = Some (k, r)" "skip_ws r = c # r1" "\<not> c \<noteq> CHR '':''"
    for q t k r c r1
    using "6.IH"(1) [OF that(1,2,3) HOL.refl that(4,5)] "6.prems" shorter_ws [OF that(1)]
      p_str_valid [OF that(3)] shorter_ws [OF that(4)] by simp
  have m: "p_members (Suc n) d r3 = p_members n d r3"
    if "skip_ws s = q # t" "\<not> q \<noteq> quote_ch" "p_str t = Some (k, r)" "skip_ws r = c # r1"
      "\<not> c \<noteq> CHR '':''" "p_value n d r1 = Some (x, r2)" "skip_ws r2 = c2 # r3" "c2 = CHR '',''"
    for q t k r c r1 x r2 c2 r3
    using "6.IH"(2) [OF that(1,2,3) HOL.refl that(4,5,6) HOL.refl that(7,8)] "6.prems"
      shorter_ws [OF that(1)] p_str_valid [OF that(3)] shorter_ws [OF that(4)]
      p_value_shorter [OF that(6)] shorter_ws [OF that(7)] by simp
  show ?case
    using v m
    by (simp del: p_value.simps p_members.simps add: p_members.simps(2) split: list.split option.split prod.split)
qed simp_all

lemma fuel_enough:
  assumes "2 * length s + 1 \<le> n"
  shows "p_value (n + k) d s = p_value n d s"
  using assms by (induction k) (simp_all add: fuel_step(1) del: p_value.simps)

end
