(* ===== verification/Values.thy ===== *)
theory Values
  imports Utils Json_Grammar
begin

text \<open>
  The values the commands store: what \<^verbatim>\<open>EnsureUnmarshal\<close> makes of an argument, and the round trip
  of the texts written by \<^verbatim>\<open>ObjectToByte\<close> for values, lists, maps and numbers.
\<close>

section \<open>Arguments\<close>

lemma EnsureUnmarshal_jok: "valid_utf8 s \<Longrightarrow> jok maxNestingDepth (EnsureUnmarshal s)"
  using unm_any_jok by (auto simp: EnsureUnmarshal_def split: option.split)

lemma maxNestingDepth_pos [simp]: "0 < maxNestingDepth"
  by (simp add: maxNestingDepth_def)

lemma unm_null: "unm_any ''null'' = Some JNull"
  using unm_any_enc [of JNull] by simp

text \<open>A value written and read again.\<close>

lemma enc_read:
  assumes "jok maxNestingDepth v"
  obtains t where "enc v = Some t" "unm_any t = Some v"
  using jok_enc(1) [OF assms] unm_any_enc [OF _ assms] by blast

lemma unm_ObjectToByte: "jok maxNestingDepth v \<Longrightarrow> v \<noteq> JNull \<Longrightarrow> unm_any (ObjectToByte v) = Some v"
  by (erule enc_read) (simp add: ObjectToByte_def)

lemma jok_arr: "joks (maxNestingDepth - 1) vs \<Longrightarrow> jok maxNestingDepth (JArr vs)"
  by simp

lemma jok_obj: "gm_ok m \<Longrightarrow> jokm (maxNestingDepth - 1) m \<Longrightarrow> jok maxNestingDepth (JObj m)"
  by simp

lemma unm_SliceToByte:
  "joks (maxNestingDepth - 1) vs \<Longrightarrow> unm_arr (SliceToByte (Some vs)) = Some (Some vs)"
  by (rule enc_read [OF jok_arr]) (auto simp: SliceToByte_def enc_slice_def unm_arr_def)

lemma unm_SliceToByte_None [simp]: "unm_arr (SliceToByte None) = Some None"
  by (simp add: SliceToByte_def enc_slice_def unm_arr_def unm_null)

lemma unm_MapToByte:
  "gm_ok m \<Longrightarrow> jokm (maxNestingDepth - 1) m \<Longrightarrow> unm_map (MapToByte (Some m)) = Some (Some m)"
  using unm_ObjectToByte [OF jok_obj]
  by (simp add: MapToByte_def any_of_map_def unm_map_def)

lemma unm_MapToByte_None [simp]: "unm_map (MapToByte None) = Some None"
  by (simp add: MapToByte_def any_of_map_def ObjectToByte_def unm_map_def unm_null)

text \<open>What was read is good.\<close>

lemma unm_arr_joks: "unm_arr t = Some (Some vs) \<Longrightarrow> joks (maxNestingDepth - 1) vs"
  by (auto simp: unm_arr_def dest: unm_any_jok split: option.splits json.splits)

lemma unm_map_jokm:
  "unm_map t = Some (Some m) \<Longrightarrow> gm_ok m \<and> jokm (maxNestingDepth - 1) m"
  by (auto simp: unm_map_def dest: unm_any_jok split: option.splits json.splits)

section \<open>Numbers\<close>

text \<open>Reading a stored number again: an integer text goes through \<^verbatim>\<open>strconv.ParseInt\<close>, which loses
  the sign of zero.\<close>

lemma ParseInt64_shape:
  assumes "shape_ok A B E" and "ParseInt64 (num_shape neg A B E) = Some i"
  shows "B = [] \<and> E = None \<and> i = (if neg then - int (nat_of_dec A) else int (nat_of_dec A))"
proof -
  have A: "A \<noteq> []" "list_all is_digit A" using assms(1) by (simp_all add: shape_ok_def)
  have s: "strip_sign (num_shape neg A B E) = (neg, A @ frac_str B @ exp_str E)"
    unfolding num_shape_def by (rule strip_sign_shape [OF A])
  have "list_all is_digit (A @ frac_str B @ exp_str E)"
    using assms(2) s by (auto simp: ParseInt64_def split: if_splits)
  moreover have "\<not> is_digit (CHR ''.'')" "\<not> is_digit (CHR ''e'')"
    by (simp_all add: is_digit_def byte_of_def)
  ultimately have e: "B = []" "E = None"
    by (auto simp: frac_str_def exp_str_def split: if_splits option.splits)
  then show ?thesis
    using assms(2) s A by (auto simp: ParseInt64_def Let_def frac_str_def exp_str_def split: if_splits)
qed

definition neg_zero :: f64 where
  "neg_zero = Fin True 0 (- 1074)"

lemma ConvertToNumber_FloatToByte:
  assumes "f64_ok x" and "fmt_json x \<noteq> None" and "x \<noteq> neg_zero"
  shows "ConvertToNumber (FloatToByte x) = Some x"
proof -
  obtain t where t: "fmt_json x = Some t" using assms(2) by blast
  then have b: "FloatToByte x = t" by (simp add: FloatToByte_def ObjectToByte_def)
  have p: "ParseFloat t = Some x" by (rule ParseFloat_fmt_json [OF assms(1) t])
  show ?thesis
  proof (cases "ParseInt64 t")
    case None
    then show ?thesis by (simp add: b p ConvertToNumber_def)
  next
    case (Some i)
    obtain s m e A B E where x: "x = Fin s m e" "t = num_shape s A B E" "shape_ok A B E"
      "round10 s (nat_of_dec (A @ B)) (exp_val E - int (length B)) = x"
      using assms(1) t by (rule fmt_json_shape)
    from ParseInt64_shape [OF x(3)] Some x(2)
    have i: "B = []" "E = None" "i = (if s then - int (nat_of_dec A) else int (nat_of_dec A))" by simp_all
    then have r: "round_ratio s (nat_of_dec A) 1 = x"
      using x(4) by (simp add: round10_def scale10_def exp_val_def)
    have "\<not> (s \<and> nat_of_dec A = 0)"
    proof
      assume z: "s \<and> nat_of_dec A = 0"
      have "round_ratio True 0 1 = neg_zero" by (simp add: round_ratio_def neg_zero_def)
      then show False using r z assms(3) by simp
    qed
    then have "f64_of_int i = x"
      using r i(3) by (cases s) (auto simp: f64_of_int_def)
    with Some show ?thesis by (simp add: b ConvertToNumber_def)
  qed
qed

lemma ConvertToNumber_ok: "ConvertToNumber s = Some x \<Longrightarrow> f64_ok x"
  by (auto simp: ConvertToNumber_def dest: ParseFloat_ok intro: f64_of_int_ok split: option.splits)

section \<open>Round trips\<close>

text \<open>C36.  A value survives being stored: the text that \<^verbatim>\<open>ObjectToByte\<close> writes of an argument is read
  back as the same value, whatever the argument was (JSON, kept by its structure, or any other
  text, kept as a string).  Only null is not written.\<close>

theorem value_roundtrip:
  assumes "valid_utf8 s" and "EnsureUnmarshal s \<noteq> JNull"
  shows "EnsureUnmarshal (ObjectToByte (EnsureUnmarshal s)) = EnsureUnmarshal s"
  using unm_ObjectToByte [OF EnsureUnmarshal_jok [OF assms(1)] assms(2)]
  by (simp add: EnsureUnmarshal_def [of "ObjectToByte (EnsureUnmarshal s)"])

theorem value_roundtrip_witness:
  "EnsureUnmarshal (ObjectToByte (EnsureUnmarshal ''[1, 2.50]'')) = EnsureUnmarshal ''[1, 2.50]''"
proof (rule value_roundtrip)
  show "valid_utf8 ''[1, 2.50]''" by code_simp
  show "EnsureUnmarshal ''[1, 2.50]'' \<noteq> JNull" by code_simp
qed

text \<open>C37.  A finite number survives being stored as decimal text: \<^verbatim>\<open>ConvertToNumber\<close> reads from the
  text of \<^verbatim>\<open>FloatToByte\<close> the very double it was written from; only the sign of zero is lost.\<close>

theorem number_roundtrip:
  assumes "ConvertToNumber s = Some x" and "\<exists>sg m e. x = Fin sg m e"
  shows "ConvertToNumber (FloatToByte x) = Some (if x = neg_zero then Fin False 0 (- 1074) else x)"
proof (cases "x = neg_zero")
  case True
  have "ConvertToNumber (FloatToByte neg_zero) = Some (Fin False 0 (- 1074))" by code_simp
  with True show ?thesis by simp
next
  case False
  have "fmt_json x \<noteq> None" using assms(2) finite_fmt by simp
  from ConvertToNumber_FloatToByte [OF ConvertToNumber_ok [OF assms(1)] this False] False show ?thesis by simp
qed

theorem number_roundtrip_witness:
  "\<exists>x. ConvertToNumber ''0.1'' = Some x \<and> ConvertToNumber (FloatToByte x) = Some x"
proof -
  have p: "ConvertToNumber ''0.1'' = Some (Fin False 7205759403792794 (- 56))" by code_simp
  have "\<exists>sg m e. Fin False 7205759403792794 (- 56) = Fin sg m e" by blast
  from number_roundtrip [OF p this] have "ConvertToNumber (FloatToByte (Fin False 7205759403792794 (- 56))) =
      Some (Fin False 7205759403792794 (- 56))"
    by (simp add: neg_zero_def)
  with p show ?thesis by blast
qed

end
