(* ===== verification/Command_Laws.thy ===== *)
theory Command_Laws
  imports Keyspace Values
begin

text \<open>
  What the commands mean on the abstract store: the law of each command over the map of visible
  objects, for any shards, log and clock, and the frame laws that hold of all commands.
\<close>

section \<open>A request on the abstract store\<close>

text \<open>The state and the result of a request read through the abstract map: what it does to the
  objects visible from time \<open>now E\<close> on, and what it answers.\<close>

definition effect ::
  "env \<Rightarrow> db \<Rightarrow> db \<times> result \<Rightarrow> ((string \<Rightarrow> object option) \<Rightarrow> string \<Rightarrow> object option) \<Rightarrow> result \<Rightarrow> bool" where
  "effect E sm p f r \<longleftrightarrow>
     ready (fst p) \<and> (\<forall>u. now E \<le> u \<longrightarrow> visible u (fst p) = f (visible u sm)) \<and> snd p = r"

definition same_view :: "env \<Rightarrow> db \<Rightarrow> db \<Rightarrow> bool" where
  "same_view E sm sm' \<longleftrightarrow> ready sm' \<and> (\<forall>u. now E \<le> u \<longrightarrow> visible u sm' = visible u sm)"

lemma same_view_refl: "ready sm \<Longrightarrow> same_view E sm sm"
  by (simp add: same_view_def)

lemma fetch_effect:
  assumes "same_view E sm sm0"
    and "\<And>sm'. same_view E sm sm' \<Longrightarrow> effect E sm (c sm' (visible (now E) sm key)) f r"
  shows "effect E sm (fetch E sm0 key c) f r"
proof -
  have "ready sm0" using assms(1) by (simp add: same_view_def)
  then obtain sm' where s: "fetch E sm0 key c = c sm' (visible (now E) sm0 key)" "ready sm'"
    "\<And>u. now E \<le> u \<Longrightarrow> visible u sm' = visible u sm0"
    using fetch_vis [where E = E and key = key and kont = c and sm = sm0] by metis
  moreover have "visible u sm0 = visible u sm" if "now E \<le> u" for u
    using assms(1) that by (simp add: same_view_def)
  ultimately show ?thesis using assms(2) [of sm'] by (simp add: same_view_def)
qed

lemma store_effect:
  "same_view E sm sm' \<Longrightarrow> f = (\<lambda>m. m(key \<mapsto> \<lparr>Value = v, Kind = kd, Timestamp = 0\<rparr>)) \<Longrightarrow>
   r = r' \<Longrightarrow> effect E sm (store E sm' key v kd r') f r"
  by (simp add: effect_def store_vis same_view_def)

lemma erase_effect:
  "same_view E sm sm' \<Longrightarrow> f = (\<lambda>m. m(key := None)) \<Longrightarrow> r = r' \<Longrightarrow>
   effect E sm (erase E sm' key r') f r"
  by (simp add: effect_def erase_vis same_view_def)

lemma done_effect: "same_view E sm sm' \<Longrightarrow> f = (\<lambda>m. m) \<Longrightarrow> r = r' \<Longrightarrow> effect E sm (sm', r') f r"
  by (simp add: effect_def same_view_def)

lemmas effects = fetch_effect store_effect erase_effect done_effect

lemma effectD:
  assumes "effect E sm p f r"
  shows "ready (fst p)" "now E \<le> u \<Longrightarrow> visible u (fst p) = f (visible u sm)" "snd p = r"
  using assms by (simp_all add: effect_def)

lemma Execute_handler:
  "map_of ExecCommands (ToUpper (euni E) c) = Some h \<Longrightarrow> Execute E c args sm = h E args sm"
  by (simp add: Execute_def)

text \<open>The new binding of a key.\<close>

abbreviation fresh_obj :: "bytes \<Rightarrow> kind \<Rightarrow> object" where
  "fresh_obj v kd \<equiv> \<lparr>Value = v, Kind = kd, Timestamp = 0\<rparr>"

section \<open>SET, GET and DELETE\<close>

lemma setKey_effect:
  "ready sm \<Longrightarrow> IsValidKey k \<Longrightarrow>
   effect E sm (setKey E [k, v] sm) (\<lambda>m. m(k \<mapsto> fresh_obj v KDefault)) (Resp [])"
  by (auto simp: setKey_def same_view_refl intro!: effects)

lemma getKey_effect:
  "ready sm \<Longrightarrow> IsValidKey k \<Longrightarrow>
   effect E sm (getKey E [k] sm) (\<lambda>m. m)
     (Resp (case visible (now E) sm k of Some ob \<Rightarrow> Value ob | None \<Rightarrow> []))"
  by (auto simp: getKey_def same_view_refl intro!: effects split: option.split)

lemma deleteKey_effect:
  assumes "ready sm" and "IsValidKey k"
  shows "effect E sm (deleteKey E [k] sm) (\<lambda>m. m(k := None)) (Resp [])"
proof -
  have wf: "sm_wf sm" using assms(1) by simp
  let ?sm = "with_mem sm k (fst (Delete k (mem_of sm k)))"
  have "visible u ?sm = (visible u sm)(k := None)" for u
    using visible_with_mem [OF wf store_frame(4)] by (simp add: live_Delete)
  moreover have "ready ?sm" using assms wf by simp
  ultimately show ?thesis
    using assms
    by (auto simp: deleteKey_def effect_def on_shard_wf [OF wf] Delete_def)
qed

section \<open>Strings\<close>

lemma strSet_effect:
  "ready sm \<Longrightarrow> IsValidKey k \<Longrightarrow>
   effect E sm (strSetFunc E [k, v] sm) (\<lambda>m. m(k \<mapsto> fresh_obj v KString)) (Resp [])"
  by (auto simp: strSetFunc_def same_view_refl intro!: effects)

lemma strGet_effect:
  "ready sm \<Longrightarrow> IsValidKey k \<Longrightarrow>
   effect E sm (strGetFunc E [k] sm) (\<lambda>m. m)
     (case visible (now E) sm k of
        Some ob \<Rightarrow> if Kind ob = KString then Resp (Value ob) else Fail notString
      | None \<Rightarrow> Crash)"
  by (auto simp: strGetFunc_def same_view_refl intro!: effects split: option.split)

lemma foldl_append: "foldl (@) a xs = a @ concat xs"
  by (induction xs arbitrary: a) simp_all

lemma strAppend_effect:
  "ready sm \<Longrightarrow> IsValidKey k \<Longrightarrow>
   effect E sm (strAppendFunc E (k # vs) sm)
     (case visible (now E) sm k of
        Some ob \<Rightarrow> if Kind ob = KString then (\<lambda>m. m(k \<mapsto> fresh_obj (Value ob @ concat vs) KString)) else (\<lambda>m. m)
      | None \<Rightarrow> (\<lambda>m. m(k \<mapsto> fresh_obj (concat vs) KString)))
     (case visible (now E) sm k of
        Some ob \<Rightarrow> if Kind ob = KString then Resp [] else Fail notString
      | None \<Rightarrow> Resp [])"
  by (auto simp: strAppendFunc_def foldl_append same_view_refl intro!: effects split: option.split)

lemma strLength_effect:
  "ready sm \<Longrightarrow> IsValidKey k \<Longrightarrow>
   effect E sm (strLengthFunc E [k] sm) (\<lambda>m. m)
     (case visible (now E) sm k of
        Some ob \<Rightarrow> if Kind ob = KString then Resp (Itoa (int (length (Value ob)))) else Fail notString
      | None \<Rightarrow> Resp (Itoa 0))"
  by (auto simp: strLengthFunc_def same_view_refl intro!: effects split: option.split)

lemma strRange_effect:
  "ready sm \<Longrightarrow> IsValidKey k \<Longrightarrow> ParseInt s = Some i \<Longrightarrow> ParseInt t = Some j \<Longrightarrow>
   effect E sm (strRangeFunc E [k, s, t] sm) (\<lambda>m. m)
     (case visible (now E) sm k of
        Some ob \<Rightarrow> if Kind ob \<noteq> KString then Fail notString
                   else (case getRange (Value ob) i j of Some r \<Rightarrow> Resp r | None \<Rightarrow> Crash)
      | None \<Rightarrow> Fail (CmdError KeyNotFoundError ''provided key does not exist''))"
  by (auto simp: strRangeFunc_def same_view_refl intro!: effects split: option.split)

section \<open>Numbers\<close>

lemma numberSet_effect:
  "ready sm \<Longrightarrow> IsValidKey k \<Longrightarrow> ConvertToNumber v = Some x \<Longrightarrow>
   effect E sm (numberSetFunc E [k, v] sm) (\<lambda>m. m(k \<mapsto> fresh_obj (FloatToByte x) KNumber)) (Resp [])"
  by (auto simp: numberSetFunc_def same_view_refl intro!: effects)

lemma numberGet_effect:
  "ready sm \<Longrightarrow> IsValidKey k \<Longrightarrow>
   effect E sm (numberGetFunc E [k] sm) (\<lambda>m. m)
     (case visible (now E) sm k of
        Some ob \<Rightarrow> if Kind ob = KNumber then Resp (Value ob) else Fail notNumber
      | None \<Rightarrow> Crash)"
  by (auto simp: numberGetFunc_def same_view_refl intro!: effects split: option.split)

text \<open>The amount and its use; both commands store the amount itself under a missing key.\<close>

definition num_new :: "(f64 \<Rightarrow> f64 \<Rightarrow> f64) \<Rightarrow> f64 \<Rightarrow> object option \<Rightarrow> f64 option" where
  "num_new arith x old =
     (case old of
        None \<Rightarrow> Some x
      | Some ob \<Rightarrow> if Kind ob = KNumber then map_option (\<lambda>c. arith c x) (ConvertToNumber (Value ob)) else None)"

lemma numberAdd_effect:
  assumes "ready sm" and "IsValidKey k" and "num_arg (k # as) = Some x" and "length as \<le> 1"
  shows "effect E sm (numberIncrFunc E (k # as) sm)
     (case num_new (+) x (visible (now E) sm k) of
        Some y \<Rightarrow> (\<lambda>m. m(k \<mapsto> fresh_obj (FloatToByte y) KNumber)) | None \<Rightarrow> (\<lambda>m. m))
     (case num_new (+) x (visible (now E) sm k) of
        Some y \<Rightarrow> Resp (FloatToByte y) | None \<Rightarrow> Fail notNumber)" (is ?incr)
    and "effect E sm (numberDecrFunc E (k # as) sm)
     (case num_new (-) x (visible (now E) sm k) of
        Some y \<Rightarrow> (\<lambda>m. m(k \<mapsto> fresh_obj (FloatToByte y) KNumber)) | None \<Rightarrow> (\<lambda>m. m))
     (case num_new (-) x (visible (now E) sm k) of
        Some y \<Rightarrow> Resp (FloatToByte y) | None \<Rightarrow> Fail notNumber)" (is ?decr)
proof -
  have "\<not> 1 < length as" using assms(4) by simp
  then show ?incr ?decr
    using assms(1-3)
    by (auto simp: numberIncrFunc_def numberDecrFunc_def num_new_def Let_def same_view_refl
        intro!: effects split: option.split)
qed

section \<open>What a client observes\<close>

text \<open>The handler behind a name, whatever the case it is written in.\<close>

lemma Execute_names:
  "ToUpper (euni E) c = ''SET'' \<Longrightarrow> Execute E c args sm = setKey E args sm"
  "ToUpper (euni E) c = ''GET'' \<Longrightarrow> Execute E c args sm = getKey E args sm"
  "ToUpper (euni E) c = ''DELETE'' \<Longrightarrow> Execute E c args sm = deleteKey E args sm"
  "ToUpper (euni E) c = ''EXISTS'' \<Longrightarrow> Execute E c args sm = existsFunc E args sm"
  "ToUpper (euni E) c = ''TTL'' \<Longrightarrow> Execute E c args sm = ttlKey E args sm"
  "ToUpper (euni E) c = ''TTL.EXPIRE'' \<Longrightarrow> Execute E c args sm = expireKey E args sm"
  "ToUpper (euni E) c = ''STR.GET'' \<Longrightarrow> Execute E c args sm = strGetFunc E args sm"
  "ToUpper (euni E) c = ''STR.APPEND'' \<Longrightarrow> Execute E c args sm = strAppendFunc E args sm"
  "ToUpper (euni E) c = ''STR.LENGTH'' \<Longrightarrow> Execute E c args sm = strLengthFunc E args sm"
  "ToUpper (euni E) c = ''STR.RANGE'' \<Longrightarrow> Execute E c args sm = strRangeFunc E args sm"
  "ToUpper (euni E) c = ''NUM.SET'' \<Longrightarrow> Execute E c args sm = numberSetFunc E args sm"
  "ToUpper (euni E) c = ''NUM.GET'' \<Longrightarrow> Execute E c args sm = numberGetFunc E args sm"
  "ToUpper (euni E) c = ''NUM.INCR'' \<Longrightarrow> Execute E c args sm = numberIncrFunc E args sm"
  "ToUpper (euni E) c = ''NUM.DECR'' \<Longrightarrow> Execute E c args sm = numberDecrFunc E args sm"
  by (simp_all add: Execute_def ExecCommands_def)

text \<open>C22.  After \<^verbatim>\<open>SET\<close> a key reads as the value set at any later time, and every other key as
  before; after \<^verbatim>\<open>DELETE\<close> the key reads as absent, and again no other key is touched.\<close>

theorem set_get:
  assumes "ready sm" and "IsValidKey k" and "IsValidKey j" and "now E \<le> now E'"
    and "ToUpper (euni E) c = ''SET''" and "ToUpper (euni E) d = ''DELETE''"
    and "ToUpper (euni E') g = ''GET''"
  shows "snd (Execute E' g [j] (fst (Execute E c [k, v] sm))) =
      (if j = k then Resp v else snd (Execute E' g [j] sm)) \<and>
    snd (Execute E' g [j] (fst (Execute E d [k] sm))) =
      (if j = k then Resp [] else snd (Execute E' g [j] sm))"
proof
  note set = setKey_effect [OF assms(1,2), of E v] and del = deleteKey_effect [OF assms(1,2), of E]
  have get: "snd (getKey E' [j] s) = Resp (case visible (now E') s j of Some ob \<Rightarrow> Value ob | None \<Rightarrow> [])"
    if "ready s" for s
    using getKey_effect [OF that assms(3), of E'] by (rule effectD(3))
  show "snd (Execute E' g [j] (fst (Execute E c [k, v] sm))) =
      (if j = k then Resp v else snd (Execute E' g [j] sm))"
    using effectD(1) [OF set] effectD(2) [OF set assms(4)] assms(1)
    by (simp add: Execute_names assms(5,7) get)
  show "snd (Execute E' g [j] (fst (Execute E d [k] sm))) =
      (if j = k then Resp [] else snd (Execute E' g [j] sm))"
    using effectD(1) [OF del] effectD(2) [OF del assms(4)] assms(1)
    by (simp add: Execute_names assms(6,7) get)
qed

theorem set_get_witness:
  "snd (Execute (env1 9) ''GET'' [''k''] (fst (Execute (env1 5) ''SET'' [''k'', ''v''] db1))) = Resp ''v''"
  using set_get [of db1 "''k''" "''k''" "env1 5" "env1 9" "''SET''" "''DELETE''" "''GET''" "''v''"]
  by (simp add: IsValidKey_def ToUpper_upper byte_of_def)

lemma exists_loop_effect:
  "same_view E sm sm0 \<Longrightarrow> effect E sm (exists_loop E keys n sm0) (\<lambda>m. m)
     (Resp (Itoa (if filter (\<lambda>k. visible (now E) sm k \<noteq> None) keys = [] then n
       else i8 (n + int (length (filter (\<lambda>k. visible (now E) sm k \<noteq> None) keys))))))"
proof (induction keys arbitrary: n sm0)
  case Nil
  then show ?case by (simp add: done_effect)
next
  case (Cons k keys)
  have i: "i8 (i8 a + b) = i8 (a + b)" for a b by (simp add: i8_def mod_simps algebra_simps)
  show ?case
    unfolding exists_loop.simps
  proof (rule fetch_effect [OF Cons.prems])
    fix sm' assume v: "same_view E sm sm'"
    note Cons.IH [OF this]
    then show "effect E sm (exists_loop E keys (if visible (now E) sm k \<noteq> None then i8 (n + 1) else n) sm')
      (\<lambda>m. m) (Resp (Itoa (if filter (\<lambda>k. visible (now E) sm k \<noteq> None) (k # keys) = [] then n
       else i8 (n + int (length (filter (\<lambda>k. visible (now E) sm k \<noteq> None) (k # keys)))))))"
      using Cons.IH [OF v, of "i8 (n + 1)"] Cons.IH [OF v, of n]
      by (auto simp: i algebra_simps split: if_splits)
  qed
qed

text \<open>\<^verbatim>\<open>EXISTS\<close> counts the given keys that are present (a key given twice counts twice), in an
  8-bit counter: the answer is right up to 127 keys and wraps around after that.\<close>

lemma exists_counts:
  assumes "ready sm" and "keys \<noteq> []" and "ToUpper (euni E) c = ''EXISTS''"
  shows "snd (Execute E c keys sm) =
    Resp (Itoa (i8 (int (length (filter (\<lambda>k. visible (now E) sm k \<noteq> None) keys)))))"
  using effectD(3) [OF exists_loop_effect [OF same_view_refl [OF assms(1)], of E keys 0]] assms(2)
  by (simp add: Execute_names(4) [OF assms(3)] existsFunc_def i8_def)

text \<open>\<^verbatim>\<open>STR.GET\<close> and \<^verbatim>\<open>NUM.GET\<close> on a key that is absent or has expired panic instead of
  answering: the handlers read the kind of a nil object.\<close>

lemma get_missing_panics:
  assumes "ready sm" and "IsValidKey k" and "visible (now E) sm k = None"
    and "ToUpper (euni E) c \<in> {''STR.GET'', ''NUM.GET''}"
  shows "snd (Execute E c [k] sm) = Crash"
  using assms effectD(3) [OF strGet_effect [OF assms(1,2), of E]]
    effectD(3) [OF numberGet_effect [OF assms(1,2), of E]]
  by (auto simp: Execute_names)

text \<open>\<^verbatim>\<open>STR.APPEND\<close> concatenates: appending twice is appending all at once, and afterwards the
  string reads as the old one with the arguments behind it, its length the sum of the lengths.\<close>

lemma append_append:
  assumes "ready sm" and "IsValidKey k" and "now E \<le> now E'" and "now E' \<le> now E''"
    and "visible (now E) sm k = Some (fresh_obj s KString) \<or> visible (now E) sm k = None \<and> s = []"
    and "ToUpper (euni E) a = ''STR.APPEND''" and "ToUpper (euni E') b = ''STR.APPEND''"
    and "ToUpper (euni E'') g = ''STR.GET''" and "ToUpper (euni E'') l = ''STR.LENGTH''"
  shows "let sm' = fst (Execute E' b (k # ws) (fst (Execute E a (k # vs) sm))) in
    visible (now E') sm' = visible (now E') (fst (Execute E a (k # vs @ ws) sm)) \<and>
    snd (Execute E'' g [k] sm') = Resp (s @ concat vs @ concat ws) \<and>
    snd (Execute E'' l [k] sm') =
      Resp (Itoa (int (length s) + (\<Sum>v\<leftarrow>vs. int (length v)) + (\<Sum>w\<leftarrow>ws. int (length w))))"
proof -
  define s1 where "s1 = fst (strAppendFunc E (k # vs) sm)"
  define s2 where "s2 = fst (strAppendFunc E' (k # ws) s1)"
  note e1 = strAppend_effect [OF assms(1,2), of E]
  have v1: "ready s1" "\<And>u. now E \<le> u \<Longrightarrow> visible u s1 = (visible u sm)(k \<mapsto> fresh_obj (s @ concat vs) KString)"
    using effectD(1) [OF e1, of vs] effectD(2) [OF e1, of _ vs] assms(5) by (auto simp: s1_def)
  note e2 = strAppend_effect [OF v1(1) assms(2), of E']
  have v2: "ready s2" "\<And>u. now E' \<le> u \<Longrightarrow>
      visible u s2 = (visible u sm)(k \<mapsto> fresh_obj (s @ concat vs @ concat ws) KString)"
    using effectD(1) [OF e2, of ws] effectD(2) [OF e2, of _ ws] v1(2) assms(3) by (auto simp: s2_def)
  have "visible (now E') (fst (strAppendFunc E (k # vs @ ws) sm)) =
      (visible (now E') sm)(k \<mapsto> fresh_obj (s @ concat vs @ concat ws) KString)"
    using effectD(2) [OF e1 assms(3), of "vs @ ws"] assms(5) by auto
  moreover have "int (length (concat xs)) = (\<Sum>x\<leftarrow>xs. int (length x))" for xs :: "string list"
    by (induction xs) auto
  moreover have "now E' \<le> now E''" by (rule assms(4))
  ultimately show ?thesis
    using effectD(3) [OF strGet_effect [OF v2(1) assms(2), of E'']]
      effectD(3) [OF strLength_effect [OF v2(1) assms(2), of E'']] v2(2)
    by (simp add: Execute_names assms(6-9) Let_def s1_def s2_def add.assoc)
qed

lemma cut_range:
  "0 \<le> b \<Longrightarrow> 0 \<le> e \<Longrightarrow>
   take (nat (min (int (length xs)) e - min (int (length xs)) b)) (drop (nat (min (int (length xs)) b)) xs)
     = drop (nat b) (take (nat e) xs)"
  by (auto simp: drop_take min_def nat_diff_distrib' not_le)

text \<open>C35.  \<^verbatim>\<open>STR.RANGE\<close> gives \<open>n\<close> characters from \<open>i\<close> on: a negative \<open>i\<close> counts from the end, a negative
  \<open>n\<close> takes the rest, and what lies outside the string is cut off.  It panics exactly when the range
  ends before the string starts, or its end overflows.  (The help text of the command speaks of a start
  and an end offset, both inclusive, and of -2 as the second-to-last character; its examples, like the
  code, take a length, and any negative one takes the rest.)\<close>

theorem getRange_spec:
  assumes "in_i64 i" and "in_i64 n" and "int (length (runes s)) < 2 ^ 63"
  shows "getRange s i n =
    (let rs = runes s; a = (if i < 0 then int (length rs) + i else i) in
     if n < 0 then Some (string_of_runes (drop (nat a) rs))
     else if a + n < 0 \<or> 2 ^ 63 \<le> a + n then None
     else Some (string_of_runes (drop (nat a) (take (nat (a + n)) rs))))"
proof -
  let ?rs = "runes s"
  define a where "a = (if i < 0 then int (length ?rs) + i else i)"
  define b where "b = (if a < 0 then 0 else a)"
  have a: "(if i < 0 then i64 (int (length ?rs) + i) else i) = a"
    using assms by (auto intro!: i64_id simp: in_i64_def a_def)
  have r: "- (2 ^ 63) \<le> a" "a < 2 ^ 63" "n < 2 ^ 63" using assms by (auto simp: in_i64_def a_def)
  have b: "0 \<le> b" "nat b = nat a" by (auto simp: b_def)
  show ?thesis
  proof (cases "n < 0")
    case True
    have "take (nat (int (length ?rs) - c)) (drop (nat c) ?rs) = drop (nat c) ?rs" for c by simp
    then show ?thesis using True a by (auto simp: getRange_def Let_def simp flip: a_def)
  next
    case False
    have w: "i64 (a + n) = (if 2 ^ 63 \<le> a + n then a + n - 2 ^ 64 else a + n)"
      using False r by (intro i64_wrap) auto
    show ?thesis
    proof (cases "a + n < 0 \<or> 2 ^ 63 \<le> a + n")
      case True
      then have "i64 (a + n) < 0" using w r by auto
      then show ?thesis using True False a by (auto simp: getRange_def Let_def simp flip: a_def)
    next
      case in_range: False
      then have e: "0 \<le> a + n" "i64 (a + n) = a + n" "b \<le> a + n"
        "a + n - b = (if a < 0 then a + n else n)" using w False by (auto simp: b_def)
      then show ?thesis
        using False in_range a b cut_range [OF b(1) e(1), of ?rs]
        by (simp add: getRange_def Let_def min_def not_le flip: a_def b_def split: if_splits)
    qed
  qed
qed

theorem getRange_spec_witness:
  "getRange ''hello'' (- 3) 2 = Some ''ll'' \<and> getRange ''hello'' (- 9) 2 = None"
proof -
  have r: "runes ''hello'' = [104, 101, 108, 108, 111]" by code_simp
  have "string_of_runes [108, 108] = ''ll''" by code_simp
  then show ?thesis
    using getRange_spec [of "- 3" 2 "''hello''", unfolded r] getRange_spec [of "- 9" 2 "''hello''", unfolded r]
    by (simp add: in_i64_def)
qed

text \<open>C29.  \<^verbatim>\<open>NUM.INCR\<close> and \<^verbatim>\<open>NUM.DECR\<close> compute on the number that was set: the decimal text stored by
  \<^verbatim>\<open>NUM.SET\<close> loses nothing of a finite number (only the sign of zero), so the answer is the rounded
  IEEE sum or difference of the two numbers, and \<^verbatim>\<open>NUM.GET\<close> answers it again.\<close>

theorem num_incr:
  assumes "ready sm" and "IsValidKey k" and "now E \<le> now E'" and "now E' \<le> now E''"
    and "ConvertToNumber v = Some x" and "fmt_json x \<noteq> None" and "x \<noteq> neg_zero"
    and "ConvertToNumber d = Some y"
    and "ToUpper (euni E) c = ''NUM.SET''"
    and "ToUpper (euni E') f = ''NUM.INCR'' \<and> z = x + y \<or> ToUpper (euni E') f = ''NUM.DECR'' \<and> z = x - y"
    and "ToUpper (euni E'') g = ''NUM.GET''"
  shows "let p = Execute E' f [k, d] (fst (Execute E c [k, v] sm)) in
    snd p = Resp (FloatToByte z) \<and> snd (Execute E'' g [k] (fst p)) = Resp (FloatToByte z)"
proof -
  define s1 where "s1 = fst (numberSetFunc E [k, v] sm)"
  note e1 = numberSet_effect [OF assms(1,2,5), of E]
  have v1: "ready s1" "visible (now E') s1 k = Some (fresh_obj (FloatToByte x) KNumber)"
    using effectD(1) [OF e1] effectD(2) [OF e1 assms(3)] by (simp_all add: s1_def)
  have x: "ConvertToNumber (FloatToByte x) = Some x"
    using ConvertToNumber_ok [OF assms(5)] assms(6,7) by (rule ConvertToNumber_FloatToByte)
  have a: "num_arg (k # [d]) = Some y" using assms(8) by (simp add: num_arg_def)
  note e2 = numberAdd_effect [OF v1(1) assms(2) a, of E']
  have g: "snd (numberGetFunc E'' [k] s) = Resp w"
    if "ready s" "visible (now E'') s k = Some (fresh_obj w KNumber)" for s w
    using effectD(3) [OF numberGet_effect [OF that(1) assms(2), of E'']] that(2) by simp
  from e2(1) e2(2) have
    "effect E' s1 (Execute E' f [k, d] s1) (\<lambda>m. m(k \<mapsto> fresh_obj (FloatToByte z) KNumber)) (Resp (FloatToByte z))"
    using assms(10) v1(2) x by (auto simp: num_new_def Execute_names)
  from effectD(1) [OF this] effectD(2) [OF this assms(4)] effectD(3) [OF this] show ?thesis
    by (auto simp: Execute_names assms(9,11) Let_def s1_def intro!: g)
qed

theorem num_incr_witness:
  "snd (Execute (env1 7) ''NUM.INCR'' [''k'', ''2''] (fst (Execute (env1 5) ''NUM.SET'' [''k'', ''1''] db1)))
   = Resp (FloatToByte (f64_of_int 1 + f64_of_int 2))"
proof -
  have c: "ConvertToNumber ''1'' = Some (f64_of_int 1)" "ConvertToNumber ''2'' = Some (f64_of_int 2)"
    by code_simp+
  have "fmt_json (f64_of_int 1) \<noteq> None" by code_simp
  moreover have "f64_of_int 1 \<noteq> neg_zero" by code_simp
  ultimately show ?thesis
    using num_incr [of db1 "''k''" "env1 5" "env1 7" "env1 7" "''1''" "f64_of_int 1" "''2''" "f64_of_int 2"
        "''NUM.SET''" "''NUM.INCR''" "f64_of_int 1 + f64_of_int 2" "''NUM.GET''"] c
    by (simp add: IsValidKey_def ToUpper_upper byte_of_def Let_def)
qed

section \<open>Expiry\<close>

text \<open>The answer of \<^verbatim>\<open>TTL\<close> on what is visible.\<close>

definition ttl_answer :: "int \<Rightarrow> object option \<Rightarrow> int" where
  "ttl_answer t st =
     (case st of
        None \<Rightarrow> - 2
      | Some ob \<Rightarrow> if Timestamp ob = 0 then - 1 else if Timestamp ob \<le> t then - 2 else i64 (Timestamp ob - t))"

lemma ttlKey_result:
  assumes "ready sm" and "IsValidKey k"
  shows "snd (ttlKey E [k] sm) = Resp (Itoa (ttl_answer (now E) (visible (now E) sm k)))"
  using assms
  by (auto simp: ttlKey_def on_shard_wf TTL_def ttl_answer_def visible_def live_def expired_def
      split: option.split prod.split)

lemma expireKey_effect:
  assumes "ready sm" and "IsValidKey k" and "ParseDurationToSeconds d = Some s"
    and "in_i64 (now E)" and "visible (now E) sm k = Some ob" and "\<not> (0 < Timestamp ob \<and> Timestamp ob \<le> now E)"
  shows "ready (fst (expireKey E [k, d] sm))" and "snd (expireKey E [k, d] sm) = Resp ''1''"
    and "stored (fst (expireKey E [k, d] sm)) =
      (stored sm)(k \<mapsto> ob\<lparr>Timestamp := expire_at (now E) s\<rparr>)"
proof -
  have wf: "sm_wf sm" using assms(1) by simp
  have st: "gm_get (mem_of sm k) k = Some ob"
    using assms(5) by (auto simp: visible_def live_def split: option.splits if_splits)
  have "expireKey E [k, d] sm =
      log_put E k (ob\<lparr>Timestamp := expire_at (now E) s\<rparr>)
        (with_mem sm k (gm_upd k (ob\<lparr>Timestamp := expire_at (now E) s\<rparr>) (mem_of sm k))) (Resp ''1'')"
    using assms(2,6) st by (auto simp: expireKey_eq [OF wf assms(4), of "[k, d]" s, simplified, OF assms(2,3)] Let_def)
  then show "ready (fst (expireKey E [k, d] sm))" "snd (expireKey E [k, d] sm) = Resp ''1''"
    "stored (fst (expireKey E [k, d] sm)) = (stored sm)(k \<mapsto> ob\<lparr>Timestamp := expire_at (now E) s\<rparr>)"
    using assms(1) wf by (simp_all add: stored_same_node fun_eq_iff)
qed

text \<open>C23.  \<^verbatim>\<open>TTL.EXPIRE\<close> gives a present key \<open>s\<close> more seconds: until then it reads as before and \<^verbatim>\<open>TTL\<close>
  counts the rest down, after it the key is gone.  At the last second the two disagree: the key
  can still be read while \<^verbatim>\<open>TTL\<close> already reports it as absent.\<close>

theorem expire_ttl:
  assumes "ready sm" and "IsValidKey k" and "ParseDurationToSeconds d = Some s" and "0 < s"
    and "0 \<le> now E" and "now E + s < 2 ^ 63" and "now E \<le> now E'"
    and "visible (now E) sm k = Some ob" and "Timestamp ob = 0 \<or> now E < Timestamp ob"
    and "ToUpper (euni E) c = ''TTL.EXPIRE''" and "ToUpper (euni E') g = ''GET''"
    and "ToUpper (euni E') t = ''TTL''"
  shows "let p = Execute E c [k, d] sm; left = now E + s - now E' in
    snd p = Resp ''1'' \<and>
    snd (Execute E' g [k] (fst p)) = Resp (if 0 \<le> left then Value ob else []) \<and>
    snd (Execute E' t [k] (fst p)) = Resp (Itoa (if 0 < left then left else - 2))"
proof -
  define s1 where "s1 = fst (expireKey E [k, d] sm)"
  have n: "in_i64 (now E)" using assms(4-6) by (simp add: in_i64_def)
  have "\<not> (0 < Timestamp ob \<and> Timestamp ob \<le> now E)" using assms(9) by auto
  note e = expireKey_effect [OF assms(1,2,3) n assms(8) this]
  have ts: "expire_at (now E) s = now E + s" using assms(4-6) by (simp add: expire_at_def i64_id in_i64_def)
  have r: "ready s1" and v: "visible (now E') s1 k =
      (if now E + s < now E' then None else Some (ob\<lparr>Timestamp := now E + s\<rparr>))"
    using e(1,3) assms(4,5) by (auto simp: s1_def visible_stored ts expired_def)
  have "i64 (now E + s - now E') = now E + s - now E'" if "now E' < now E + s"
    using that assms(4-7) by (intro i64_id) (simp add: in_i64_def)
  then have "ttl_answer (now E') (visible (now E') s1 k) = (if now E' < now E + s then now E + s - now E' else - 2)"
    using v assms(4,5) by (auto simp: ttl_answer_def)
  then show ?thesis
    using effectD(3) [OF getKey_effect [OF r assms(2), of E']] ttlKey_result [OF r assms(2), of E'] e(2) v
    by (auto simp: Execute_names assms(10-12) Let_def simp flip: s1_def)
qed

theorem expire_ttl_witness:
  "let p = Execute (env1 5) ''TTL.EXPIRE'' [''k'', ''1m''] (fst (Execute (env1 5) ''SET'' [''k'', ''v''] db1)) in
    snd (Execute (env1 65) ''GET'' [''k''] (fst p)) = Resp ''v'' \<and>
    snd (Execute (env1 65) ''TTL'' [''k''] (fst p)) = Resp (Itoa (- 2))"
proof -
  let ?sm = "fst (Execute (env1 5) ''SET'' [''k'', ''v''] db1)"
  have e: "effect (env1 5) db1 (setKey (env1 5) [''k'', ''v''] db1) (\<lambda>m. m(''k'' \<mapsto> fresh_obj ''v'' KDefault)) (Resp [])"
    by (rule setKey_effect) (simp_all add: IsValidKey_def)
  have "ready ?sm" "visible 5 ?sm ''k'' = Some (fresh_obj ''v'' KDefault)"
    using effectD(1) [OF e] effectD(2) [OF e, of 5] by (simp_all add: Execute_names ToUpper_upper byte_of_def)
  moreover have "ParseDurationToSeconds ''1m'' = Some 60" by code_simp
  ultimately show ?thesis
    using expire_ttl [of ?sm "''k''" "''1m''" 60 "env1 5" "env1 65" "fresh_obj ''v'' KDefault"
        "''TTL.EXPIRE''" "''GET''" "''TTL''"]
    by (simp add: IsValidKey_def ToUpper_upper byte_of_def Let_def)
qed

end
