(* ===== verification/Collection_Laws.thy ===== *)
theory Collection_Laws
  imports Command_Laws
begin

text \<open>
  Lists and maps as clients see them: a key of kind list holds a sequence of values, a key of kind
  map a finite map, although the store holds only their JSON text, which every command parses and
  writes again.
\<close>

section \<open>What a key holds\<close>

definition list_at :: "int \<Rightarrow> db \<Rightarrow> string \<Rightarrow> json list option" where
  "list_at t sm k =
     (case visible t sm k of
        None \<Rightarrow> None
      | Some ob \<Rightarrow> if Kind ob = KList then (case unm_arr (Value ob) of Some a \<Rightarrow> a | None \<Rightarrow> None) else None)"

definition map_at :: "int \<Rightarrow> db \<Rightarrow> string \<Rightarrow> json gomap option" where
  "map_at t sm k =
     (case visible t sm k of
        None \<Rightarrow> None
      | Some ob \<Rightarrow> if Kind ob = KMap then (case unm_map (Value ob) of Some a \<Rightarrow> a | None \<Rightarrow> None) else None)"

lemma list_at_Some:
  "list_at t sm k = Some xs \<longleftrightarrow>
     (\<exists>ob. visible t sm k = Some ob \<and> Kind ob = KList \<and> unm_arr (Value ob) = Some (Some xs))"
  by (auto simp: list_at_def split: option.splits)

lemma map_at_Some:
  "map_at t sm k = Some m \<longleftrightarrow>
     (\<exists>ob. visible t sm k = Some ob \<and> Kind ob = KMap \<and> unm_map (Value ob) = Some (Some m))"
  by (auto simp: map_at_def split: option.splits)

text \<open>An argument that can be put into a list or a map and read again.\<close>

definition fits :: "string \<Rightarrow> bool" where
  "fits w \<longleftrightarrow> valid_utf8 w \<and> jok (maxNestingDepth - 1) (EnsureUnmarshal w)"

lemma list_at_joks: "list_at t sm k = Some xs \<Longrightarrow> joks (maxNestingDepth - 1) xs"
  by (auto simp: list_at_Some dest: unm_arr_joks)

lemma map_at_jokm: "map_at t sm k = Some m \<Longrightarrow> gm_ok m \<and> jokm (maxNestingDepth - 1) m"
  by (auto simp: map_at_Some dest: unm_map_jokm)

lemma joks_append [simp]: "joks d (xs @ ys) \<longleftrightarrow> joks d xs \<and> joks d ys"
  by (auto simp: joks_iff)

lemma joks_fits: "\<forall>w \<in> set ws. fits w \<Longrightarrow> joks (maxNestingDepth - 1) (map EnsureUnmarshal ws)"
  by (auto simp: joks_iff fits_def)

lemma joks_sub: "joks d xs \<Longrightarrow> set ys \<subseteq> set xs \<Longrightarrow> joks d ys"
  by (auto simp: joks_iff)

lemma list_at_stored:
  "visible t sm k = Some (fresh_obj (SliceToByte (Some xs)) KList) \<Longrightarrow> joks (maxNestingDepth - 1) xs \<Longrightarrow>
   list_at t sm k = Some xs"
  by (simp add: list_at_Some unm_SliceToByte)

lemma map_at_stored:
  "visible t sm k = Some (fresh_obj (MapToByte (Some m)) KMap) \<Longrightarrow> gm_ok m \<Longrightarrow>
   jokm (maxNestingDepth - 1) m \<Longrightarrow> map_at t sm k = Some m"
  by (simp add: map_at_Some unm_MapToByte)

lemma map_at_earlier: "map_at t sm k = Some m \<Longrightarrow> s \<le> t \<Longrightarrow> map_at s sm k = Some m"
  by (auto simp: map_at_Some visible_def dest: live_mono)

section \<open>Lists\<close>

lemma Execute_lists:
  "ToUpper (euni E) c = ''LIST.SET'' \<Longrightarrow> Execute E c args sm = listSetFunc E args sm"
  "ToUpper (euni E) c = ''LIST.PUSH'' \<Longrightarrow> Execute E c args sm = listPushFunc E args sm"
  "ToUpper (euni E) c = ''LIST.POP'' \<Longrightarrow> Execute E c args sm = listPopFunc E args sm"
  "ToUpper (euni E) c = ''LIST.GPOP'' \<Longrightarrow> Execute E c args sm = listGPopFunc E args sm"
  "ToUpper (euni E) c = ''LIST.ISET'' \<Longrightarrow> Execute E c args sm = listISetFunc E args sm"
  "ToUpper (euni E) c = ''LIST.GET'' \<Longrightarrow> Execute E c args sm = listGetFunc E args sm"
  "ToUpper (euni E) c = ''LIST.LEN'' \<Longrightarrow> Execute E c args sm = listLenFunc E args sm"
  "ToUpper (euni E) c = ''LIST.FIND'' \<Longrightarrow> Execute E c args sm = listFilterFunc E args sm"
  by (simp_all add: Execute_def ExecCommands_def)

lemma listPush_effect:
  assumes "ready sm" and "IsValidKey k" and "ws \<noteq> []"
    and "visible (now E) sm k = None \<and> xs = [] \<or> list_at (now E) sm k = Some xs"
  shows "effect E sm (listPushFunc E (k # ws) sm)
    (\<lambda>m. m(k \<mapsto> fresh_obj (SliceToByte (Some (xs @ map EnsureUnmarshal ws))) KList))
    (Resp (Itoa (int (length (xs @ map EnsureUnmarshal ws)))))"
  using assms
  by (auto simp: listPushFunc_def Let_def append_args_def elems_def list_at_Some same_view_refl
      intro!: effects)

lemma listPop_effect:
  assumes "ready sm" and "IsValidKey k" and "list_at (now E) sm k = Some xs"
  shows "effect E sm (listPopFunc E [k] sm)
    (if xs = [] then (\<lambda>m. m)
     else if length xs = 1 then (\<lambda>m. m(k := None))
     else if last xs = JNull then (\<lambda>m. m)
     else (\<lambda>m. m(k \<mapsto> fresh_obj (SliceToByte (Some (butlast xs))) KList)))
    (if xs = [] then Resp [] else if last xs = JNull then Resp [] else Resp (ObjectToByte (last xs)))"
proof -
  have l: "xs ! (length xs - 1) = last xs" "take (length xs - 1) xs = butlast xs" if "xs \<noteq> []"
    using that by (simp_all add: last_conv_nth butlast_conv_take)
  show ?thesis
  proof (cases "xs = []")
    case True
    then show ?thesis
      using assms by (auto simp: listPopFunc_def Let_def elems_def list_at_Some same_view_refl intro!: effects)
  next
    case False
    have "xs ! 0 = last xs" if "length xs = 1" using l(1) [OF False] that by simp
    then show ?thesis
      using assms l [OF False] False
      by (auto simp: listPopFunc_def Let_def elems_def list_at_Some same_view_refl ObjectToByte_def
          intro!: effects)
  qed
qed

lemma listGet_effect:
  assumes "ready sm" and "IsValidKey k" and "list_at (now E) sm k = Some xs" and "ParseInt s = Some i"
  shows "effect E sm (listGetFunc E [k, s] sm) (\<lambda>m. m)
    (if i < 0 then Fail badIndex else if int (length xs) \<le> i then Fail outOfRange
     else Resp (ObjectToByte (xs ! nat i)))"
  using assms
  by (auto simp: listGetFunc_def Let_def elems_def list_at_Some same_view_refl intro!: effects)

lemma listLen_effect:
  assumes "ready sm" and "IsValidKey k" and "list_at (now E) sm k = Some xs"
  shows "effect E sm (listLenFunc E [k] sm) (\<lambda>m. m) (Resp (Itoa (int (length xs))))"
  using assms
  by (auto simp: listLenFunc_def Let_def elems_def list_at_Some same_view_refl intro!: effects)

lemma listISet_effect:
  assumes "ready sm" and "IsValidKey k" and "list_at (now E) sm k = Some xs" and "ParseInt s = Some i" and "0 \<le> i"
  shows "effect E sm (listISetFunc E [k, s, v] sm)
    (if int (length xs) \<le> i then (\<lambda>m. m)
     else (\<lambda>m. m(k \<mapsto> fresh_obj (SliceToByte (Some (xs[nat i := EnsureUnmarshal v]))) KList)))
    (if int (length xs) \<le> i then Fail outOfRange else Resp [])"
  using assms
  by (auto simp: listISetFunc_def Let_def elems_def list_at_Some same_view_refl intro!: effects)

text \<open>The list after a push; a missing key counts as the empty list.\<close>

lemma listPush_list:
  assumes "ready sm" and "IsValidKey k" and "ws \<noteq> []" and "\<forall>w \<in> set ws. fits w"
    and "visible (now E) sm k = None \<and> xs = [] \<or> list_at (now E) sm k = Some xs"
  shows "ready (fst (listPushFunc E (k # ws) sm))"
    and "now E \<le> u \<Longrightarrow> list_at u (fst (listPushFunc E (k # ws) sm)) k = Some (xs @ map EnsureUnmarshal ws)"
proof -
  note e = listPush_effect [OF assms(1,2,3,5)]
  show "ready (fst (listPushFunc E (k # ws) sm))" using effectD(1) [OF e] .
  have "joks (maxNestingDepth - 1) (xs @ map EnsureUnmarshal ws)"
    using assms(5) list_at_joks joks_fits [OF assms(4)] by auto
  then show "list_at u (fst (listPushFunc E (k # ws) sm)) k = Some (xs @ map EnsureUnmarshal ws)" if "now E \<le> u"
    using effectD(2) [OF e that] by (intro list_at_stored) simp_all
qed

lemma ParseInt_Itoa: "in_i64 i \<Longrightarrow> ParseInt (Itoa i) = Some i"
  by (simp add: ParseInt_def ParseInt64_Itoa)

text \<open>C24.  \<^verbatim>\<open>LIST.PUSH\<close> appends its arguments, read as JSON where they are JSON, at the end of the
  list (a new one when the key is absent) and answers the new length; \<^verbatim>\<open>LIST.GET\<close> then reads every
  element back by its index, as the text of its value, \<^verbatim>\<open>LIST.LEN\<close> the length, and an index past the
  end is an error.  The help text of the command says that values are inserted at the beginning of the
  list; its example, like the code, appends them.\<close>

theorem list_push_get:
  assumes "ready sm" and "IsValidKey k" and "ws \<noteq> []" and "\<forall>w \<in> set ws. fits w"
    and "visible (now E) sm k = None \<and> xs = [] \<or> list_at (now E) sm k = Some xs"
    and "now E \<le> now E'" and "0 \<le> i" and "i < 2 ^ 63"
    and "ToUpper (euni E) c = ''LIST.PUSH''" and "ToUpper (euni E') g = ''LIST.GET''"
    and "ToUpper (euni E') l = ''LIST.LEN''"
  shows "let p = Execute E c (k # ws) sm; ys = xs @ map EnsureUnmarshal ws in
    snd p = Resp (Itoa (int (length ys))) \<and>
    snd (Execute E' l [k] (fst p)) = Resp (Itoa (int (length ys))) \<and>
    snd (Execute E' g [k, Itoa i] (fst p)) =
      (if i < int (length ys) then Resp (ObjectToByte (ys ! nat i)) else Fail outOfRange)"
proof -
  let ?s = "fst (listPushFunc E (k # ws) sm)" and ?ys = "xs @ map EnsureUnmarshal ws"
  note r = listPush_list [OF assms(1-5)]
  have l: "list_at (now E') ?s k = Some ?ys" by (rule r(2) [OF assms(6)])
  have "ParseInt (Itoa i) = Some i" using assms(7,8) by (simp add: ParseInt_Itoa in_i64_def)
  from effectD(3) [OF listGet_effect [OF r(1) assms(2) l this]] effectD(3) [OF listLen_effect [OF r(1) assms(2) l]]
  show ?thesis
    using effectD(3) [OF listPush_effect [OF assms(1,2,3,5)]] assms(7) by (simp add: Execute_lists assms(9-11) Let_def)
qed

lemma fits_plain: "unm_any w = None \<Longrightarrow> valid_utf8 w \<Longrightarrow> fits w"
  by (simp add: fits_def EnsureUnmarshal_def)

theorem list_push_get_witness:
  "snd (Execute (env1 9) ''LIST.GET'' [''k'', Itoa 1] (fst (Execute (env1 5) ''LIST.PUSH'' [''k'', ''a'', ''b''] db1)))
   = Resp (ObjectToByte (JStr ''b''))"
proof -
  have "fits ''a''" "fits ''b''" by (rule fits_plain; code_simp)+
  moreover have "EnsureUnmarshal ''b'' = JStr ''b''" by code_simp
  ultimately show ?thesis
    using list_push_get [of db1 "''k''" "[''a'', ''b'']" "env1 5" "[]" "env1 9" 1 "''LIST.PUSH''" "''LIST.GET''" "''LIST.LEN''"]
    by (simp add: IsValidKey_def ToUpper_upper byte_of_def Let_def)
qed

text \<open>\<^verbatim>\<open>LIST.POP\<close> undoes \<^verbatim>\<open>LIST.PUSH\<close>: it answers the value pushed last and leaves the list as it
  was before the push; the key disappears with its last element.  (A pushed null is the
  exception: \<open>pop_null\<close>.)\<close>

lemma push_pop:
  assumes "ready sm" and "IsValidKey k" and "fits w" and "EnsureUnmarshal w \<noteq> JNull"
    and "visible (now E) sm k = None \<and> xs = [] \<or> list_at (now E) sm k = Some xs"
    and "now E \<le> now E'" and "now E' \<le> u"
    and "ToUpper (euni E) c = ''LIST.PUSH''" and "ToUpper (euni E') d = ''LIST.POP''"
  shows "let p = Execute E' d [k] (fst (Execute E c [k, w] sm)) in
    snd p = Resp (ObjectToByte (EnsureUnmarshal w)) \<and>
    (if xs = [] then visible u (fst p) k = None else list_at u (fst p) k = Some xs)"
proof -
  let ?s = "fst (listPushFunc E [k, w] sm)"
  have f: "\<forall>w \<in> set [w]. fits w" using assms(3) by simp
  note r = listPush_list [OF assms(1,2) _ f assms(5), simplified]
  have l: "list_at (now E') ?s k = Some (xs @ [EnsureUnmarshal w])" by (rule r(2) [OF assms(6)])
  note e = listPop_effect [OF r(1) assms(2) l]
  have "joks (maxNestingDepth - 1) xs" if "xs \<noteq> []" using that assms(5) list_at_joks by auto
  then show ?thesis
    using effectD(2) [OF e assms(7)] effectD(3) [OF e] assms(4)
    by (auto simp: Execute_lists assms(8,9) Let_def intro!: list_at_stored)
qed

text \<open>A list of at least two elements that ends in null is stuck: \<^verbatim>\<open>LIST.POP\<close> answers nothing
  and takes nothing, whatever comes before the null.\<close>

lemma pop_null:
  assumes "ready sm" and "IsValidKey k" and "list_at (now E) sm k = Some (x # xs @ [JNull])"
    and "now E \<le> u" and "ToUpper (euni E) d = ''LIST.POP''"
  shows "snd (Execute E d [k] sm) = Resp [] \<and> visible u (fst (Execute E d [k] sm)) = visible u sm"
  using effectD(2) [OF listPop_effect [OF assms(1-3)] assms(4)] effectD(3) [OF listPop_effect [OF assms(1-3)]]
  by (simp add: Execute_lists assms(5))

text \<open>\<^verbatim>\<open>LIST.ISET\<close> replaces exactly the element at its index: reading index \<open>j\<close> afterwards gives
  the new value at \<open>i\<close> and what was there before elsewhere; an index past the end is an error that
  changes nothing.\<close>

lemma iset_get:
  assumes "ready sm" and "IsValidKey k" and "list_at (now E) sm k = Some xs" and "fits v"
    and "0 \<le> i" and "i < 2 ^ 63" and "0 \<le> j" and "j < 2 ^ 63" and "now E \<le> now E'"
    and "ToUpper (euni E) c = ''LIST.ISET''" and "ToUpper (euni E') g = ''LIST.GET''"
  shows "let p = Execute E c [k, Itoa i, v] sm in
    (if int (length xs) \<le> i then snd p = Fail outOfRange \<and> visible (now E') (fst p) = visible (now E') sm
     else snd p = Resp [] \<and>
       snd (Execute E' g [k, Itoa j] (fst p)) =
         (if int (length xs) \<le> j then Fail outOfRange
          else Resp (ObjectToByte (if j = i then EnsureUnmarshal v else xs ! nat j))))"
proof -
  have p: "ParseInt (Itoa i) = Some i" "ParseInt (Itoa j) = Some j"
    using assms(5-8) by (simp_all add: ParseInt_Itoa in_i64_def)
  note e = listISet_effect [OF assms(1,2,3) p(1) assms(5), of v]
  let ?s = "fst (listISetFunc E [k, Itoa i, v] sm)" and ?ys = "xs[nat i := EnsureUnmarshal v]"
  show ?thesis
  proof (cases "int (length xs) \<le> i")
    case True
    then show ?thesis
      using effectD(2) [OF e assms(9)] effectD(3) [OF e] by (simp add: Execute_lists assms(10,11) Let_def)
  next
    case False
    have "joks (maxNestingDepth - 1) ?ys"
      using list_at_joks [OF assms(3)] assms(4) set_update_subset_insert [of xs "nat i" "EnsureUnmarshal v"]
      by (auto simp: joks_iff fits_def)
    then have l: "list_at (now E') ?s k = Some ?ys"
      using effectD(2) [OF e assms(9)] False by (intro list_at_stored) simp_all
    from effectD(3) [OF listGet_effect [OF effectD(1) [OF e] assms(2) l p(2)]] effectD(3) [OF e]
    show ?thesis using False assms(5,7) by (auto simp: Execute_lists assms(10,11) Let_def)
  qed
qed

section \<open>Maps\<close>

lemma Execute_maps:
  "ToUpper (euni E) c = ''MAP.SET'' \<Longrightarrow> Execute E c args sm = mapSetKey E args sm"
  "ToUpper (euni E) c = ''MAP.CSET'' \<Longrightarrow> Execute E c args sm = mapCSetKey E args sm"
  "ToUpper (euni E) c = ''MAP.DEL'' \<Longrightarrow> Execute E c args sm = mapDeleteKey E args sm"
  "ToUpper (euni E) c = ''MAP.GET'' \<Longrightarrow> Execute E c args sm = mapGetKey E args sm"
  by (simp_all add: Execute_def ExecCommands_def)

lemma mapSet_effect:
  assumes "ready sm" and "IsValidKey k" and "f \<noteq> []"
    and "visible (now E) sm k = None \<and> m = [] \<or> map_at (now E) sm k = Some m"
  shows "effect E sm (mapSetKey E [k, f, v] sm)
    (\<lambda>s. s(k \<mapsto> fresh_obj (MapToByte (Some (gm_upd f (EnsureUnmarshal v) m))) KMap)) (Resp [])"
  using assms
  by (auto simp: mapSetKey_def Let_def IsValidString_def map_at_Some same_view_refl intro!: effects)

lemma mapGet_effect:
  assumes "ready sm" and "IsValidKey k" and "f \<noteq> []" and "map_at (now E) sm k = Some m"
  shows "effect E sm (mapGetKey E [k, f] sm) (\<lambda>s. s)
    (Resp (case gm_get m f of None \<Rightarrow> [] | Some v \<Rightarrow> (case enc v of Some d \<Rightarrow> d | None \<Rightarrow> [])))"
  using assms
  by (auto simp: mapGetKey_def Let_def IsValidString_def map_at_Some map_lookup_def same_view_refl
      intro!: effects split: option.split)

lemma map_set_map:
  assumes "ready sm" and "IsValidKey k" and "f \<noteq> []" and "valid_utf8 f" and "fits v"
    and "visible (now E) sm k = None \<and> m = [] \<or> map_at (now E) sm k = Some m"
  shows "ready (fst (mapSetKey E [k, f, v] sm))"
    and "now E \<le> u \<Longrightarrow> map_at u (fst (mapSetKey E [k, f, v] sm)) k = Some (gm_upd f (EnsureUnmarshal v) m)"
proof -
  note e = mapSet_effect [OF assms(1-3,6), of v]
  show "ready (fst (mapSetKey E [k, f, v] sm))" using effectD(1) [OF e] .
  have m: "gm_ok m" "jokm (maxNestingDepth - 1) m" using assms(6) map_at_jokm by auto
  have "jokm (maxNestingDepth - 1) (gm_upd f (EnsureUnmarshal v) m)"
    using m(2) assms(4,5) set_gm_upd [of f "EnsureUnmarshal v" m] unfolding jokm_iff fits_def by (fastforce split: prod.splits)
  then show "map_at u (fst (mapSetKey E [k, f, v] sm)) k = Some (gm_upd f (EnsureUnmarshal v) m)" if "now E \<le> u"
    using effectD(2) [OF e that] m(1) by (intro map_at_stored) simp_all
qed

text \<open>C25.  \<^verbatim>\<open>MAP.SET\<close> binds one field and leaves the others: \<^verbatim>\<open>MAP.GET\<close> answers the JSON text of the value
  for that field and what it answered before for every other one.\<close>

theorem map_set_get:
  assumes "ready sm" and "IsValidKey k" and "f \<noteq> []" and "g \<noteq> []" and "valid_utf8 f" and "fits v"
    and "map_at (now E') sm k = Some m" and "now E \<le> now E'"
    and "ToUpper (euni E) c = ''MAP.SET''" and "ToUpper (euni E') d = ''MAP.GET''"
  shows "snd (Execute E' d [k, g] (fst (Execute E c [k, f, v] sm))) =
    (if g = f then Resp (the (enc (EnsureUnmarshal v))) else snd (Execute E' d [k, g] sm))"
proof -
  have m: "visible (now E) sm k = None \<and> m = [] \<or> map_at (now E) sm k = Some m" using map_at_earlier [OF assms(7,8)] by simp
  note r = map_set_map [OF assms(1,2,3,5,6) m]
  have "enc (EnsureUnmarshal v) \<noteq> None" using assms(6) jok_enc(1) by (auto simp: fits_def)
  then show ?thesis
    using effectD(3) [OF mapGet_effect [OF r(1) assms(2,4) r(2) [OF assms(8)]]]
      effectD(3) [OF mapGet_effect [OF assms(1,2,4,7)]]
    by (auto simp: Execute_maps assms(9,10))
qed

theorem map_set_get_witness:
  "snd (Execute (env1 9) ''MAP.GET'' [''k'', ''f''] (fst (Execute (env1 7) ''MAP.SET'' [''k'', ''g'', ''b'']
     (fst (Execute (env1 5) ''MAP.SET'' [''k'', ''f'', ''a''] db1)))))
   = snd (Execute (env1 9) ''MAP.GET'' [''k'', ''f''] (fst (Execute (env1 5) ''MAP.SET'' [''k'', ''f'', ''a''] db1)))"
proof -
  let ?sm = "fst (Execute (env1 5) ''MAP.SET'' [''k'', ''f'', ''a''] db1)"
  have f: "fits ''a''" "fits ''b''" by (rule fits_plain; code_simp)+
  have u: "valid_utf8 ''f''" "valid_utf8 ''g''" by code_simp+
  from map_set_map [OF db1_ready(1) _ _ u(1) f(1), of "''k''" "env1 5" "[]"]
  have "ready ?sm" "map_at 9 ?sm ''k'' = Some (gm_upd ''f'' (EnsureUnmarshal ''a'') [])"
    by (simp_all add: IsValidKey_def Execute_maps ToUpper_upper byte_of_def)
  then show ?thesis
    using map_set_get [where sm = ?sm and k = "''k''" and f = "''g''" and g = "''f''" and v = "''b''" and
        E = "env1 7" and E' = "env1 9" and c = "''MAP.SET''" and d = "''MAP.GET''"] f u
    by (simp add: IsValidKey_def ToUpper_upper byte_of_def)
qed

lemma MapToByte_del: "jokm d m \<Longrightarrow> jokm d (gm_del f m)"
  unfolding jokm_iff gm_del_filter by auto

lemma mapDel_visible:
  assumes "ready sm" and "IsValidKey k" and "f \<noteq> []" and "visible (now E) sm k = Some ob" and "Kind ob = KMap"
    and "unm_map (Value ob) = Some (Some m)" and "now E \<le> u"
  shows "ready (fst (mapDeleteKey E [k, f] sm)) \<and> snd (mapDeleteKey E [k, f] sm) = Resp [] \<and>
    visible u (fst (mapDeleteKey E [k, f] sm)) =
      (visible u sm)(k := if length m = 1 then None
        else if expired u ob then None else Some (ob\<lparr>Value := MapToByte (Some (gm_del f m))\<rparr>))"
proof -
  let ?s = "fetched E sm k"
  note f = fetch_eq [OF ready_wf [OF assms(1)], of E k] fetched(1) [OF assms(1), of E k]
    fetched(3) [OF assms(1,7), of k]
  show ?thesis
  proof (cases "length m = 1")
    case True
    then have "mapDeleteKey E [k, f] sm = erase E ?s k (Resp [])"
      using assms f(1) by (simp add: mapDeleteKey_def Let_def IsValidString_def)
    then show ?thesis using True f(2) f(3) by (simp add: erase_vis)
  next
    case False
    let ?ob = "ob\<lparr>Value := MapToByte (Some (gm_del f m))\<rparr>"
    have "mapDeleteKey E [k, f] sm = log_put E k ?ob (with_mem ?s k (gm_upd k ?ob (mem_of ?s k))) (Resp [])"
      using assms f(1,2) False by (simp add: mapDeleteKey_def Let_def IsValidString_def on_shard_wf)
    moreover have "visible u (with_mem ?s k (gm_upd k ?ob (mem_of ?s k))) =
        (visible u ?s)(k := if expired u ?ob then None else Some ?ob)"
      using f(2) visible_with_mem [OF ready_wf [OF f(2)]] by (simp add: live_upd)
    ultimately show ?thesis using False f(2) f(3) by (simp add: expired_def)
  qed
qed

text \<open>C33.  \<^verbatim>\<open>MAP.DEL\<close> with a field removes that field from a map of two fields or more, and keeps the
  rest and its expiration time.  On a map of one field it removes the whole key, even when the
  field it was given is another one.\<close>

theorem map_del:
  assumes "ready sm" and "IsValidKey k" and "f \<noteq> []" and "map_at u sm k = Some m" and "now E \<le> u"
    and "ToUpper (euni E) c = ''MAP.DEL''"
  shows "let p = Execute E c [k, f] sm in snd p = Resp [] \<and>
    (if length m = 1 then visible u (fst p) k = None else map_at u (fst p) k = Some (gm_del f m))"
proof -
  obtain ob where ob: "visible u sm k = Some ob" "Kind ob = KMap" "unm_map (Value ob) = Some (Some m)"
    using assms(4) by (auto simp: map_at_Some)
  then have n: "visible (now E) sm k = Some ob" "\<not> expired u ob"
    using assms(5) live_mono by (auto simp: visible_def live_def split: option.splits if_splits)
  have "gm_ok m" "jokm (maxNestingDepth - 1) m" using map_at_jokm [OF assms(4)] by simp_all
  then have "unm_map (MapToByte (Some (gm_del f m))) = Some (Some (gm_del f m))"
    by (simp add: unm_MapToByte MapToByte_del)
  then show ?thesis
    using mapDel_visible [OF assms(1-3) n(1) ob(2,3) assms(5)] n(2) ob(2)
    by (simp add: Execute_maps assms(6) Let_def map_at_Some)
qed

theorem map_del_witness:
  "visible 9 (fst (Execute (env1 9) ''MAP.DEL'' [''k'', ''g'']
     (fst (Execute (env1 5) ''MAP.SET'' [''k'', ''f'', ''a''] db1)))) ''k'' = None"
proof -
  let ?sm = "fst (Execute (env1 5) ''MAP.SET'' [''k'', ''f'', ''a''] db1)"
  have f: "fits ''a''" "valid_utf8 ''f''" by (rule fits_plain; code_simp) code_simp
  from map_set_map [OF db1_ready(1) _ _ f(2,1), of "''k''" "env1 5" "[]"]
  have "ready ?sm" "map_at 9 ?sm ''k'' = Some [(''f'', EnsureUnmarshal ''a'')]"
    by (simp_all add: IsValidKey_def Execute_maps ToUpper_upper byte_of_def)
  then show ?thesis
    using map_del [where sm = ?sm and k = "''k''" and f = "''g''" and u = 9 and E = "env1 9" and c = "''MAP.DEL''"]
    by (simp add: IsValidKey_def ToUpper_upper byte_of_def Let_def)
qed

section \<open>Searching a list\<close>

text \<open>A text without the characters of the operators.\<close>

definition avoids :: "string \<Rightarrow> string \<Rightarrow> bool" where
  "avoids cs s \<longleftrightarrow> list_all (\<lambda>c. c \<notin> set cs) s"

lemma Index_absent: "x \<in> set p \<Longrightarrow> x \<notin> set s \<Longrightarrow> Index s p = None"
proof (induction s)
  case (Cons c s)
  have "\<not> HasPrefix (c # s) p" using Cons.prems by (metis HasPrefix_def set_take_subset subsetD)
  with Cons show ?case by simp
qed auto

lemma Index_first: "p \<noteq> [] \<Longrightarrow> hd p \<notin> set s \<Longrightarrow> Index (s @ p @ t) p = Some (length s)"
proof (induction s)
  case Nil
  then show ?case by (cases p) (simp_all add: HasPrefix_def)
next
  case (Cons c s)
  then show ?case by (auto simp: HasPrefix_def neq_Nil_conv)
qed

lemma ParsePath_field:
  assumes "avoids ''<>:!'' fld" and "avoids ''<>:'' v"
  shows "ParsePath (''$'' @ fld @ '':'' @ v) = (fld, '':'', v)" and "ParsePath (''$'' @ fld @ ''!'' @ v) = (fld, ''!'', v)"
proof -
  have n: "c \<notin> set fld" if "c \<in> set ''<>:!''" for c using assms(1) that by (auto simp: avoids_def list_all_iff)
  have m: "c \<notin> set v" if "c \<in> set ''<>:''" for c using assms(2) that by (auto simp: avoids_def list_all_iff)
  have gone: "Index (fld @ [c] @ v) p = None" if "c' \<in> set p" "c' \<in> set ''<>:''" "c' \<noteq> c" for c c' p
    using that n m by (intro Index_absent [of c']) auto
  have here: "Index (fld @ [c] @ v) [c] = Some (length fld)" if "c \<in> set '':!''" for c
    using that n Index_first [of "[c]" fld v] by auto
  have "path_index path_ops (fld @ '':'' @ v) = (fld, '':'', v)"
    unfolding path_ops_def
    using gone [of "CHR ''<''" _ "CHR '':''"] gone [of "CHR ''>''" _ "CHR '':''"] here [of "CHR '':''"] by simp
  then show "ParsePath (''$'' @ fld @ '':'' @ v) = (fld, '':'', v)" by (simp add: ParsePath_def HasPrefix_def)
  have "path_index path_ops (fld @ ''!'' @ v) = (fld, ''!'', v)"
    unfolding path_ops_def
    using gone [of "CHR ''<''" _ "CHR ''!''"] gone [of "CHR ''>''" _ "CHR ''!''"] gone [of "CHR '':''" _ "CHR ''!''"]
      here [of "CHR ''!''"] by simp
  then show "ParsePath (''$'' @ fld @ ''!'' @ v) = (fld, ''!'', v)" by (simp add: ParsePath_def HasPrefix_def)
qed

lemma listFind_effect:
  assumes "ready sm" and "IsValidKey k" and "list_at (now E) sm k = Some xs" and "xs \<noteq> []"
  shows "effect E sm (listFilterFunc E [k, path] sm) (\<lambda>m. m) (Resp (SliceToByte (Filter (euni E) xs path)))"
  using assms
  by (auto simp: listFilterFunc_def Let_def elems_def list_at_Some same_view_refl intro!: effects)

text \<open>C34.  \<^verbatim>\<open>LIST.FIND\<close> with \<open>$field:value\<close> and with \<open>$field!value\<close> split the elements in two: the two
  answers list, in their order, elements of the list; no element is in both, and together they are
  all the elements in which the field can be read.  The field must have none of the characters
  \<open>< > : !\<close> and the value none of \<open>< > :\<close>, since the code looks for its operators anywhere in the query and
  in an order of its own (\<open>misread_operator\<close>).\<close>

theorem find_partition:
  assumes "ready sm" and "IsValidKey k" and "list_at (now E) sm k = Some xs" and "xs \<noteq> []"
    and "avoids ''<>:!'' fld" and "avoids ''<>:'' v" and "fld \<noteq> []" and "ToUpper (euni E) c = ''LIST.FIND''"
  shows "let readable = (\<lambda>x. as_map x \<noteq> None \<and> getNestedValue x fld \<noteq> None);
      hit = (\<lambda>x. valueEqual (the (getNestedValue x fld)) v);
      answer = (\<lambda>ys. Resp (SliceToByte (if ys = [] then None else Some ys))) in
    snd (Execute E c [k, ''$'' @ fld @ '':'' @ v] sm) = answer (filter (\<lambda>x. readable x \<and> hit x) xs) \<and>
    snd (Execute E c [k, ''$'' @ fld @ ''!'' @ v] sm) = answer (filter (\<lambda>x. readable x \<and> \<not> hit x) xs)"
proof -
  let ?P = "\<lambda>x. valueEqual (the (getNestedValue x fld)) v"
  let ?r = "\<lambda>x. as_map x \<noteq> None \<and> getNestedValue x fld \<noteq> None"
  have "keeps (euni E) (fld, '':'', v) = (\<lambda>x. ?r x \<and> ?P x)" "keeps (euni E) (fld, ''!'', v) = (\<lambda>x. ?r x \<and> \<not> ?P x)"
    using assms(7) by (auto simp: keeps_def match_def fun_eq_iff split: option.split)
  then have "Filter (euni E) xs (''$'' @ fld @ '':'' @ v) =
      (let ys = filter (\<lambda>x. ?r x \<and> ?P x) xs in if ys = [] then None else Some ys)"
    "Filter (euni E) xs (''$'' @ fld @ ''!'' @ v) =
      (let ys = filter (\<lambda>x. ?r x \<and> \<not> ?P x) xs in if ys = [] then None else Some ys)"
    by (simp_all only: Filter_def Let_def ParsePath_field [OF assms(5,6)])
  with effectD(3) [OF listFind_effect [OF assms(1-4)]] show ?thesis
    unfolding Let_def Execute_lists(8) [OF assms(8)] by simp
qed

lemma misread_operator: "ParsePath ''$a:x>1'' = (''a:x'', ''>'', ''1'')" "ParsePath ''$a!x:1'' = (''a!x'', '':'', ''1'')"
  by code_simp+

text \<open>A list of an object, a string and another object, searched for the field \<open>a\<close>.\<close>

definition doc2 :: string where
  "doc2 = [CHR ''{'', CHR 0x22, CHR ''a'', CHR 0x22, CHR '':'', CHR 0x22, CHR ''y'', CHR 0x22, CHR ''}'']"

definition doc3 :: string where
  "doc3 = [CHR ''{'', CHR 0x22, CHR ''a'', CHR 0x22, CHR '':'', CHR 0x22, CHR ''z'', CHR 0x22, CHR ''}'']"

theorem find_partition_witness:
  "let sm = fst (Execute (env1 5) ''LIST.PUSH'' [''k'', doc2, ''x'', doc3] db1) in
   snd (Execute (env1 9) ''LIST.FIND'' [''k'', ''$a:y''] sm) = Resp (SliceToByte (Some [JObj [(''a'', JStr ''y'')]])) \<and>
   snd (Execute (env1 9) ''LIST.FIND'' [''k'', ''$a!y''] sm) = Resp (SliceToByte (Some [JObj [(''a'', JStr ''z'')]]))"
proof -
  let ?sm = "fst (Execute (env1 5) ''LIST.PUSH'' [''k'', doc2, ''x'', doc3] db1)"
  let ?y = "JObj [(''a'', JStr ''y'')]" and ?z = "JObj [(''a'', JStr ''z'')]"
  have f: "fits ''x''" "fits doc2" "fits doc3" by (rule fits_plain, code_simp, code_simp) code_simp+
  have e: "EnsureUnmarshal ''x'' = JStr ''x''" "EnsureUnmarshal doc2 = ?y" "EnsureUnmarshal doc3 = ?z" by code_simp+
  from listPush_list [OF db1_ready(1), of "''k''" "[doc2, ''x'', doc3]" "env1 5" "[]"] f
  have s: "ready ?sm" "list_at (now (env1 9)) ?sm ''k'' = Some [?y, JStr ''x'', ?z]"
    by (simp_all add: e IsValidKey_def Execute_lists ToUpper_upper byte_of_def)
  have p: "avoids ''<>:!'' ''a''" "avoids ''<>:'' ''y''" by code_simp+
  have g: "getNestedValue ?y ''a'' = Some ''y''" "getNestedValue ?z ''a'' = Some ''z''"
    "as_map ?y \<noteq> None" "as_map (JStr ''x'') = None" "as_map ?z \<noteq> None" "valueEqual ''y'' ''y''" "\<not> valueEqual ''z'' ''y''"
    by code_simp+
  have "IsValidKey ''k''" "ToUpper (euni (env1 9)) ''LIST.FIND'' = ''LIST.FIND''"
    by (simp_all add: IsValidKey_def ToUpper_upper byte_of_def)
  from find_partition [OF s(1) this(1) s(2) _ p _ this(2)] show ?thesis
    by (simp add: Let_def g)
qed

end
