(* ===== verification/Restart.thy ===== *)
theory Restart
  imports Recovery Collection_Laws
begin

text \<open>
  What a client sees after a restart: every object that was still visible comes back unchanged
  (\<open>restart_restores\<close>), and so, for ever, does one whose time ran out before the restart
  (\<open>expired_resurrected\<close>).
\<close>

section \<open>An example\<close>

text \<open>A key is set and given a minute to live; the log holds both entries.\<close>

definition entry_set :: walEntry where
  "entry_set = \<lparr>Op = UPDATE, EKey = ''k'', EObject = Some \<lparr>Value = ''v'', Kind = KDefault, Timestamp = 0\<rparr>\<rparr>"

definition entry_expire :: walEntry where
  "entry_expire = \<lparr>Op = UPDATE, EKey = ''k'', EObject = Some \<lparr>Value = ''v'', Kind = KDefault, Timestamp = 65\<rparr>\<rparr>"

definition P3 :: proto where
  "P3 = table_proto [entry_set, entry_expire]"

definition env3 :: env where
  "env3 = (env1 5)\<lparr>eproto := P3\<rparr>"

definition run3 :: "event list" where
  "run3 = [Request env3 ''SET'' [''k'', ''v''], Request env3 ''TTL.EXPIRE'' [''k'', ''1m'']]"

text \<open>Space for \<open>n\<close> more entries in every channel, and only entries of \<open>S\<close> in it.\<close>

definition quiet :: "walEntry set \<Rightarrow> int \<Rightarrow> walSystem \<Rightarrow> bool" where
  "quiet S n w \<longleftrightarrow> \<not> wclosed w \<and> (\<forall>i sh. map_of (wshards w) i = Some sh \<longrightarrow>
     \<not> sclosed sh \<and> int (length (ch sh)) + n < WriteChanSize (opts sh) \<and> set (ch sh) \<subseteq> S)"

lemma quiet_room: "quiet S n w \<Longrightarrow> 0 \<le> n \<Longrightarrow> room w"
  by (fastforce simp: quiet_def room_def)

lemma P3_ok: "proto_ok P3"
  by (simp add: P3_def proto_ok_table)

lemma P3_entries: "Marshal P3 entry_set \<noteq> None" "Marshal P3 entry_expire \<noteq> None"
  by (simp_all add: P3_def table_proto_def)

lemma quiet_marshals: "quiet {entry_set, entry_expire} n w \<Longrightarrow> marshals P3 w"
  using P3_entries by (fastforce simp: quiet_def marshals_def)

lemma quiet_put:
  assumes "quiet S (n + 1) w" and "0 \<le> n" and "\<lparr>Op = UPDATE, EKey = k, EObject = Some ob\<rparr> \<in> S"
  shows "quiet S n (fst (wPut P bs k (Some ob) w))"
proof -
  have s: "quiet S n (w\<lparr>writeCount := c\<rparr>)" for c using assms(1) by (fastforce simp: quiet_def)
  show ?thesis
    using assms s
    by (fastforce simp: quiet_def wPut_def enqueue_def Let_def send_def split: option.split if_splits)
qed

lemma quiet_new: "quiet S 2 (smwal db1)"
proof -
  have "\<exists>j. sh = newWalShard j [] (withDefaults 1 \<lparr>ShardCount = 2, WALPath = ''wal'', BufSize = 0, BatchBytes = 1048576,
      FlushInterval = 5000000, WriteChanSize = 0, SyncPolicy = SyncEveryNBatch, SyncEveryN = 1, SegmentMaxSize = 0\<rparr>)"
    if "map_of (wshards (smwal db1)) i = Some sh" for i sh
    using that by (intro NewWALSystem_shards(4)) (simp_all add: db1_def NewShardManager_smwal)
  moreover have "\<not> wclosed (smwal db1)"
    by (simp add: db1_def NewShardManager_smwal NewWALSystem_shards(3))
  ultimately show ?thesis
    by (fastforce simp: quiet_def newWalShard_def withDefaults_def Let_def)
qed

lemma store_smwal:
  "sm_wf sm \<Longrightarrow> smwal (fst (store E sm k v kd r)) =
     fst (wPut (eproto E) (ebranches E) k (Some \<lparr>Value = v, Kind = kd, Timestamp = 0\<rparr>) (smwal sm))"
  by (simp add: store_def on_shard_wf log_put_def split: prod.split)

definition mid3 :: db where
  "mid3 = fst (Execute env3 ''SET'' [''k'', ''v''] db1)"

definition end3 :: db where
  "end3 = fst (Execute env3 ''TTL.EXPIRE'' [''k'', ''1m''] mid3)"

lemma env3_simps [simp]: "now env3 = 5" "eproto env3 = P3" "ebranches env3 = []"
  by (simp_all add: env3_def env1_def)

lemma names3: "ToUpper u ''SET'' = ''SET''" "ToUpper u ''TTL.EXPIRE'' = ''TTL.EXPIRE''"
  by (simp_all add: ToUpper_upper byte_of_def)

lemma mid3_facts:
  "ready mid3" "visible 5 mid3 ''k'' = Some \<lparr>Value = ''v'', Kind = KDefault, Timestamp = 0\<rparr>"
  "quiet {entry_set, entry_expire} 1 (smwal mid3)"
proof -
  have e: "effect env3 db1 (setKey env3 [''k'', ''v''] db1) (\<lambda>m. m(''k'' \<mapsto> fresh_obj ''v'' KDefault)) (Resp [])"
    by (rule setKey_effect) (simp_all add: IsValidKey_def)
  show "ready mid3" "visible 5 mid3 ''k'' = Some \<lparr>Value = ''v'', Kind = KDefault, Timestamp = 0\<rparr>"
    using effectD(1) [OF e] effectD(2) [OF e, of 5] by (simp_all add: mid3_def Execute_names names3)
  have m: "mid3 = fst (store env3 db1 ''k'' ''v'' KDefault (Resp []))"
    by (simp add: mid3_def Execute_names names3 setKey_def IsValidKey_def)
  have "smwal mid3 = fst (wPut P3 [] ''k'' (Some (fresh_obj ''v'' KDefault)) (smwal db1))"
    unfolding m store_smwal [OF ready_wf [OF db1_ready(1)]] by simp
  moreover have "quiet {entry_set, entry_expire} 1 (fst (wPut P3 [] ''k'' (Some (fresh_obj ''v'' KDefault)) (smwal db1)))"
    by (rule quiet_put) (simp_all add: quiet_new entry_set_def)
  ultimately show "quiet {entry_set, entry_expire} 1 (smwal mid3)" by simp
qed

lemma end3_facts:
  "visible 6 end3 ''k'' = Some \<lparr>Value = ''v'', Kind = KDefault, Timestamp = 65\<rparr>" "quiet {entry_set, entry_expire} 0 (smwal end3)"
proof -
  have d: "ParseDurationToSeconds ''1m'' = Some 60" by code_simp
  have wf: "sm_wf mid3" using mid3_facts(1) by simp
  have n: "in_i64 (now env3)" by (simp add: in_i64_def)
  have k: "IsValidKey ''k''" by (simp add: IsValidKey_def)
  have st: "gm_get (mem_of mid3 ''k'') ''k'' = Some \<lparr>Value = ''v'', Kind = KDefault, Timestamp = 0\<rparr>"
    using mid3_facts(2) by (auto simp: visible_def live_def split: option.splits if_splits)
  have x: "expire_at 5 60 = 65" by (simp add: expire_at_def i64_def)
  let ?ob = "\<lparr>Value = ''v'', Kind = KDefault, Timestamp = 65\<rparr>"
  have e: "end3 = fst (log_put env3 ''k'' ?ob (with_mem mid3 ''k'' (gm_upd ''k'' ?ob (mem_of mid3 ''k''))) (Resp ''1''))"
    using expireKey_eq [OF wf n, of "[''k'', ''1m'']" 60] d k st x by (simp add: end3_def Execute_names names3 Let_def)
  have "stored end3 ''k'' = Some ?ob" using wf by (simp add: e stored_same_node)
  then show "visible 6 end3 ''k'' = Some ?ob" by (simp add: visible_stored expired_def)
  have "smwal end3 = fst (wPut P3 [] ''k'' (Some ?ob) (smwal mid3))"
    by (simp add: e log_put_def split: prod.split)
  then show "quiet {entry_set, entry_expire} 0 (smwal end3)"
    using quiet_put [of _ 0 "smwal mid3" "''k''" ?ob P3 "[]"] mid3_facts(3) by (simp add: entry_expire_def)
qed

lemma run3_facts:
  "fold (run_event P3) run3 db1 = end3" "trace_ok P3 5 run3 db1" "last_time 5 run3 = 5"
proof -
  have d: "ParseDurationToSeconds ''1m'' = Some 60" by code_simp
  show "fold (run_event P3) run3 db1 = end3" "last_time 5 run3 = 5"
    by (simp_all add: run3_def end3_def mid3_def)
  show "trace_ok P3 5 run3 db1"
    using quiet_room [OF quiet_new] quiet_room [OF mid3_facts(3)] d
    by (simp add: run3_def names3 no_overflow_def flip: mid3_def)
qed

section \<open>Every state a server can reach\<close>

lemma wal_run_ok: "wal_ok w \<Longrightarrow> wal_ok (wal_run P i b w)"
proof (cases "map_of (wshards w) i")
  case (Some sh)
  assume w: "wal_ok w"
  then have i: "shard_inv sh" using Some by (auto simp: wal_ok_def wal_wf_def)
  show ?thesis
  proof (cases "run_branch P b sh")
    case (Some sh')
    then have "shard_inv sh'" using run_branch_log [OF i] by blast
    moreover have "sclosed sh' = sclosed sh" using Some run_branches_sclosed [of P "[b]" sh] by simp
    ultimately show ?thesis
      using w \<open>map_of (wshards w) i = Some sh\<close> Some by (auto simp: wal_run_def wal_ok_def wal_wf_def)
  qed (use w Some in \<open>simp add: wal_run_def\<close>)
qed (simp add: wal_run_def)

text \<open>C7.  However requests and the work of the log goroutines interleave on a server that was started,
  it stays ready: every key has a shard in the store and in the log, the maps are well formed and
  no channel is closed, even when the log refuses writes.\<close>

theorem always_ready:
  assumes "0 < n" and "\<forall>E c args. Request E c args \<in> set es \<longrightarrow> in_i64 (now E)"
  shows "ready (fold (run_event P) es (NewShardManager g (\<lambda>_. None) path aw n))"
proof -
  have "ready (fold (run_event P) es sm)" if "ready sm" for sm
    using that assms(2)
  proof (induction es arbitrary: sm)
    case (Cons e es)
    have "ready (run_event P e sm)"
    proof (cases e)
      case (Request E c args)
      then show ?thesis using Cons.prems by (simp add: Execute_ready)
    next
      case (LogStep i b)
      then show ?thesis using Cons.prems(1) wal_run_ok by (simp add: ready_def sm_wf_def)
    qed
    then have "ready (fold (run_event P) es (run_event P e sm))"
      by (rule Cons.IH) (use Cons.prems(2) in auto)
    then show ?case by simp
  qed simp
  then show ?thesis using NewShardManager_ready(1) [OF assms(1)] by simp
qed

theorem always_ready_witness:
  "ready (fold (run_event P3) (run3 @ [LogStep ''0'' Recv]) db1)"
  unfolding db1_def by (rule always_ready) (auto simp: run3_def in_i64_def)

text \<open>C3.  The log refines the store: in every state of a run in which the log has room and its entries
  can be encoded, replaying the logged entries of a key in their order gives what clients see of
  the key, now and at every later time.  Two kinds of request must not be in the run: a \<^verbatim>\<open>LIST.GPOP\<close> of
  a list that has an expiration time, which the store and the log remember differently
  (\<open>gpop_diverges\<close>), and a \<^verbatim>\<open>TTL.EXPIRE\<close> whose expiration time overflows 64 bits.\<close>

theorem log_refines_store:
  assumes "0 < n" and "sm0 = NewShardManager g (\<lambda>_. None) path aw n" and "trace_ok P t0 es sm0"
  shows "\<exists>h. holds P (smwal (fold (run_event P) es sm0)) h \<and>
    (\<forall>k u. last_time t0 es < u \<longrightarrow> visible u (fold (run_event P) es sm0) k =
       alive u (replay k (h (wnode (smwal (fold (run_event P) es sm0)) k))))"
  using trace_logged [OF new_logged(1) [OF assms(1,2)] assms(3)] by (auto simp: logged_def agree_def)

theorem log_refines_store_witness:
  "\<exists>h. holds P3 (smwal end3) h \<and>
    alive 6 (replay ''k'' (h (wnode (smwal end3) ''k''))) = Some \<lparr>Value = ''v'', Kind = KDefault, Timestamp = 65\<rparr>"
proof -
  obtain h where "holds P3 (smwal end3) h"
    "\<forall>k u. 5 < u \<longrightarrow> visible u end3 k = alive u (replay k (h (wnode (smwal end3) k)))"
    using log_refines_store [OF _ db1_def run3_facts(2)] by (auto simp: run3_facts(1,3))
  then show ?thesis using end3_facts(1) by auto
qed

section \<open>Restart\<close>

text \<open>C1.  A restart loses nothing: after a run of requests and log work on a server started in an
  empty directory, closing the log and recovering from the files, with the same number of shards, gives a
  server that shows, for every key and at every later time, the object the first one would still show, unchanged.  What it shows
  beyond that are only objects whose expiration time had passed by then: each was the last one logged
  for its key and comes back without an expiration time.  The run is one in which the log accepts and can
  encode every write (a refused write is answered like any other, and lost), no list that expires
  is popped by \<^verbatim>\<open>LIST.GPOP\<close>, and no expiration time overflows 64 bits.\<close>

theorem restart_restores:
  assumes "proto_ok P" and "0 < n" and "sm0 = NewShardManager g (\<lambda>_. None) path aw n"
    and "trace_ok P t0 es sm0" and "sm1 = fold (run_event P) es sm0"
    and "room (smwal sm1)" and "marshals P (smwal sm1)" and "\<And>ids. mset (order ids) = mset ids"
    and "disk = disk_of path (wClose P (smwal sm1))"
    and "last_time t0 es \<le> r" and "0 \<le> r" and "r < 2 ^ 63"
  shows "\<exists>sm2 h. RecoverMemory P disk order r r path (NewShardManager g' disk path aw' n) = Some sm2 \<and>
    holds P (smwal sm1) h \<and>
    (\<forall>k u ob. r < u \<longrightarrow> visible u sm1 k = Some ob \<longrightarrow> visible u sm2 k = Some ob) \<and>
    (\<forall>k u ob. r < u \<longrightarrow> visible u sm2 k = Some ob \<longrightarrow> visible u sm1 k = Some ob \<or>
       visible u sm1 k = None \<and> Timestamp ob = 0 \<and>
       (\<exists>s. 0 < s \<and> s \<le> r \<and> replay k (h (wnode (smwal sm1) k)) = Some (ob\<lparr>Timestamp := s\<rparr>)))"
proof -
  obtain h sm2 where h: "logged P (last_time t0 es) sm1" "agree (last_time t0 es) sm1 h"
    "RecoverMemory P disk order r r path (NewShardManager g' disk path aw' n) = Some sm2"
    "\<And>k. stored sm2 k = map_option (restore r r) (replay k (h (wnode (smwal sm1) k)))"
    "holds P (smwal sm1) h"
    using restart [OF assms(1-8)] assms(9) by blast
  have n: "nonneg sm1" using h(1) by (simp add: logged_def)
  have v: "visible u sm2 k = (case replay k (h (wnode (smwal sm1) k)) of
       None \<Rightarrow> None
     | Some ob \<Rightarrow> if 0 < Timestamp ob \<and> Timestamp ob \<le> r then Some (ob\<lparr>Timestamp := 0\<rparr>) else visible u sm1 k)"
    if "r < u" for u k
    using restore_alive_iff [OF h(2) n assms(10-12) that HOL.refl] h(4) by (simp add: visible_alive)
  have a: "visible u sm1 k = alive u (replay k (h (wnode (smwal sm1) k)))" if "r < u" for u k
    using h(2) assms(10) that by (simp add: agree_def)
  have "visible u sm2 k = Some ob" if "r < u" "visible u sm1 k = Some ob" for u k ob
    using that a [of u k] v [of u k] by (auto simp: expired_def split: option.splits if_splits)
  moreover have "visible u sm1 k = Some ob \<or> visible u sm1 k = None \<and> Timestamp ob = 0 \<and>
      (\<exists>s. 0 < s \<and> s \<le> r \<and> replay k (h (wnode (smwal sm1) k)) = Some (ob\<lparr>Timestamp := s\<rparr>))"
    if "r < u" "visible u sm2 k = Some ob" for u k ob
    using that a [of u k] v [of u k] by (auto simp: expired_def split: option.splits if_splits)
  ultimately show ?thesis using h(3,5) by blast
qed

theorem restart_restores_witness:
  "\<exists>sm2. RecoverMemory P3 (disk_of ''wal'' (wClose P3 (smwal end3))) (\<lambda>ids. ids) 10 10 ''wal''
     (NewShardManager 1 (disk_of ''wal'' (wClose P3 (smwal end3))) ''wal'' 1 2) = Some sm2 \<and>
   visible 11 sm2 ''k'' = visible 11 end3 ''k''"
proof -
  have v: "visible 11 end3 ''k'' = Some \<lparr>Value = ''v'', Kind = KDefault, Timestamp = 65\<rparr>"
    using end3_facts(1) by (auto simp: visible_stored expired_def split: option.splits if_splits)
  have "last_time 5 run3 \<le> 10" by (simp add: run3_facts(3))
  from restart_restores [OF P3_ok _ db1_def run3_facts(2) run3_facts(1) [symmetric] quiet_room [OF end3_facts(2)]
      quiet_marshals [OF end3_facts(2)] HOL.refl HOL.refl this, of 1 1]
  obtain sm2 where "RecoverMemory P3 (disk_of ''wal'' (wClose P3 (smwal end3))) (\<lambda>ids. ids) 10 10 ''wal''
      (NewShardManager 1 (disk_of ''wal'' (wClose P3 (smwal end3))) ''wal'' 1 2) = Some sm2"
    "\<forall>k u ob. 10 < u \<longrightarrow> visible u end3 k = Some ob \<longrightarrow> visible u sm2 k = Some ob" by auto
  with v show ?thesis by auto
qed

text \<open>C39.  A key whose time ran out before the restart comes back without an expiration time: the first
  server no longer shows it, the second shows it for ever.\<close>

theorem expired_resurrected:
  assumes "proto_ok P" and "0 < n" and "sm0 = NewShardManager g (\<lambda>_. None) path aw n"
    and "trace_ok P t0 es sm0" and "sm1 = fold (run_event P) es sm0"
    and "room (smwal sm1)" and "marshals P (smwal sm1)" and "\<And>ids. mset (order ids) = mset ids"
    and "disk = disk_of path (wClose P (smwal sm1))"
    and "visible (last_time t0 es + 1) sm1 k = Some ob" and "0 < Timestamp ob" and "Timestamp ob \<le> r"
    and "last_time t0 es \<le> r" and "r < 2 ^ 63" and "r < u"
  shows "\<exists>sm2. RecoverMemory P disk order r r path (NewShardManager g' disk path aw' n) = Some sm2 \<and>
    visible u sm1 k = None \<and> visible u sm2 k = Some (ob\<lparr>Timestamp := 0\<rparr>)"
proof -
  obtain h sm2 where h: "logged P (last_time t0 es) sm1" "agree (last_time t0 es) sm1 h"
    "RecoverMemory P disk order r r path (NewShardManager g' disk path aw' n) = Some sm2"
    "\<And>k. stored sm2 k = map_option (restore r r) (replay k (h (wnode (smwal sm1) k)))"
    using restart [OF assms(1-8)] assms(9) by blast
  have n: "nonneg sm1" using h(1) by (simp add: logged_def)
  have "visible (last_time t0 es + 1) sm1 k = alive (last_time t0 es + 1) (replay k (h (wnode (smwal sm1) k)))"
    using h(2) by (simp add: agree_def)
  then have rep: "replay k (h (wnode (smwal sm1) k)) = Some ob"
    using assms(10) by (auto simp: alive_def split: option.splits if_splits)
  have "visible u sm1 k = None"
    using assms(10-12,15) by (auto simp: visible_stored expired_def split: option.splits if_splits)
  moreover have "visible u sm2 k = Some (ob\<lparr>Timestamp := 0\<rparr>)"
    using restore_alive_iff [OF h(2) n assms(13) _ assms(14,15) HOL.refl, of k] rep h(4) assms(11,12)
    by (simp add: visible_alive)
  ultimately show ?thesis using h(3) by blast
qed

theorem expired_resurrected_witness:
  "\<exists>sm2. RecoverMemory P3 (disk_of ''wal'' (wClose P3 (smwal end3))) (\<lambda>ids. ids) 100 100 ''wal''
     (NewShardManager 1 (disk_of ''wal'' (wClose P3 (smwal end3))) ''wal'' 1 2) = Some sm2 \<and>
   visible 1000 end3 ''k'' = None \<and> visible 1000 sm2 ''k'' = Some (fresh_obj ''v'' KDefault)"
  using expired_resurrected [OF P3_ok _ db1_def run3_facts(2) run3_facts(1) [symmetric] quiet_room [OF end3_facts(2)]
      quiet_marshals [OF end3_facts(2)] HOL.refl HOL.refl, of "''k''" _ 100 1000 1 1] end3_facts(1)
  by (auto simp: run3_facts(3))

section \<open>A command that breaks the agreement\<close>

lemma gpop_state:
  assumes "ready sm" and "IsValidKey k" and "visible (now E) sm k = Some ob" and "Kind ob = KList"
    and "unm_arr (Value ob) = Some (Some (xs @ [x]))" and "now E \<le> u"
  defines "sm' \<equiv> fst (listGPopFunc E [k] sm)" and "w \<equiv> SliceToByte (Some xs)"
  shows "visible u sm' k = Some (fresh_obj w KList)"
    and "smwal sm' = fst (wPut (eproto E) (ebranches E) k (Some (ob\<lparr>Value := w\<rparr>)) (smwal sm))"
proof -
  let ?s = "fetched E sm k"
  note f = fetched(1,2) [OF assms(1), of E k]
  have "listGPopFunc E [k] sm = on_shard ?s k (\<lambda>m. log_put E k (ob\<lparr>Value := w\<rparr>)
      (with_mem ?s k (Set k w KList m)) (Resp (ObjectToByte x)))"
    using assms(1-5) by (simp add: listGPopFunc_def Let_def fetch_eq elems_def w_def)
  then have e: "sm' = fst (log_put E k (ob\<lparr>Value := w\<rparr>)
      (with_mem ?s k (Set k w KList (mem_of ?s k))) (Resp (ObjectToByte x)))"
    using f(1) by (simp add: sm'_def on_shard_wf)
  show "smwal sm' = fst (wPut (eproto E) (ebranches E) k (Some (ob\<lparr>Value := w\<rparr>)) (smwal sm))"
    using f(2) by (simp add: e log_put_def split: prod.split)
  have "visible u (with_mem ?s k (Set k w KList (mem_of ?s k))) =
      (visible u ?s)(k := live u (Set k w KList (mem_of ?s k)) k)"
    by (rule visible_with_mem [OF ready_wf [OF f(1)]]) (rule store_frame(2))
  then show "visible u sm' k = Some (fresh_obj w KList)" by (simp add: e live_Set)
qed

text \<open>\<^verbatim>\<open>LIST.GPOP\<close> on a list that has an expiration time makes the store and the log disagree: the
  store keeps the shortened list for ever, while the log says that it expires, so that a restart
  after that time brings back what clients never saw.\<close>

lemma gpop_diverges:
  assumes "ready sm" and "IsValidKey k" and "visible (now E) sm k = Some ob" and "Kind ob = KList"
    and "unm_arr (Value ob) = Some (Some (xs @ [x]))" and "0 < Timestamp ob" and "Timestamp ob < u"
    and "room (smwal sm)" and "holds (eproto E) (smwal sm) h" and "ToUpper (euni E) c = ''LIST.GPOP''"
  shows "let sm' = fst (Execute E c [k] sm) in
    visible u sm' k = Some (fresh_obj (SliceToByte (Some xs)) KList) \<and>
    (\<exists>h'. holds (eproto E) (smwal sm') h' \<and> alive u (replay k (h' (wnode (smwal sm') k))) = None)"
proof -
  have x: "Execute E c [k] sm = listGPopFunc E [k] sm" by (rule Execute_lists(4) [OF assms(10)])
  have "now E \<le> u"
    using assms(3,6,7) by (auto simp: visible_def live_def expired_def split: option.splits if_splits)
  note g = gpop_state [OF assms(1-5) this]
  let ?e = "\<lparr>Op = UPDATE, EKey = k, EObject = Some (ob\<lparr>Value := SliceToByte (Some xs)\<rparr>)\<rparr>"
  have "wal_wf (smwal sm)" using assms(9) by (simp add: holds_def)
  then obtain w where w: "wPut (eproto E) (ebranches E) k (Some (ob\<lparr>Value := SliceToByte (Some xs)\<rparr>)) (smwal sm) = (w, WOk)"
    using wPut_room assms(8) by blast
  let ?h = "h(wnode (smwal sm) k := h (wnode (smwal sm) k) @ [?e])"
  have "holds (eproto E) w ?h" "wnode w = wnode (smwal sm)"
    using wPut_holds [OF assms(9) w] by (simp_all add: log_add_def)
  moreover have "smwal (fst (listGPopFunc E [k] sm)) = w" using g(2) w by simp
  moreover have "alive u (replay k (?h (wnode (smwal sm) k))) = None"
    using assms(6,7) by (simp add: replay_snoc apply_entry_def expired_def)
  ultimately show ?thesis using g(1) unfolding Let_def x by metis
qed

end
