(* ===== verification/Json_Laws.thy ===== *)
theory Json_Laws
  imports Collection_Laws "HOL-Library.Sublist"
begin

text \<open>
  JSON documents addressed by paths: what reading a path gives after a value was added or removed at
  another, and what merging two documents gives; first for the values, then for the commands.
\<close>

section \<open>One step of a walk\<close>

lemma add_keys_step:
  assumes "add_keys m (key # keys) v = Ret m'" and "keys \<noteq> []"
  obtains c n where "gm_get m key = None \<and> c = [] \<or> gm_get m key = Some (JObj c)"
    "add_keys c keys v = Ret n" "m' = gm_upd key (JObj n) m"
  using assms by (auto simp: as_map_def split: option.splits outcome.splits json.splits)

lemma remove_keys_step:
  assumes "remove_keys m (key # keys) = Some m'" and "keys \<noteq> []"
  obtains (absent) "m' = m" "\<And>c. gm_get m key \<noteq> Some (JObj c)"
  | (inner) c n where "gm_get m key = Some (JObj c)" "remove_keys c keys = Some n" "m' = gm_upd key (JObj n) m"
  using assms by (auto simp: as_map_def split: option.splits json.splits)

lemma read_keys_Cons:
  "read_keys (Some m) (key # keys) =
     (case gm_get m key of
        None \<Rightarrow> None
      | Some v \<Rightarrow> if keys = [] then Some v
                 else case v of JObj c \<Rightarrow> read_keys (Some c) keys | _ \<Rightarrow> None)"
proof -
  have "read_keys None keys = None" by (cases keys) (simp_all add: map_lookup_def)
  then show ?thesis by (auto simp: map_lookup_def as_map_def split: option.split json.split)
qed

lemma read_keys_empty: "read_keys (Some []) js = None"
  by (cases js) (simp_all add: map_lookup_def)

section \<open>Reading after adding\<close>

lemma read_add_same: "add_keys m ks v = Ret m' \<Longrightarrow> ks \<noteq> [] \<Longrightarrow> read_keys (Some m') ks = Some v"
proof (induction ks arbitrary: m m')
  case (Cons key keys)
  show ?case
  proof (cases "keys = []")
    case True
    then show ?thesis using Cons.prems by (auto simp: map_lookup_def)
  next
    case False
    with Cons.prems obtain c n where "add_keys c keys v = Ret n" "m' = gm_upd key (JObj n) m"
      by (elim add_keys_step)
    with Cons.IH False show ?thesis by (auto simp: read_keys_Cons simp del: read_keys.simps)
  qed
qed simp

text \<open>Reading at a path that neither leads to the added value nor into it.\<close>

lemma read_add_other:
  "add_keys m ks v = Ret m' \<Longrightarrow> \<not> prefix ks js \<Longrightarrow> \<not> prefix js ks \<Longrightarrow>
   read_keys (Some m') js = read_keys (Some m) js"
proof (induction ks arbitrary: m m' js)
  case (Cons key keys)
  obtain j js' where js: "js = j # js'" using Cons.prems(3) by (cases js) auto
  show ?case
  proof (cases "j = key")
    case True
    have n: "\<not> prefix keys js'" "\<not> prefix js' keys" "keys \<noteq> []" "js' \<noteq> []"
      using Cons.prems(2,3) js True by auto
    from Cons.prems(1) n(3) obtain c d where
      c: "gm_get m key = None \<and> c = [] \<or> gm_get m key = Some (JObj c)" "add_keys c keys v = Ret d"
        "m' = gm_upd key (JObj d) m"
      by (elim add_keys_step)
    from Cons.IH [OF c(2) n(1,2)] c(1,3) n(4) read_keys_empty show ?thesis
      by (auto simp: js True read_keys_Cons simp del: read_keys.simps)
  next
    case False
    have "\<exists>x. m' = gm_upd key x m"
    proof (cases "keys = []")
      case False
      with Cons.prems(1) show ?thesis by (elim add_keys_step) auto
    qed (use Cons.prems(1) in auto)
    with False show ?thesis by (auto simp: js read_keys_Cons simp del: read_keys.simps)
  qed
qed simp

section \<open>Reading after removing\<close>

lemma read_remove_same: "remove_keys m ks = Some m' \<Longrightarrow> ks \<noteq> [] \<Longrightarrow> read_keys (Some m') ks = None"
proof (induction ks arbitrary: m m')
  case (Cons key keys)
  show ?case
  proof (cases "keys = []")
    case True
    then show ?thesis using Cons.prems by (auto simp: map_lookup_def)
  next
    case False
    from Cons.prems(1) False show ?thesis
    proof (cases rule: remove_keys_step)
      case absent
      then show ?thesis using False by (auto simp: read_keys_Cons simp del: read_keys.simps split: option.split json.split)
    next
      case (inner c n)
      then show ?thesis using Cons.IH False by (auto simp: read_keys_Cons simp del: read_keys.simps)
    qed
  qed
qed simp

lemma read_remove_other:
  "remove_keys m ks = Some m' \<Longrightarrow> \<not> prefix ks js \<Longrightarrow> \<not> prefix js ks \<Longrightarrow>
   read_keys (Some m') js = read_keys (Some m) js"
proof (induction ks arbitrary: m m' js)
  case (Cons key keys)
  obtain j js' where js: "js = j # js'" using Cons.prems(3) by (cases js) auto
  show ?case
  proof (cases "j = key")
    case True
    have n: "\<not> prefix keys js'" "\<not> prefix js' keys" "keys \<noteq> []" "js' \<noteq> []"
      using Cons.prems(2,3) js True by auto
    from Cons.prems(1) n(3) show ?thesis
    proof (cases rule: remove_keys_step)
      case (inner c d)
      with Cons.IH [OF inner(2) n(1,2)] n(4) show ?thesis
        by (simp add: js True read_keys_Cons del: read_keys.simps)
    qed simp
  next
    case False
    have "m' = m \<or> m' = gm_del key m \<or> (\<exists>x. m' = gm_upd key x m)"
    proof (cases "keys = []")
      case False
      with Cons.prems(1) show ?thesis by (elim remove_keys_step) blast+
    qed (use Cons.prems(1) in auto)
    with False show ?thesis by (auto simp: js read_keys_Cons simp del: read_keys.simps)
  qed
qed simp

section \<open>What is added can be written and read again\<close>

lemma gm_upd_jokm:
  "jokm d m \<Longrightarrow> valid_utf8 k \<Longrightarrow> jok d v \<Longrightarrow> jokm d (gm_upd k v m)"
  using set_gm_upd [of k v m] unfolding jokm_iff by (fastforce split: prod.splits)

lemma jokm_get: "jokm d m \<Longrightarrow> gm_get m k = Some v \<Longrightarrow> jok d v"
  using map_of_SomeD [of m k v] unfolding jokm_iff by fastforce

lemma add_keys_jokm:
  "add_keys m ks v = Ret m' \<Longrightarrow> gm_ok m \<Longrightarrow> jokm d m \<Longrightarrow> \<forall>k \<in> set ks. valid_utf8 k \<Longrightarrow>
   length ks \<le> Suc d \<Longrightarrow> jok (Suc d - length ks) v \<Longrightarrow> gm_ok m' \<and> jokm d m'"
proof (induction ks arbitrary: m m' d)
  case (Cons key keys)
  have u: "valid_utf8 key" "\<forall>k \<in> set keys. valid_utf8 k" using Cons.prems(4) by simp_all
  show ?case
  proof (cases "keys = []")
    case True
    then show ?thesis using Cons.prems by (auto simp: gm_upd_jokm)
  next
    case False
    then obtain d' where d: "d = Suc d'" using Cons.prems(5) by (cases d) auto
    from Cons.prems(1) False obtain c n where
      c: "gm_get m key = None \<and> c = [] \<or> gm_get m key = Some (JObj c)" "add_keys c keys v = Ret n"
        "m' = gm_upd key (JObj n) m"
      by (elim add_keys_step)
    have "gm_ok c \<and> jokm d' c" using c(1) jokm_get [OF Cons.prems(3), of key "JObj c"] d by auto
    moreover have "length keys \<le> Suc d'" "jok (Suc d' - length keys) v" using Cons.prems(5,6) d by simp_all
    ultimately have "gm_ok n \<and> jokm d' n" using Cons.IH [OF c(2)] u(2) by blast
    then show ?thesis using c(3) Cons.prems(2,3) u(1) d by (auto intro!: gm_upd_jokm)
  qed
qed simp

lemma remove_keys_jokm:
  "remove_keys m ks = Some m' \<Longrightarrow> gm_ok m \<Longrightarrow> jokm d m \<Longrightarrow> gm_ok m' \<and> jokm d m'"
proof (induction ks arbitrary: m m' d)
  case (Cons key keys)
  show ?case
  proof (cases "keys = []")
    case True
    then show ?thesis using Cons.prems by (auto simp: MapToByte_del)
  next
    case False
    from Cons.prems(1) False show ?thesis
    proof (cases rule: remove_keys_step)
      case absent
      then show ?thesis using Cons.prems by simp
    next
      case (inner c n)
      have j: "jok d (JObj c)" by (rule jokm_get [OF Cons.prems(3) inner(1)])
      then have "gm_ok n \<and> jokm (d - 1) n" using Cons.IH [OF inner(2), of "d - 1"] by simp
      moreover have "valid_utf8 key"
        using Cons.prems(3) map_of_SomeD [OF inner(1)] unfolding jokm_iff by blast
      ultimately show ?thesis using inner(3) Cons.prems(2,3) j by (auto intro!: gm_upd_jokm)
    qed
  qed
qed simp

text \<open>Removing what is not there.\<close>

lemma remove_absent:
  "remove_keys m ks = Some m' \<Longrightarrow> gm_ok m \<Longrightarrow> jokm d m \<Longrightarrow> read_keys (Some m) ks = None \<Longrightarrow> m' = m"
proof (induction ks arbitrary: m m' d)
  case (Cons key keys)
  show ?case
  proof (cases "keys = []")
    case True
    then show ?thesis using Cons.prems(1,4) by (auto simp: map_lookup_def gm_del_absent map_of_eq_None_iff split: option.splits)
  next
    case False
    from Cons.prems(1) False show ?thesis
    proof (cases rule: remove_keys_step)
      case (inner c n)
      have "jok d (JObj c)" by (rule jokm_get [OF Cons.prems(3) inner(1)])
      moreover have "read_keys (Some c) keys = None"
        using Cons.prems(4) inner(1) False by (simp add: read_keys_Cons del: read_keys.simps)
      ultimately have "n = c" using Cons.IH [OF inner(2), of "d - 1"] by simp
      then show ?thesis using inner(1,3) Cons.prems(2) by (intro gm_ok_eqI) (auto simp: map_upd_triv)
    qed simp
  qed
qed simp

section \<open>Merging\<close>

lemma merge_into_ok: "gm_ok r \<Longrightarrow> gm_ok (merge_into r ps)"
proof (induction ps arbitrary: r)
  case (Cons p ps)
  then show ?case by (cases p) simp
qed simp

lemma merge_into_lookup:
  "gm_ok ps \<Longrightarrow> gm_get (merge_into r ps) k =
     (case gm_get ps k of
        None \<Rightarrow> gm_get r k
      | Some v \<Rightarrow> Some (case gm_get r k of Some e \<Rightarrow> merge_val e v | None \<Rightarrow> v))"
proof (induction ps arbitrary: r)
  case (Cons p ps)
  obtain j v where p: "p = (j, v)" by (cases p)
  have ok: "gm_ok ps" and n: "gm_get ps j = None"
    using Cons.prems by (auto simp: p gm_ok_Cons map_of_eq_None_iff)
  show ?case using Cons.IH [OF ok] n by (auto simp: p split: option.split)
qed simp

lemma merge_val_obj: "merge_val (JObj m) (JObj n) = JObj (merge_into m n)"
  by (simp add: as_map_def members_of_def)

text \<open>Merging keeps a document within the limits of the parser.\<close>

lemma merge_jok: "jok d v \<Longrightarrow> jok d e \<Longrightarrow> jok d (merge_val e v)"
  and merge_into_jokm: "jokm d ps \<Longrightarrow> gm_ok r \<Longrightarrow> jokm d r \<Longrightarrow> jokm d (merge_into r ps)"
proof (induction e v and r ps arbitrary: d and d rule: merge_val_merge_into.induct)
  case (1 e n)
  show ?case
  proof (cases "\<exists>m. e = JObj m")
    case True
    then obtain m where m: "e = JObj m" by blast
    then have "jokm (d - 1) (merge_into m n)"
      using "1.IH" [of "Some m" "d - 1"] "1.prems" by (simp add: as_map_def members_of_def)
    then show ?thesis using "1.prems" by (simp add: m as_map_def members_of_def merge_into_ok)
  next
    case False
    then show ?thesis using "1.prems" by (cases e) (simp_all add: as_map_def)
  qed
next
  case (9 r k v ps)
  have "jok d (case gm_get r k of Some e \<Rightarrow> merge_val e v | None \<Rightarrow> v)"
    using "9.prems"(1) "9.IH"(1) jokm_get [OF "9.prems"(3)] by (auto split: option.split)
  then show ?case using "9.prems" "9.IH"(2) by (simp add: gm_upd_jokm)
qed simp_all

lemma merge_self: "jok d v \<Longrightarrow> merge_val v v = v"
proof (induction v arbitrary: d)
  case (JObj n)
  have ok: "gm_ok n" "jokm (d - 1) n" using JObj.prems by simp_all
  have "merge_val w w = w" if "gm_get n k = Some w" for k w
  proof -
    have "(k, w) \<in> set n" by (rule map_of_SomeD [OF that])
    then show ?thesis using JObj.IH [of "(k, w)" w] jokm_get [OF ok(2) that] by simp
  qed
  then have "merge_into n n = n"
    using ok(1) by (intro gm_ok_eqI) (auto simp: merge_into_ok merge_into_lookup fun_eq_iff split: option.split)
  then show ?case unfolding merge_val_obj by simp
qed (simp_all add: as_map_def members_of_def)

lemma merge_twice: "jok d v \<Longrightarrow> jok d e \<Longrightarrow> merge_val (merge_val e v) v = merge_val e v"
proof (induction v arbitrary: d e)
  case (JObj n)
  have ok: "gm_ok n" "jokm (d - 1) n" using JObj.prems by simp_all
  show ?case
  proof (cases "\<exists>m. e = JObj m")
    case True
    then obtain m where m: "e = JObj m" "gm_ok m" "jokm (d - 1) m" using JObj.prems by auto
    have "merge_val (merge_val x w) w = merge_val x w \<and> merge_val w w = w"
      if "gm_get n k = Some w" "gm_get m k = Some x" for k w x
    proof -
      have "(k, w) \<in> set n" by (rule map_of_SomeD [OF that(1)])
      then show ?thesis
        using JObj.IH [of "(k, w)" w] jokm_get [OF ok(2) that(1)] jokm_get [OF m(3) that(2)] merge_self by auto
    qed
    moreover have "merge_val w w = w" if "gm_get n k = Some w" for k w
      using jokm_get [OF ok(2) that] by (rule merge_self)
    ultimately have "merge_into (merge_into m n) n = merge_into m n"
      using ok(1) m(2) by (intro gm_ok_eqI) (auto simp: merge_into_ok merge_into_lookup fun_eq_iff split: option.split)
    then show ?thesis unfolding m(1) merge_val_obj by simp
  next
    case False
    then have "merge_val e (JObj n) = JObj n" using JObj.prems by (cases e) (simp_all add: as_map_def)
    then show ?thesis using merge_self [OF JObj.prems(1)] by simp
  qed
qed (simp_all add: as_map_def members_of_def)

text \<open>The merge by paths: \<open>merged e v d\<close> says of every path what the merge \<open>d\<close> of \<open>v\<close> into \<open>e\<close> has there.\<close>

fun at_path :: "json \<Rightarrow> string list \<Rightarrow> json option" where
  "at_path v [] = Some v"
| "at_path (JObj m) (k # ks) = (case gm_get m k of None \<Rightarrow> None | Some v \<Rightarrow> at_path v ks)"
| "at_path v (k # ks) = None"

fun is_object :: "json \<Rightarrow> bool" where
  "is_object (JObj m) \<longleftrightarrow> True"
| "is_object v \<longleftrightarrow> False"

definition ends_before :: "json \<Rightarrow> string list \<Rightarrow> bool" where
  "ends_before v p \<longleftrightarrow> (\<exists>q w. strict_prefix q p \<and> at_path v q = Some w \<and> \<not> is_object w)"

definition merged_at :: "json \<Rightarrow> json \<Rightarrow> json \<Rightarrow> string list \<Rightarrow> bool" where
  "merged_at e v d p \<longleftrightarrow>
     (case at_path v p of
        Some w \<Rightarrow>
          if is_object w \<and> (\<exists>x. at_path e p = Some x \<and> is_object x)
          then \<exists>y. at_path d p = Some y \<and> is_object y
          else at_path d p = Some w
      | None \<Rightarrow> at_path d p = (if ends_before v p then None else at_path e p))"

lemma ends_before_simps [simp]:
  "\<not> ends_before v []" "\<not> is_object v \<Longrightarrow> ends_before v (k # ks)"
  by (auto simp: ends_before_def intro: exI [of _ "[]"])

lemma ends_before_obj [simp]:
  "ends_before (JObj m) (k # ks) \<longleftrightarrow> (case gm_get m k of None \<Rightarrow> False | Some v \<Rightarrow> ends_before v ks)"
proof -
  have "strict_prefix q (k # ks) \<longleftrightarrow> q = [] \<or> (\<exists>q'. q = k # q' \<and> strict_prefix q' ks)" for q
    by (cases q) (auto simp: strict_prefix_def)
  then have "ends_before (JObj m) (k # ks) \<longleftrightarrow>
      (\<exists>q w. strict_prefix q ks \<and> at_path (JObj m) (k # q) = Some w \<and> \<not> is_object w)"
    unfolding ends_before_def by (metis at_path.simps(1) is_object.simps(1) option.inject)
  then show ?thesis by (auto simp: ends_before_def split: option.splits)
qed

lemma at_path_leaf [simp]: "\<not> is_object v \<Longrightarrow> at_path v (k # ks) = None"
  by (cases v) simp_all

lemma merge_leaf: "\<not> is_object v \<or> \<not> is_object e \<Longrightarrow> jok d v \<Longrightarrow> jok d' e \<Longrightarrow> merge_val e v = v"
  by (cases v; cases e) (simp_all add: as_map_def)

lemma is_object_iff: "is_object v \<longleftrightarrow> (\<exists>m. v = JObj m)"
  by (cases v) simp_all

text \<open>Nothing merged into a leaf, and a leaf merged into anything, is the new value.\<close>

lemma merged_at_new: "\<not> is_object e \<or> \<not> is_object v \<Longrightarrow> merged_at e v v p"
  by (cases p) (auto simp: merged_at_def split: option.split)

lemma merge_path: "jok d v \<Longrightarrow> jok d e \<Longrightarrow> merged_at e v (merge_val e v) p"
proof (induction p arbitrary: d e v)
  case Nil
  then show ?case
    using merge_leaf [OF _ Nil] by (cases "is_object v \<and> is_object e")
      (auto simp: merged_at_def is_object_iff merge_val_obj simp del: merge_val.simps)
next
  case (Cons k ks)
  show ?case
  proof (cases "is_object v \<and> is_object e")
    case True
    then obtain m n where mn: "v = JObj n" "e = JObj m" by (auto simp: is_object_iff)
    then have ok: "gm_ok n" "jokm (d - 1) n" "jokm (d - 1) m" using Cons.prems by simp_all
    show ?thesis
    proof (cases "gm_get n k")
      case None
      then show ?thesis using ok(1) unfolding mn merge_val_obj by (simp add: merged_at_def merge_into_lookup)
    next
      case (Some w)
      show ?thesis
      proof (cases "gm_get m k")
        case None
        then show ?thesis using ok(1) Some unfolding mn merge_val_obj
          by (auto simp: merged_at_def merge_into_lookup split: option.split)
      next
        case (Some x)
        have "merged_at x w (merge_val x w) ks"
          using Cons.IH jokm_get [OF ok(2) \<open>gm_get n k = Some w\<close>] jokm_get [OF ok(3) Some] .
        moreover have "at_path (JObj n) (k # ks) = at_path w ks" "at_path (JObj m) (k # ks) = at_path x ks"
          "at_path (JObj (merge_into m n)) (k # ks) = at_path (merge_val x w) ks"
          "ends_before (JObj n) (k # ks) \<longleftrightarrow> ends_before w ks"
          using ok(1) Some \<open>gm_get n k = Some w\<close> by (simp_all add: merge_into_lookup)
        ultimately show ?thesis unfolding mn merge_val_obj merged_at_def by (simp only:)
      qed
    qed
  next
    case False
    then have "merge_val e v = v" using merge_leaf [OF _ Cons.prems] by blast
    then show ?thesis using merged_at_new False by auto
  qed
qed

section \<open>The commands\<close>

definition json_at :: "int \<Rightarrow> db \<Rightarrow> string \<Rightarrow> json gomap option" where
  "json_at t sm k =
     (case visible t sm k of
        None \<Rightarrow> None
      | Some ob \<Rightarrow> if Kind ob = KJSON then (case unm_map (Value ob) of Some a \<Rightarrow> a | None \<Rightarrow> None) else None)"

lemma json_at_Some:
  "json_at t sm k = Some m \<longleftrightarrow>
     (\<exists>ob. visible t sm k = Some ob \<and> Kind ob = KJSON \<and> unm_map (Value ob) = Some (Some m))"
  by (auto simp: json_at_def split: option.splits)

lemma json_at_jokm: "json_at t sm k = Some m \<Longrightarrow> gm_ok m \<and> jokm (maxNestingDepth - 1) m"
  by (auto simp: json_at_Some dest: unm_map_jokm)

lemma json_at_earlier: "json_at t sm k = Some m \<Longrightarrow> s \<le> t \<Longrightarrow> json_at s sm k = Some m"
  by (auto simp: json_at_Some visible_def dest: live_mono)

lemma json_at_stored:
  "visible t sm k = Some (fresh_obj (MapToByte (Some m)) KJSON) \<Longrightarrow> gm_ok m \<Longrightarrow>
   jokm (maxNestingDepth - 1) m \<Longrightarrow> json_at t sm k = Some m"
  by (simp add: json_at_Some unm_MapToByte)

lemma Execute_json:
  "ToUpper (euni E) c = ''JSON.SET'' \<Longrightarrow> Execute E c args sm = jsonSetFunc E args sm"
  "ToUpper (euni E) c = ''JSON.ADD'' \<Longrightarrow> Execute E c args sm = jsonAddFunc E args sm"
  "ToUpper (euni E) c = ''JSON.GET'' \<Longrightarrow> Execute E c args sm = jsonGetFunc E args sm"
  "ToUpper (euni E) c = ''JSON.MERGE'' \<Longrightarrow> Execute E c args sm = jsonMergeFunc E args sm"
  "ToUpper (euni E) c = ''JSON.REMOVE'' \<Longrightarrow> Execute E c args sm = jsonRemoveFunc E args sm"
  "ToUpper (euni E) c = ''JSON.SETREF'' \<Longrightarrow> Execute E c args sm = jsonRefSetFunc E args sm"
  by (simp_all add: Execute_def ExecCommands_def)

text \<open>A path that runs into a value that is no object.\<close>

definition blocked :: "json gomap \<Rightarrow> string list \<Rightarrow> bool" where
  "blocked m ks \<longleftrightarrow> (\<exists>js x. strict_prefix js ks \<and> read_keys (Some m) js = Some x \<and> as_map x = None)"

lemma blocked_step:
  assumes "keys \<noteq> []"
  shows "blocked m (key # keys) \<longleftrightarrow>
    (case gm_get m key of
       None \<Rightarrow> False
     | Some x \<Rightarrow> (case x of JObj c \<Rightarrow> blocked c keys | JNilMap \<Rightarrow> False | _ \<Rightarrow> True))" (is "_ \<longleftrightarrow> ?r")
proof
  assume "blocked m (key # keys)"
  then obtain js x where j: "strict_prefix js (key # keys)" "read_keys (Some m) js = Some x" "as_map x = None"
    by (auto simp: blocked_def)
  then obtain js' where js: "js = key # js'" "strict_prefix js' keys" by (cases js) auto
  then show ?r
    using j(2,3) unfolding js(1) read_keys_Cons
    by (auto simp: blocked_def as_map_def split: option.splits if_splits json.splits)
next
  assume r: ?r
  then obtain x where x: "gm_get m key = Some x" by (auto split: option.splits)
  have one: "strict_prefix [key] (key # keys)" using assms by (cases keys) auto
  show "blocked m (key # keys)"
  proof (cases "\<exists>c. x = JObj c")
    case True
    then obtain c js y where "x = JObj c" "strict_prefix js keys" "read_keys (Some c) js = Some y" "as_map y = None"
      using r x by (auto simp: blocked_def)
    moreover from this have "js \<noteq> []" by (cases js) auto
    ultimately have "strict_prefix (key # js) (key # keys) \<and> read_keys (Some m) (key # js) = Some y \<and> as_map y = None"
      using x by (simp add: read_keys_Cons del: read_keys.simps)
    then show ?thesis unfolding blocked_def by blast
  next
    case False
    then have "read_keys (Some m) [key] = Some x \<and> as_map x = None"
      using r x by (cases x) (auto simp: map_lookup_def as_map_def)
    then show ?thesis using one unfolding blocked_def by blast
  qed
qed

lemma blocked_empty: "\<not> blocked [] ks"
  by (auto simp: blocked_def read_keys_empty)

lemma add_keys_blocked:
  "jokm d m \<Longrightarrow> (case add_keys m ks v of Ret _ \<Rightarrow> \<not> blocked m ks | Err _ \<Rightarrow> blocked m ks | Panic \<Rightarrow> False)"
proof (induction ks arbitrary: m d)
  case (Cons key keys)
  show ?case
  proof (cases "keys = []")
    case True
    have "\<not> blocked m [key]" by (auto simp: blocked_def strict_prefix_def prefix_Cons)
    with True show ?thesis by simp
  next
    case False
    have i: "case add_keys c keys v of Ret _ \<Rightarrow> \<not> blocked c keys | Err _ \<Rightarrow> blocked c keys | Panic \<Rightarrow> False"
      if "gm_get m key = Some (JObj c)" for c
      using Cons.IH jokm_get [OF Cons.prems that] by auto
    have n: "gm_get m key \<noteq> Some JNilMap" using jokm_get [OF Cons.prems, of key] by auto
    have e: "case add_keys [] keys v of Ret _ \<Rightarrow> True | Err _ \<Rightarrow> False | Panic \<Rightarrow> False"
      using Cons.IH [of d "[]"] blocked_empty by (simp split: outcome.splits)
    show ?thesis
      using False i n e
      by (auto simp: blocked_step as_map_def split: option.splits outcome.splits json.splits)
  qed
qed (simp add: blocked_def)

lemma jsonGet_effect:
  assumes "ready sm" and "IsValidKey k" and "json_at (now E) sm k = Some m" and "path \<noteq> []"
  shows "effect E sm (jsonGetFunc E [k, path] sm) (\<lambda>s. s)
    (Resp (ObjectToByte (or_nil (read_keys (Some m) (Split (CHR ''.'') path)))))"
  using assms
  by (auto simp: jsonGetFunc_def Let_def json_at_Some jsonReadNestedKey_def same_view_refl ObjectToByte_def
      intro!: effects)

lemma jsonAdd_effect:
  assumes "ready sm" and "IsValidKey k" and "json_at (now E) sm k = Some m"
  shows "effect E sm (jsonAddFunc E [k, path, v] sm)
    (case add_keys m (Split (CHR ''.'') path) (EnsureUnmarshal v) of
       Ret d \<Rightarrow> (\<lambda>s. s(k \<mapsto> fresh_obj (MapToByte (Some d)) KJSON)) | _ \<Rightarrow> (\<lambda>s. s))
    (case add_keys m (Split (CHR ''.'') path) (EnsureUnmarshal v) of
       Ret d \<Rightarrow> Resp (MapToByte (Some d)) | _ \<Rightarrow> Fail (PathError path))"
proof -
  have "jokm (maxNestingDepth - 1) m" using json_at_jokm [OF assms(3)] by simp
  then have "add_keys m (Split (CHR ''.'') path) (EnsureUnmarshal v) \<noteq> Panic"
    using add_keys_blocked [of _ m "Split (CHR ''.'') path" "EnsureUnmarshal v"] by auto
  then show ?thesis
    using assms
    by (auto simp: jsonAddFunc_def Let_def json_at_Some addNestedKey_def same_view_refl
        intro!: effects split: outcome.split)
qed

lemma jsonRemove_effect:
  assumes "ready sm" and "IsValidKey k" and "json_at (now E) sm k = Some m"
  shows "effect E sm (jsonRemoveFunc E [k, path] sm)
    (case remove_keys m (Split (CHR ''.'') path) of
       Some d \<Rightarrow> (\<lambda>s. s(k \<mapsto> fresh_obj (MapToByte (Some d)) KJSON)) | None \<Rightarrow> (\<lambda>s. s))
    (case remove_keys m (Split (CHR ''.'') path) of
       Some d \<Rightarrow> Resp (MapToByte (Some d)) | None \<Rightarrow> Fail (PathError path))"
  using assms
  by (auto simp: jsonRemoveFunc_def Let_def json_at_Some removeNestedKey_def same_view_refl
      intro!: effects split: option.split)

text \<open>Two paths that are the same, or lead to different places.\<close>

definition apart :: "string \<Rightarrow> string \<Rightarrow> bool" where
  "apart p q \<longleftrightarrow> \<not> prefix (Split (CHR ''.'') p) (Split (CHR ''.'') q) \<and>
     \<not> prefix (Split (CHR ''.'') q) (Split (CHR ''.'') p)"

text \<open>C26.  \<^verbatim>\<open>JSON.ADD\<close> on a document sets the value at its path, making the objects on the way, and
  leaves every other path alone: \<^verbatim>\<open>JSON.GET\<close> answers the new value at the path and what it answered
  before at any path that lies apart.  It fails, and changes nothing, only where the path runs
  into a value that is no object; it never panics.\<close>

theorem json_add_get:
  assumes "ready sm" and "IsValidKey k" and "json_at (now E') sm k = Some m" and "now E \<le> now E'"
    and "p \<noteq> []" and "q \<noteq> []" and "q = p \<or> apart p q"
    and "\<forall>s \<in> set (Split (CHR ''.'') p). valid_utf8 s" and "length (Split (CHR ''.'') p) \<le> maxNestingDepth"
    and "jok (maxNestingDepth - length (Split (CHR ''.'') p)) (EnsureUnmarshal v)"
    and "ToUpper (euni E) c = ''JSON.ADD''" and "ToUpper (euni E') g = ''JSON.GET''"
  shows "let r = Execute E c [k, p, v] sm in
    if blocked m (Split (CHR ''.'') p)
    then snd r = Fail (PathError p) \<and> visible (now E') (fst r) = visible (now E') sm
    else \<exists>d. snd r = Resp (MapToByte (Some d)) \<and> json_at (now E') (fst r) k = Some d \<and>
      snd (Execute E' g [k, q] (fst r)) =
        (if q = p then Resp (ObjectToByte (EnsureUnmarshal v)) else snd (Execute E' g [k, q] sm))"
proof -
  let ?r = "jsonAddFunc E [k, p, v] sm" and ?ks = "Split (CHR ''.'') p" and ?v = "EnsureUnmarshal v"
  have m: "json_at (now E) sm k = Some m" using json_at_earlier assms(3,4) .
  note e = jsonAdd_effect [OF assms(1,2) m, of p v] and ok = json_at_jokm [OF m]
  have b: "case add_keys m ?ks ?v of Ret _ \<Rightarrow> \<not> blocked m ?ks | Err _ \<Rightarrow> blocked m ?ks | Panic \<Rightarrow> False"
    by (rule add_keys_blocked [OF ok [THEN conjunct2]])
  show ?thesis
  proof (cases "add_keys m ?ks ?v")
    case (Ret d)
    have "Suc (maxNestingDepth - 1) = maxNestingDepth" by (simp add: maxNestingDepth_def)
    then have d: "gm_ok d" "jokm (maxNestingDepth - 1) d"
      using add_keys_jokm [OF Ret, of "maxNestingDepth - 1"] ok assms(8-10) by simp_all
    then have l: "json_at (now E') (fst ?r) k = Some d"
      using effectD(2) [OF e assms(4)] Ret by (intro json_at_stored) simp_all
    have "read_keys (Some d) (Split (CHR ''.'') q) =
        (if q = p then Some ?v else read_keys (Some m) (Split (CHR ''.'') q))"
      using read_add_same [OF Ret] read_add_other [OF Ret] assms(7) by (auto simp: apart_def)
    then show ?thesis
      using Ret b l effectD(3) [OF e] effectD(3) [OF jsonGet_effect [OF effectD(1) [OF e] assms(2) l assms(6)]]
        effectD(3) [OF jsonGet_effect [OF assms(1,2,3,6)]]
      by (auto simp: Execute_json assms(11,12) Let_def or_nil_def)
  qed (use b effectD(2) [OF e assms(4)] effectD(3) [OF e] in
      \<open>simp_all add: Execute_json assms(11) Let_def\<close>)
qed

text \<open>A document to try it on.\<close>

definition doc1 :: string where
  "doc1 = [CHR ''{'', CHR 0x22, CHR ''a'', CHR 0x22, CHR '':'', CHR 0x22, CHR ''x'', CHR 0x22, CHR ''}'']"

lemma doc1_facts:
  "unm_map doc1 = Some (Some [(''a'', JStr ''x'')])" "Valid doc1"
  "EnsureUnmarshal doc1 = JObj [(''a'', JStr ''x'')]" "valid_utf8 doc1"
  by code_simp+

lemma jsonSet_effect:
  "ready sm \<Longrightarrow> IsValidKey k \<Longrightarrow> Valid v \<Longrightarrow>
   effect E sm (jsonSetFunc E [k, v] sm) (\<lambda>m. m(k \<mapsto> fresh_obj v KJSON)) (Resp [])"
  by (auto simp: jsonSetFunc_def same_view_refl intro!: effects)

lemma doc1_stored:
  assumes "5 \<le> u"
  shows "ready (fst (Execute (env1 5) ''JSON.SET'' [''k'', doc1] db1))"
    and "json_at u (fst (Execute (env1 5) ''JSON.SET'' [''k'', doc1] db1)) ''k'' = Some [(''a'', JStr ''x'')]"
proof -
  have e: "effect (env1 5) db1 (Execute (env1 5) ''JSON.SET'' [''k'', doc1] db1)
      (\<lambda>m. m(''k'' \<mapsto> fresh_obj doc1 KJSON)) (Resp [])"
    using jsonSet_effect [OF db1_ready(1) _ doc1_facts(2), of "''k''" "env1 5"]
    by (simp add: IsValidKey_def Execute_json ToUpper_upper byte_of_def)
  show "ready (fst (Execute (env1 5) ''JSON.SET'' [''k'', doc1] db1))" using effectD(1) [OF e] .
  show "json_at u (fst (Execute (env1 5) ''JSON.SET'' [''k'', doc1] db1)) ''k'' = Some [(''a'', JStr ''x'')]"
    using effectD(2) [OF e, of u] assms by (simp add: json_at_Some doc1_facts(1))
qed

theorem json_add_get_witness:
  "\<exists>d. snd (Execute (env1 7) ''JSON.ADD'' [''k'', ''b.c'', ''y''] (fst (Execute (env1 5) ''JSON.SET'' [''k'', doc1] db1)))
    = Resp (MapToByte (Some d))"
proof -
  let ?sm = "fst (Execute (env1 5) ''JSON.SET'' [''k'', doc1] db1)"
  have s: "Split (CHR ''.'') ''b.c'' = [''b'', ''c'']" by code_simp
  have u: "valid_utf8 ''b''" "valid_utf8 ''c''" "EnsureUnmarshal ''y'' = JStr ''y''" "valid_utf8 ''y''" by code_simp+
  have "\<not> blocked [(''a'', JStr ''x'')] [''b'', ''c'']"
    by (simp add: blocked_step)
  then show ?thesis
    using json_add_get [of ?sm "''k''" "env1 9" _ "env1 7" "''b.c''" "''b.c''" "''y''" "''JSON.ADD''" "''JSON.GET''"]
      doc1_stored [of 9] u
    by (auto simp: s IsValidKey_def ToUpper_upper byte_of_def maxNestingDepth_def Let_def)
qed

text \<open>C27.  \<^verbatim>\<open>JSON.REMOVE\<close> takes away what is at its path and nothing else: the path then reads as empty,
  every path that lies apart as before; removing what is not there changes nothing.  (The help text of
  \<^verbatim>\<open>JSON.GET\<close> calls a path that does not exist an error; the code answers it with an empty response.)\<close>

theorem json_remove_get:
  assumes "ready sm" and "IsValidKey k" and "json_at (now E') sm k = Some m" and "now E \<le> now E'"
    and "p \<noteq> []" and "q \<noteq> []" and "q = p \<or> apart p q"
    and "remove_keys m (Split (CHR ''.'') p) = Some d"
    and "ToUpper (euni E) c = ''JSON.REMOVE''" and "ToUpper (euni E') g = ''JSON.GET''"
  shows "let r = Execute E c [k, p] sm in
    snd r = Resp (MapToByte (Some d)) \<and> json_at (now E') (fst r) k = Some d \<and>
    (read_keys (Some m) (Split (CHR ''.'') p) = None \<longrightarrow> d = m) \<and>
    snd (Execute E' g [k, q] (fst r)) = (if q = p then Resp [] else snd (Execute E' g [k, q] sm))"
proof -
  let ?r = "jsonRemoveFunc E [k, p] sm" and ?ks = "Split (CHR ''.'') p"
  have m: "json_at (now E) sm k = Some m" using json_at_earlier assms(3,4) .
  note e = jsonRemove_effect [OF assms(1,2) m, of p] and ok = json_at_jokm [OF m]
  have d: "gm_ok d" "jokm (maxNestingDepth - 1) d" using remove_keys_jokm [OF assms(8)] ok by blast+
  then have l: "json_at (now E') (fst ?r) k = Some d"
    using effectD(2) [OF e assms(4)] assms(8) by (intro json_at_stored) simp_all
  have "read_keys (Some d) (Split (CHR ''.'') q) =
      (if q = p then None else read_keys (Some m) (Split (CHR ''.'') q))"
    using read_remove_same [OF assms(8)] read_remove_other [OF assms(8)] assms(7) by (auto simp: apart_def)
  then show ?thesis
    using l assms(8) effectD(3) [OF e] effectD(3) [OF jsonGet_effect [OF effectD(1) [OF e] assms(2) l assms(6)]]
      effectD(3) [OF jsonGet_effect [OF assms(1,2,3,6)]] remove_absent [OF assms(8)] ok
    by (auto simp: Execute_json assms(9,10) Let_def or_nil_def ObjectToByte_def)
qed

theorem json_remove_get_witness:
  "snd (Execute (env1 9) ''JSON.GET'' [''k'', ''a'']
     (fst (Execute (env1 7) ''JSON.REMOVE'' [''k'', ''a''] (fst (Execute (env1 5) ''JSON.SET'' [''k'', doc1] db1))))) = Resp []"
proof -
  let ?sm = "fst (Execute (env1 5) ''JSON.SET'' [''k'', doc1] db1)"
  have "remove_keys [(''a'', JStr ''x'')] (Split (CHR ''.'') ''a'') = Some []" by code_simp
  then show ?thesis
    using json_remove_get [of ?sm "''k''" "env1 9" _ "env1 7" "''a''" "''a''" "[]" "''JSON.REMOVE''" "''JSON.GET''"]
      doc1_stored [of 9]
    by (simp add: IsValidKey_def ToUpper_upper byte_of_def Let_def)
qed

lemma jsonMerge_effect:
  assumes "ready sm" and "IsValidKey k" and "json_at (now E) sm k = Some m" and "EnsureUnmarshal v = JObj n"
  shows "effect E sm (jsonMergeFunc E [k, v] sm)
    (\<lambda>s. s(k \<mapsto> fresh_obj (MapToByte (Some (merge_into m n))) KJSON)) (Resp (MapToByte (Some (merge_into m n))))"
  using assms
  by (auto simp: jsonMergeFunc_def Let_def json_at_Some mergeObjects_def members_of_def as_map_def same_view_refl
      intro!: effects)

text \<open>C28.  \<^verbatim>\<open>JSON.MERGE\<close> of a document into another, path by path: what the new document has at a path
  replaces what the old one has there, \<^verbatim>\<open>null\<close> included, unless both are objects, which are merged; a path
  that the new document does not have keeps the value of the old one, unless the new one has a value that
  is no object on the way.  Merging the same document again changes nothing and answers the same.\<close>

theorem json_merge:
  assumes "ready sm" and "IsValidKey k" and "json_at (now E) sm k = Some m" and "now E \<le> now E'" and "now E' \<le> u"
    and "EnsureUnmarshal v = JObj n" and "valid_utf8 v"
    and "ToUpper (euni E) c = ''JSON.MERGE''" and "ToUpper (euni E') c' = ''JSON.MERGE''"
  shows "let r = Execute E c [k, v] sm; r' = Execute E' c' [k, v] (fst r) in
    (\<exists>d. snd r = Resp (MapToByte (Some d)) \<and> json_at (now E') (fst r) k = Some d \<and>
      (\<forall>p. case at_path (JObj n) p of
         Some w \<Rightarrow>
           if is_object w \<and> (\<exists>x. at_path (JObj m) p = Some x \<and> is_object x)
           then \<exists>y. at_path (JObj d) p = Some y \<and> is_object y
           else at_path (JObj d) p = Some w
       | None \<Rightarrow> at_path (JObj d) p = (if ends_before (JObj n) p then None else at_path (JObj m) p))) \<and>
    snd r' = snd r \<and> visible u (fst r') = visible u (fst r)"
proof -
  let ?d = "merge_into m n" and ?s = "fst (jsonMergeFunc E [k, v] sm)"
  have m: "jok maxNestingDepth (JObj m)" using json_at_jokm [OF assms(3)] by (simp add: maxNestingDepth_def)
  have n: "jok maxNestingDepth (JObj n)" using EnsureUnmarshal_jok [OF assms(7)] assms(6) by simp
  have d: "jok maxNestingDepth (JObj ?d)" using merge_jok [OF n m] unfolding merge_val_obj .
  have twice: "merge_into ?d n = ?d" using merge_twice [OF n m] unfolding merge_val_obj by simp
  note e = jsonMerge_effect [OF assms(1-3,6)]
  have l: "json_at (now E') ?s k = Some ?d"
    using effectD(2) [OF e assms(4)] d by (intro json_at_stored) simp_all
  note e' = jsonMerge_effect [OF effectD(1) [OF e] assms(2) l assms(6)]
  have "visible u (fst (jsonMergeFunc E' [k, v] ?s)) = visible u ?s"
    using effectD(2) [OF e' assms(5)] effectD(2) [OF e, of u] assms(4,5) twice by (auto simp: fun_eq_iff)
  moreover have "merged_at (JObj m) (JObj n) (JObj ?d) p" for p
    using merge_path [OF n m] unfolding merge_val_obj .
  ultimately show ?thesis
    using l effectD(3) [OF e] effectD(3) [OF e'] twice
    by (simp add: Execute_json assms(8,9) Let_def merged_at_def)
qed

theorem json_merge_witness:
  "let r = Execute (env1 7) ''JSON.MERGE'' [''k'', doc1] (fst (Execute (env1 5) ''JSON.SET'' [''k'', doc1] db1)) in
   snd (Execute (env1 9) ''JSON.MERGE'' [''k'', doc1] (fst r)) = snd r"
proof -
  let ?sm = "fst (Execute (env1 5) ''JSON.SET'' [''k'', doc1] db1)"
  have "ready ?sm" "json_at (now (env1 7)) ?sm ''k'' = Some [(''a'', JStr ''x'')]"
    using doc1_stored [of 7] by simp_all
  then show ?thesis
    using json_merge [of ?sm "''k''" "env1 7" _ "env1 9" 9 doc1 _ "''JSON.MERGE''" "''JSON.MERGE''",
        OF _ _ _ _ _ doc1_facts(3,4)]
    by (simp add: IsValidKey_def ToUpper_upper byte_of_def Let_def)
qed

end
