(* ===== verification/Typing.thy ===== *)
theory Typing
  imports Json_Laws
begin

text \<open>
  Kinds as types.  An object of kind list holds the text of a list, one of kind map the text of a
  map that is not null, one of kind number the text of a number (or nothing, for the numbers JSON
  cannot write).  Every command keeps this, and with it some panics of the code cannot happen.
\<close>

definition well_typed :: "object \<Rightarrow> bool" where
  "well_typed ob \<longleftrightarrow>
     (Kind ob = KList \<longrightarrow> unm_arr (Value ob) \<noteq> None) \<and>
     (Kind ob = KMap \<longrightarrow> (\<exists>m. unm_map (Value ob) = Some (Some m))) \<and>
     (Kind ob = KNumber \<longrightarrow> Value ob = [] \<or> ConvertToNumber (Value ob) \<noteq> None)"

definition typed :: "db \<Rightarrow> bool" where
  "typed sm \<longleftrightarrow> (\<forall>k ob. stored sm k = Some ob \<longrightarrow> well_typed ob)"

definition typed_out :: "db \<times> result \<Rightarrow> bool" where
  "typed_out p \<longleftrightarrow> ready (fst p) \<and> typed (fst p)"

section \<open>Rules\<close>

lemma well_typed_Timestamp [simp]: "well_typed (ob\<lparr>Timestamp := t\<rparr>) = well_typed ob"
  by (simp add: well_typed_def)

lemma well_typed_plain [simp]:
  "well_typed (fresh_obj v KDefault)" "well_typed (fresh_obj v KString)" "well_typed (fresh_obj v KJSON)"
  by (simp_all add: well_typed_def kind_defs)

lemma well_typed_list: "joks (maxNestingDepth - 1) vs \<Longrightarrow> well_typed (fresh_obj (SliceToByte (Some vs)) KList)"
  by (simp add: well_typed_def kind_defs unm_SliceToByte)

lemma well_typed_nil [simp]: "well_typed (fresh_obj (SliceToByte None) KList)"
  by (simp add: well_typed_def kind_defs)

lemma well_typed_map:
  "gm_ok m \<Longrightarrow> jokm (maxNestingDepth - 1) m \<Longrightarrow> well_typed (fresh_obj (MapToByte (Some m)) KMap)"
  by (simp add: well_typed_def kind_defs unm_MapToByte)

lemma well_typed_number:
  assumes "f64_ok x"
  shows "well_typed (fresh_obj (FloatToByte x) KNumber)"
proof (cases "fmt_json x")
  case None
  then show ?thesis by (simp add: well_typed_def kind_defs FloatToByte_def ObjectToByte_def)
next
  case (Some t)
  have "ConvertToNumber (FloatToByte neg_zero) \<noteq> None" by code_simp
  then have "ConvertToNumber (FloatToByte x) \<noteq> None"
    using ConvertToNumber_FloatToByte [OF assms] Some by (cases "x = neg_zero") auto
  then show ?thesis by (simp add: well_typed_def kind_defs)
qed

lemma typed_visible: "typed sm \<Longrightarrow> visible u sm k = Some ob \<Longrightarrow> well_typed ob"
  by (auto simp: typed_def visible_stored split: option.splits if_splits)

lemma typed_with_mem:
  assumes "ready sm" and "typed sm" and "\<And>j. j \<noteq> key \<Longrightarrow> gm_get m j = gm_get (mem_of sm key) j"
    and "\<And>ob. gm_get m key = Some ob \<Longrightarrow> well_typed ob"
  shows "typed (with_mem sm key m)"
  using assms stored_same_node [OF ready_wf [OF assms(1)], of key m]
  by (auto simp: typed_def split: if_splits)

lemma typed_log [simp]:
  "typed (fst (log_put E key ob sm r)) = typed sm" "typed (fst (log_del E key sm r)) = typed sm"
  by (simp_all add: typed_def)

lemma mem_typed: "typed sm \<Longrightarrow> gm_get (mem_of sm key) key = Some ob \<Longrightarrow> well_typed ob"
  by (auto simp: typed_def stored_def)

lemma ty_done: "ready sm \<Longrightarrow> typed sm \<Longrightarrow> typed_out (sm, r)"
  by (simp add: typed_out_def)

lemma ty_fetch:
  assumes "ready sm" and "typed sm"
    and "\<And>sm' ob. ready sm' \<Longrightarrow> typed sm' \<Longrightarrow> (\<And>x. ob = Some x \<Longrightarrow> well_typed x) \<Longrightarrow> typed_out (c sm' ob)"
  shows "typed_out (fetch E sm key c)"
proof -
  have "typed (fetched E sm key)"
    unfolding fetched_def
    by (rule typed_with_mem [OF assms(1,2) store_frame(1)])
      (use mem_typed [OF assms(2)] in \<open>auto simp: Get_def split: option.splits if_splits\<close>)
  then show ?thesis
    unfolding fetch_eq [OF ready_wf [OF assms(1)]]
    by (intro assms(3) fetched(1) assms(1)) (auto intro: typed_visible [OF assms(2)])
qed

lemma ty_upd:
  assumes "ready sm" and "typed sm" and "well_typed ob"
  shows "typed_out (log_put E key ob' (with_mem sm key (gm_upd key ob (mem_of sm key))) r)"
  using assms by (auto simp: typed_out_def intro!: typed_with_mem)

lemma ty_store:
  assumes "ready sm" and "typed sm" and "well_typed (fresh_obj v kd)"
  shows "typed_out (store E sm key v kd r)"
  using assms by (auto simp: store_def on_shard_wf Set_def intro!: ty_upd)

lemma ty_del:
  assumes "ready sm" and "typed sm"
  shows "typed (with_mem sm key (fst (Delete key (mem_of sm key))))"
  by (rule typed_with_mem [OF assms store_frame(4)])
    (use mem_typed [OF assms(2)] in \<open>auto simp: Delete_def split: if_splits\<close>)

lemma ty_erase:
  assumes "ready sm" and "typed sm"
  shows "typed_out (erase E sm key r)"
  using assms ty_del [OF assms] by (simp add: erase_def on_shard_wf typed_out_def)

lemmas ty_rules = ty_done ty_fetch ty_store ty_erase

section \<open>Every command keeps the types\<close>

lemma common_typed:
  assumes "ready sm" and "typed sm" and "in_i64 (now E)"
  shows "typed_out (setKey E args sm)" "typed_out (deleteKey E args sm)" "typed_out (ttlKey E args sm)"
    "typed_out (expireKey E args sm)"
proof -
  show "typed_out (setKey E args sm)" using assms by (auto simp: setKey_def Let_def intro!: ty_rules)
  show "typed_out (deleteKey E args sm)"
    using assms ty_del [OF assms(1,2), of "args ! 0"]
    by (auto simp: deleteKey_def Let_def on_shard_wf typed_out_def Delete_def)
  have t: "typed (with_mem sm key (fst (TTL (now E) key (mem_of sm key))))" for key
    by (rule typed_with_mem [OF assms(1,2) store_frame(5)])
      (use mem_typed [OF assms(2)] in \<open>auto simp: TTL_def split: option.splits if_splits\<close>)
  show "typed_out (ttlKey E args sm)"
  proof (cases "args = [] \<or> length args \<noteq> 1 \<or> \<not> IsValidKey (args ! 0)")
    case True
    then show ?thesis using assms by (auto simp: ttlKey_def Let_def intro!: ty_done)
  next
    case False
    then show ?thesis
      using assms t [of "args ! 0"] by (simp add: ttlKey_def Let_def on_shard_wf typed_out_def split_def)
  qed
  show "typed_out (expireKey E args sm)"
  proof (cases "length args = 2 \<and> IsValidKey (args ! 0) \<and> ParseDurationToSeconds (args ! 1) \<noteq> None")
    case False
    then show ?thesis using assms by (auto simp: expireKey_def Let_def intro!: ty_done split: option.split)
  next
    case True
    then obtain s where s: "ParseDurationToSeconds (args ! 1) = Some s" by blast
    have d: "typed_out (with_mem sm k (gm_del k (mem_of sm k)), r)" "typed_out (with_mem sm k (mem_of sm k), r)" for k r
      using assms mem_typed [OF assms(2)] by (auto simp: typed_out_def intro!: typed_with_mem)
    from True assms d mem_typed [OF assms(2)] show ?thesis
      by (auto simp: expireKey_eq [OF _ _ _ _ s] Let_def intro!: ty_upd split: option.split)
  qed
qed

lemma str_num_typed:
  assumes "ready sm" and "typed sm"
  shows "typed_out (strSetFunc E args sm)" "typed_out (strAppendFunc E args sm)"
    "typed_out (numberSetFunc E args sm)" "typed_out (numberIncrFunc E args sm)" "typed_out (numberDecrFunc E args sm)"
proof -
  have a: "f64_ok x" if "num_arg args = Some x" for x
    using that ConvertToNumber_ok f64_one_ok by (auto simp: num_arg_def split: if_splits)
  show "typed_out (strSetFunc E args sm)" "typed_out (strAppendFunc E args sm)"
    using assms by (auto simp: strSetFunc_def strAppendFunc_def Let_def intro!: ty_rules split: option.split)
  show "typed_out (numberSetFunc E args sm)"
    using assms by (auto simp: numberSetFunc_def Let_def intro!: ty_rules well_typed_number dest: ConvertToNumber_ok split: option.split)
  show "typed_out (numberIncrFunc E args sm)" "typed_out (numberDecrFunc E args sm)"
    using assms a ConvertToNumber_ok
    by (auto simp: numberIncrFunc_def numberDecrFunc_def Let_def
        intro!: ty_rules well_typed_number plus_ok minus_ok split: option.split)
qed

lemma elems_joks: "unm_arr t = Some a \<Longrightarrow> joks (maxNestingDepth - 1) (elems a)"
  by (cases a) (auto simp: elems_def dest: unm_arr_joks)

lemma append_args_typed:
  assumes "joks (maxNestingDepth - 1) (elems a)" and "\<forall>w \<in> set ws. fits w"
  shows "well_typed (fresh_obj (SliceToByte (append_args a ws)) KList)"
proof (cases "append_args a ws")
  case (Some vs)
  then have "joks (maxNestingDepth - 1) vs"
    using assms joks_fits [OF assms(2)] by (auto simp: append_args_def elems_def split: if_splits option.splits)
  with Some show ?thesis by (simp add: well_typed_list)
qed simp

lemma joks_update: "joks d vs \<Longrightarrow> jok d v \<Longrightarrow> joks d (vs[i := v])"
  using set_update_subset_insert [of vs i v] by (auto simp: joks_iff)

lemma joks_take: "joks d vs \<Longrightarrow> joks d (take n vs)"
  by (rule joks_sub) (auto dest: in_set_takeD)

lemma list_typed:
  assumes "ready sm" and "typed sm" and "\<forall>w \<in> set args. fits w"
  shows "typed_out (listSetFunc E args sm)" "typed_out (listPushFunc E args sm)" "typed_out (listPopFunc E args sm)"
    "typed_out (listISetFunc E args sm)" "typed_out (listGPopFunc E args sm)"
proof -
  have ws: "\<forall>w \<in> set (drop 1 args). fits w" using assms(3) by (auto dest: in_set_dropD)
  have w2: "jok (maxNestingDepth - 1) (EnsureUnmarshal (args ! 2))" if "length args = 3"
    using assms(3) that by (auto simp: fits_def)
  show "typed_out (listSetFunc E args sm)"
    using assms(1,2) append_args_typed [OF _ ws, of None]
    by (auto simp: listSetFunc_def Let_def elems_def intro!: ty_rules)
  show "typed_out (listPushFunc E args sm)"
    using assms(1,2) append_args_typed [OF _ ws] elems_joks
    by (auto simp: listPushFunc_def Let_def elems_def [of None] intro!: ty_rules split: option.split)
  show "typed_out (listPopFunc E args sm)"
    using assms(1,2) elems_joks
    by (auto simp: listPopFunc_def Let_def intro!: ty_rules well_typed_list joks_take split: option.split)
  show "typed_out (listISetFunc E args sm)"
    using assms(1,2) elems_joks w2
    by (auto simp: listISetFunc_def Let_def intro!: ty_rules well_typed_list joks_update split: option.split)
  show "typed_out (listGPopFunc E args sm)"
    using assms(1,2) elems_joks
    by (auto simp: listGPopFunc_def Let_def on_shard_wf Set_def intro!: ty_rules ty_upd well_typed_list joks_take
        split: option.split)
qed

lemma map_typed:
  assumes "ready sm" and "typed sm" and "\<forall>w \<in> set args. fits w"
  shows "typed_out (mapSetKey E args sm)" "typed_out (mapCSetKey E args sm)" "typed_out (mapDeleteKey E args sm)"
proof -
  have w: "jok (maxNestingDepth - 1) (EnsureUnmarshal (args ! 2))" "valid_utf8 (args ! 1)" if "length args = 3"
    using assms(3) that by (auto simp: fits_def)
  have one: "well_typed (fresh_obj (MapToByte (Some [(args ! 1, EnsureUnmarshal (args ! 2))])) KMap)" if "length args = 3"
    using w [OF that] by (intro well_typed_map) (simp_all add: gm_ok_Cons)
  have upd: "well_typed (fresh_obj (MapToByte (Some (gm_upd (args ! 1) (EnsureUnmarshal (args ! 2)) m))) KMap)"
    if "length args = 3" "unm_map t = Some (Some m)" for m t
    using w [OF that(1)] unm_map_jokm [OF that(2)] by (intro well_typed_map) (simp_all add: gm_upd_jokm)
  show "typed_out (mapSetKey E args sm)"
    using assms(1,2) one upd by (auto simp: mapSetKey_def Let_def intro!: ty_rules split: option.split)
  show "typed_out (mapCSetKey E args sm)"
    using assms(1,2) one ty_del [OF assms(1,2)]
    by (auto simp: mapCSetKey_def Let_def on_shard_wf intro!: ty_rules)
  have del: "well_typed (ob\<lparr>Value := MapToByte (Some (gm_del mk m))\<rparr>)"
    if "KMap = Kind ob" "unm_map (Value ob) = Some (Some m)" for ob m mk
    using unm_map_jokm [OF that(2)] that by (simp add: well_typed_def kind_defs unm_MapToByte MapToByte_del)
  have nil: "unm_map (Value ob) \<noteq> Some None" if "well_typed ob" "KMap = Kind ob" for ob
    using that by (auto simp: well_typed_def)
  show "typed_out (mapDeleteKey E args sm)"
    using assms(1,2)
    by (auto simp: mapDeleteKey_def Let_def on_shard_wf nil intro!: ty_rules ty_upd del split: option.split)
qed

lemma setref_typed:
  "ready sm \<Longrightarrow> typed sm \<Longrightarrow> (\<And>sm' m'. ready sm' \<Longrightarrow> typed sm' \<Longrightarrow> typed_out (k sm' m')) \<Longrightarrow>
   typed_out (setref_loop E sm m refs k)"
  by (induction refs arbitrary: sm m) (auto intro!: ty_rules split: option.split)

lemma json_typed:
  assumes "ready sm" and "typed sm"
  shows "typed_out (jsonSetFunc E args sm)" "typed_out (jsonAddFunc E args sm)" "typed_out (jsonMergeFunc E args sm)"
    "typed_out (jsonRemoveFunc E args sm)" "typed_out (jsonRefSetFunc E args sm)"
  using assms
  by (auto simp: jsonSetFunc_def jsonAddFunc_def jsonMergeFunc_def jsonRemoveFunc_def jsonRefSetFunc_def Let_def
      intro!: ty_rules setref_typed split: option.split outcome.split)

section \<open>Preservation and progress\<close>

interpretation type_inv: request_inv E "\<lambda>sm. in_i64 (now E) \<and> ready sm \<and> typed sm"
  "\<lambda>sm. ready sm \<and> typed sm" "\<lambda>_. False" "\<lambda>_. True" for E
proof unfold_locales
  fix sm key ob
  assume "in_i64 (now E) \<and> ready sm \<and> typed sm"
  then show "in_i64 (now E) \<and> ready (with_mem sm key (gm_del key (mem_of sm key))) \<and>
      typed (with_mem sm key (gm_del key (mem_of sm key)))"
    by (auto intro!: typed_with_mem)
qed simp_all

lemma Execute_typed:
  assumes "ready sm" and "typed sm" and "in_i64 (now E)" and "\<forall>w \<in> set args. fits w"
  shows "typed_out (Execute E c args sm)"
proof (cases "ToUpper (euni E) c \<in> set read_only")
  case True
  then show ?thesis using type_inv.read_J [of E sm c args] assms(1-3) by (simp add: typed_out_def)
next
  case no: False
  show ?thesis
  proof (cases "map_of ExecCommands (ToUpper (euni E) c)")
    case None
    then show ?thesis using assms by (simp add: Execute_def ty_done)
  next
    case (Some h)
    then have "(ToUpper (euni E) c, h) \<in> set ExecCommands" by (rule map_of_SomeD)
    then have "typed_out (h E args sm)"
      using no unfolding ExecCommands_def read_only_def
      by (auto simp: common_typed [OF assms(1-3)] str_num_typed [OF assms(1,2)] list_typed [OF assms(1,2,4)]
          map_typed [OF assms(1,2,4)] json_typed [OF assms(1,2)])
    with Some show ?thesis by (simp add: Execute_def)
  qed
qed

text \<open>The maps of a typed store are never nil, so writing into them cannot panic.\<close>

lemma fetch_progress:
  assumes "ready sm" and "typed sm"
    and "\<And>sm' ob. ready sm' \<Longrightarrow> (\<And>x. ob = Some x \<Longrightarrow> well_typed x) \<Longrightarrow> fine (c sm' ob)"
  shows "fine (fetch E sm key c)"
  by (rule fetch_no_crash [OF assms(1)]) (use typed_visible [OF assms(2)] assms(3) in blast)

lemma map_progress:
  assumes "ready sm" and "typed sm" and "length args < 2 \<or> args ! 1 \<noteq> []"
  shows "fine (mapSetKey E args sm)" "fine (mapCSetKey E args sm)" "fine (mapDeleteKey E args sm)"
    "fine (mapGetKey E args sm)"
proof -
  have i: "IsValidString mk \<longleftrightarrow> mk \<noteq> []" for mk by (auto simp: IsValidString_def)
  have n: "unm_map (Value ob) \<noteq> Some None" if "well_typed ob" "KMap = Kind ob" for ob
    using that by (auto simp: well_typed_def)
  show "fine (mapSetKey E args sm)"
    using assms n
    by (auto simp: mapSetKey_def Let_def i intro!: no_crash(1,2,3,5,6) fetch_progress split: option.split)
  show "fine (mapCSetKey E args sm)" "fine (mapDeleteKey E args sm)" "fine (mapGetKey E args sm)"
    using assms
    by (auto simp: mapCSetKey_def mapDeleteKey_def mapGetKey_def Let_def i on_shard_wf less_2_cases_iff
        intro!: no_crash split: option.split)
qed

lemma jsonAdd_progress:
  assumes "ready sm"
  shows "fine (jsonAddFunc E args sm)"
proof -
  have a: "addNestedKey mo path v \<noteq> Panic" if "unm_map t = Some mo" for mo path v t
    using that add_keys_blocked [of "maxNestingDepth - 1" "members_of mo" "Split (CHR ''.'') path" v] unm_map_jokm [of t]
    by (cases mo) (auto simp: addNestedKey_def members_of_def)
  have b: "addNestedKey None path v \<noteq> Panic" for path v
    using add_keys_blocked [of 0 "[]" "Split (CHR ''.'') path" v] by (auto simp: addNestedKey_def)
  show ?thesis
    using assms a b
    by (auto simp: jsonAddFunc_def Let_def intro!: no_crash split: option.split outcome.split)
qed

text \<open>A started server is typed.\<close>

lemma NewShardManager_typed: "0 < n \<Longrightarrow> typed (NewShardManager g (\<lambda>_. None) path aw n)"
  using NewShardManager_empty [of n g "\<lambda>_. None" path aw] by (simp add: typed_def empty_store_def)

text \<open>C6.  Kinds are types.  In a server that is ready and typed, a request whose arguments can be
  stored leaves every object, of every key, typed: the text of a list under kind list, of a map
  that is not null under kind map, of a number under kind number.  And typed requests make
  progress: the map commands with a field name, and \<^verbatim>\<open>JSON.ADD\<close> on any document, never panic.\<close>

theorem typed_Execute:
  assumes "ready sm" and "typed sm" and "in_i64 (now E)" and "\<forall>w \<in> set args. fits w"
  shows "ready (fst (Execute E c args sm)) \<and> typed (fst (Execute E c args sm)) \<and>
    (ToUpper (euni E) c \<in> set [''MAP.SET'', ''MAP.CSET'', ''MAP.DEL'', ''MAP.GET''] \<and>
       (length args < 2 \<or> args ! 1 \<noteq> []) \<or> ToUpper (euni E) c = ''JSON.ADD'' \<longrightarrow>
     snd (Execute E c args sm) \<noteq> Crash)"
  using Execute_typed [OF assms, of c] map_progress [OF assms(1,2), of args E] jsonAdd_progress [OF assms(1), of E args]
  by (auto simp: typed_out_def fine_def Execute_def ExecCommands_def)

theorem typed_Execute_witness:
  "typed (fst (Execute (env1 5) ''MAP.SET'' [''k'', ''f'', ''b''] db1)) \<and>
   snd (Execute (env1 5) ''MAP.SET'' [''k'', ''f'', ''b''] db1) \<noteq> Crash"
proof -
  have u: "ToUpper u ''MAP.SET'' = ''MAP.SET''" for u by (simp add: ToUpper_upper byte_of_def)
  have f: "fits ''k''" "fits ''f''" "fits ''b''"
    by (rule fits_plain; code_simp)+
  have "typed db1" by (simp add: db1_def NewShardManager_typed)
  then show ?thesis
    using typed_Execute [of db1 "env1 5" "[''k'', ''f'', ''b'']" "''MAP.SET''"] f
    by (simp add: in_i64_def u)
qed

end
