(* ===== verification/Config.thy ===== *)
theory Config
  imports Auth
begin

text \<open>
  \<^verbatim>\<open>src/config/config.go\<close>: the configuration and the merge of an override into the defaults,
  which also fills the user store.  The nested structs of the Go type are flattened into one
  record.  Reading the YAML file is not modelled.
\<close>

record config_user =
  cu_username :: string
  cu_password :: string
  cu_role :: string

record configuration =
  server_host :: string
  server_port :: int
  logging_level :: string
  logging_file :: string
  max_size_mb :: int
  eviction_policy :: string
  enable_auth :: bool
  auth_method :: string
  cusers :: "config_user list"
  persistence_enable :: bool
  persistence_path :: string
  after_write_count :: int
  shard_mode :: string
  shard_count :: int
  backup_enable :: bool
  interval_minutes :: int
  backup_dir :: string
  max_connections :: int
  timeout_seconds :: int
  strict_mode :: bool

datatype os = Unknown | MacOS | Linux | Windows

definition GetOS :: "string \<Rightarrow> os" where
  "GetOS goos =
     (if goos = ''darwin'' then MacOS else if goos = ''linux'' then Linux
      else if goos = ''windows'' then Windows else Unknown)"

text \<open>The three paths of the file, set together by \<^verbatim>\<open>SetConfigPath\<close>.\<close>

record config_paths =
  CONFIG_PATH_MAC_OS :: string
  CONFIG_PATH_LINUX :: string
  CONFIG_PATH_WINDOWS :: string

definition default_paths :: config_paths where
  "default_paths =
     \<lparr>CONFIG_PATH_MAC_OS = ''/etc/fleare/config.yaml'', CONFIG_PATH_LINUX = ''/etc/fleare/config.yaml'',
      CONFIG_PATH_WINDOWS = ''/etc/fleare/config.yaml''\<rparr>"

definition GetConfigPath :: "string \<Rightarrow> config_paths \<Rightarrow> string" where
  "GetConfigPath goos ps =
     (case GetOS goos of
        MacOS \<Rightarrow> CONFIG_PATH_MAC_OS ps
      | Linux \<Rightarrow> CONFIG_PATH_LINUX ps
      | Windows \<Rightarrow> CONFIG_PATH_WINDOWS ps
      | Unknown \<Rightarrow> CONFIG_PATH_LINUX ps)"

definition SetConfigPath :: "string \<Rightarrow> config_paths" where
  "SetConfigPath path =
     \<lparr>CONFIG_PATH_MAC_OS = path, CONFIG_PATH_LINUX = path, CONFIG_PATH_WINDOWS = path\<rparr>"

definition or_str :: "string \<Rightarrow> string \<Rightarrow> string" where
  "or_str over dflt = (if over \<noteq> [] then over else dflt)"

definition or_int :: "int \<Rightarrow> int \<Rightarrow> int" where
  "or_int over dflt = (if over \<noteq> 0 then over else dflt)"

definition or_bool :: "bool \<Rightarrow> bool \<Rightarrow> bool" where
  "or_bool over dflt = (if over then over else dflt)"

definition add_users :: "config_user list \<Rightarrow> users \<Rightarrow> users" where
  "add_users cus us = fold (\<lambda>u us. fst (AddUser (cu_username u) (cu_password u) (cu_role u) us)) cus us"

text \<open>\<open>None\<close> is \<^verbatim>\<open>log.Fatal\<close>: no root user.\<close>

definition MergeConfigs ::
  "configuration \<Rightarrow> configuration \<Rightarrow> users \<Rightarrow> (configuration \<times> users) option" where
  "MergeConfigs defaultConfig overrideConfig us =
     (let d = defaultConfig; v = overrideConfig;
          d = d\<lparr>server_host := or_str (server_host v) (server_host d),
                server_port := or_int (server_port v) (server_port d)\<rparr>;
          d = d\<lparr>logging_level := or_str (logging_level v) (logging_level d),
                logging_file := or_str (logging_file v) (logging_file d)\<rparr>;
          d = d\<lparr>max_size_mb := or_int (max_size_mb v) (max_size_mb d),
                eviction_policy := or_str (eviction_policy v) (eviction_policy d)\<rparr>;
          d = d\<lparr>enable_auth := or_bool (enable_auth v) (enable_auth d),
                auth_method := or_str (auth_method v) (auth_method d),
                cusers := (if 0 < length (cusers v) then cusers v else cusers d)\<rparr>;
          isRootFound = list_ex (\<lambda>u. cu_username u = ''root'') (cusers d);
          us = add_users (cusers d) us
      in if \<not> isRootFound then None
         else
           let d = d\<lparr>persistence_enable := or_bool (persistence_enable v) (persistence_enable d),
                     persistence_path := or_str (persistence_path v) (persistence_path d),
                     after_write_count := or_int (after_write_count v) (after_write_count d)\<rparr>;
               d = d\<lparr>backup_enable := or_bool (backup_enable v) (backup_enable d),
                     interval_minutes := or_int (interval_minutes v) (interval_minutes d),
                     backup_dir := or_str (backup_dir v) (backup_dir d)\<rparr>;
               d = d\<lparr>max_connections := or_int (max_connections v) (max_connections d),
                     timeout_seconds := or_int (timeout_seconds v) (timeout_seconds d)\<rparr>;
               d = d\<lparr>strict_mode := strict_mode v\<rparr>
           in Some (d, us))"

section \<open>Lemmas\<close>

text \<open>The user store after a merge: the last user of a name wins.\<close>

lemma add_users_lookup:
  "gm_get (add_users cus us) =
   gm_get us ++ map_of (rev (map (\<lambda>u. (cu_username u,
     \<lparr>Username = cu_username u, Password = cu_password u, Role = cu_role u\<rparr>)) cus))"
  by (induction cus arbitrary: us)
    (auto simp: add_users_def AddUser_def Let_def map_add_def fun_eq_iff split: option.split)

lemma MergeConfigs_root:
  assumes "MergeConfigs d v us = Some (d', us')"
  shows "\<exists>u. gm_get us' ''root'' = Some u"
proof -
  let ?f = "\<lambda>u. (cu_username u, \<lparr>Username = cu_username u, Password = cu_password u, Role = cu_role u\<rparr>)"
  define cus where "cus = (if 0 < length (cusers v) then cusers v else cusers d)"
  have "list_ex (\<lambda>u. cu_username u = ''root'') cus" and us: "us' = add_users cus us"
    using assms by (auto simp: MergeConfigs_def Let_def cus_def split: if_splits)
  then have "''root'' \<in> fst ` set (rev (map ?f cus))" by (force simp: list_ex_iff)
  then have "map_of (rev (map ?f cus)) ''root'' \<noteq> None" by (simp add: map_of_eq_None_iff)
  then show ?thesis by (auto simp: us add_users_lookup map_add_Some_iff)
qed

end
