(* ===== verification/Server.thy ===== *)
theory Server
  imports Commander Config
begin

text \<open>
  \<^verbatim>\<open>src/server/\<close>: the framing of messages on a connection (\<^verbatim>\<open>netcon.go\<close>, \<^verbatim>\<open>authentication.go\<close>), the
  handling of a request (\<^verbatim>\<open>OnTraffic\<close>), the registries of connections (\<^verbatim>\<open>io_thread_manager.go\<close>)
  and of threads (\<^verbatim>\<open>src/internal/io-manager/\<close>).  What a connection still has to give is the list of what
  the successive reads of it return; its end is the end of the stream.  A read returns what has arrived by
  then: a part of a message, or several messages at once, however they were sent.  Sockets and polling are
  not modelled, errors of a read other than the end of the stream neither; the decoding of a request
  is a parameter.
\<close>

section \<open>Framing\<close>

definition MaxRequestBodySize :: nat where "MaxRequestBodySize = 10485760"
definition IoBufferSize :: nat where "IoBufferSize = 1048576"

datatype read_error = EOF | UnexpectedEOF | InvalidLength

text \<open>
  \<^verbatim>\<open>io.ReadFull\<close> of \<open>n\<close> bytes through a \<^verbatim>\<open>bufio.Reader\<close> of size \<open>sz\<close> that holds \<open>buf\<close>: the buffer is
  used up first; a request of at least its size goes to the connection directly; otherwise one
  read of the connection fills it.  An element of \<open>cs\<close> is what one read returns; of one that is longer than
  what is asked for the read takes a part, and the next read the rest.  The result is the bytes, what the
  buffer still holds and what the connection still has.  With \<open>sz = 0\<close> this is a loop of plain reads.
\<close>

function read_full ::
  "nat \<Rightarrow> nat \<Rightarrow> bytes \<Rightarrow> bytes \<Rightarrow> bytes list \<Rightarrow> (read_error + bytes) \<times> bytes \<times> bytes list" where
  "read_full sz n acc buf cs =
     (if n = 0 then (Inr acc, buf, cs)
      else if buf \<noteq> [] then
        read_full sz (n - min n (length buf)) (acc @ take n buf) (drop n buf) cs
      else case cs of
        [] \<Rightarrow> (Inl (if acc = [] then EOF else UnexpectedEOF), [], [])
      | c # cs' \<Rightarrow>
          if sz \<le> n then
            read_full sz (n - min n (length c)) (acc @ take n c) []
              (if length c \<le> n then cs' else drop n c # cs')
          else
            read_full sz n acc (take sz c) (if length c \<le> sz then cs' else drop sz c # cs'))"
  by auto
termination
  by (relation "measures [\<lambda>(sz, n, acc, buf, cs). n, \<lambda>(sz, n, acc, buf, cs). length (concat cs) + length cs]")
    (auto simp: min_def)

declare read_full.simps [simp del]

text \<open>\<^verbatim>\<open>ReadSync\<close> makes a new reader for every request: what it holds at the end is lost.\<close>

definition ReadSync :: "bytes list \<Rightarrow> (read_error + bytes) \<times> bytes list" where
  "ReadSync cs =
     (case read_full IoBufferSize 4 [] [] cs of
        (Inl e, _, cs1) \<Rightarrow> (Inl e, cs1)
      | (Inr lenBuf, buf, cs1) \<Rightarrow>
          let len = unat (Uint32 lenBuf) in
          if len = 0 \<or> MaxRequestBodySize < len then (Inl InvalidLength, cs1)
          else case read_full IoBufferSize len [] buf cs1 of
            (r, _, cs2) \<Rightarrow> (r, cs2))"

definition frame :: "bytes \<Rightarrow> bytes" where
  "frame data = PutUint32 (of_nat (length data)) @ data"

text \<open>Authentication reads the socket without a buffer.\<close>

datatype auth_read = EmptyAuth | BadAuthData | BadAuthFormat | BadAuthArgs
  | AuthDenied auth_error

definition ReadAuth :: "bytes list \<Rightarrow> (auth_read + bytes) \<times> bytes list" where
  "ReadAuth cs =
     (case read_full 0 4 [] [] cs of
        (Inl e, _, cs1) \<Rightarrow> (Inl EmptyAuth, cs1)
      | (Inr lenBuf, _, cs1) \<Rightarrow>
          let len = unat (Uint32 lenBuf) in
          if len = 0 \<or> MaxRequestBodySize < len then (Inl BadAuthData, cs1)
          else case read_full 0 len [] [] cs1 of
            (Inl e, _, cs2) \<Rightarrow> (Inl EmptyAuth, cs2)
          | (Inr msg, _, cs2) \<Rightarrow> (Inr msg, cs2))"

text \<open>\<^verbatim>\<open>AuthenticateClient\<close>; \<open>decode\<close> is \<^verbatim>\<open>proto.Unmarshal\<close> into a \<^verbatim>\<open>comm.Command\<close>.\<close>

definition AuthenticateClient ::
  "(bytes \<Rightarrow> (string \<times> string list) option) \<Rightarrow> bool \<Rightarrow> int \<Rightarrow> users \<Rightarrow> string \<Rightarrow> bytes list \<Rightarrow> sessions
    \<Rightarrow> sessions \<times> (auth_read + bool) \<times> bytes list" where
  "AuthenticateClient decode enableAuth t us clientID cs ss =
     (case ReadAuth cs of
        (Inl e, cs1) \<Rightarrow> (ss, Inl e, cs1)
      | (Inr msg, cs1) \<Rightarrow>
          (case decode msg of
             None \<Rightarrow> (ss, Inl BadAuthFormat, cs1)
           | Some (_, args) \<Rightarrow>
               if length args = 0 then
                 (case RequestAuth enableAuth t us [] [] clientID ss of
                    (ss', r) \<Rightarrow> (ss', map_sum AuthDenied id r, cs1))
               else if length args \<noteq> 2 then (ss, Inl BadAuthArgs, cs1)
               else (case RequestAuth enableAuth t us (args ! 0) (args ! 1) clientID ss of
                    (ss', r) \<Rightarrow> (ss', map_sum AuthDenied id r, cs1))))"

definition GenerateUniqueClientID :: "int \<Rightarrow> string \<Rightarrow> string" where
  "GenerateUniqueClientID clientFD clientAddr = Itoa clientFD @ ''-'' @ clientAddr"

definition OnDisconnect :: "string \<Rightarrow> sessions \<Rightarrow> sessions" where
  "OnDisconnect clientID ss = ExpireById clientID ss"

section \<open>A request\<close>

definition STATUS_SUCCESS :: string where "STATUS_SUCCESS = ''Ok''"
definition STATUS_ERROR :: string where "STATUS_ERROR = ''Error''"

text \<open>A field that is not set is empty.\<close>

record response =
  rclient :: string
  rstatus :: string
  rresult :: bytes

text \<open>The commands whose handlers put the identity of the client into their response; the others leave
  it out.\<close>

definition names_client :: "string list" where
  "names_client = [''EXISTS'', ''PING'', ''SESSION'', ''STATUS'', ''TTL'', ''TTL.EXPIRE'', ''STR.SET'', ''STR.GET'',
     ''STR.APPEND'', ''STR.LENGTH'', ''STR.RANGE'', ''NUM.SET'', ''NUM.GET'', ''NUM.INCR'', ''NUM.DECR'']"

text \<open>\<open>jm\<close> is the message of an error of \<^verbatim>\<open>encoding/json\<close>, \<open>pm\<close> that of a path.\<close>

definition error_text :: "string \<Rightarrow> cmd_error \<Rightarrow> string" where
  "error_text jm e =
     (case e of
        CmdError c msg \<Rightarrow> c @ '': '' @ msg
      | JsonError c \<Rightarrow> c @ '': '' @ jm
      | UnknownCommand c \<Rightarrow>
          ''InvalidCommandError: The system could not process your request due to an unrecognized command input''
          @ '' -> '' @ [quote_ch] @ c @ [quote_ch]
      | NoSession i \<Rightarrow> ''session not found for client ID: '' @ i
      | PathError p \<Rightarrow> ''invalid path: '' @ p)"

text \<open>\<^verbatim>\<open>OnTraffic\<close>; no response means that the handler panicked, which ends the process.  An error response
  names the client; a result is what the handler has built, with the status set.\<close>

definition OnTraffic ::
  "(bytes \<Rightarrow> (string \<times> string list) option) \<Rightarrow> string \<Rightarrow> string \<Rightarrow> env \<Rightarrow> bytes \<Rightarrow> db
    \<Rightarrow> db \<times> response option" where
  "OnTraffic decode dm jm E data sm =
     (case decode data of
        None \<Rightarrow>
          (sm, Some \<lparr>rclient = ClientID E, rstatus = STATUS_ERROR,
                     rresult = ''invalid command format: '' @ dm @ [CHR 0x0A]\<rparr>)
      | Some (command, args) \<Rightarrow>
          (case Execute E command args sm of
             (sm', Fail e) \<Rightarrow>
               (sm', Some \<lparr>rclient = ClientID E, rstatus = STATUS_ERROR, rresult = error_text jm e @ [CHR 0x0A]\<rparr>)
           | (sm', Resp d) \<Rightarrow>
               (sm', Some \<lparr>rclient = (if ToUpper (euni E) command \<in> set names_client then ClientID E else []),
                           rstatus = STATUS_SUCCESS, rresult = d\<rparr>)
           | (sm', Crash) \<Rightarrow> (sm', None)))"

section \<open>The registry of connections\<close>

record ioThread =
  ioClientID :: string
  iofd :: int
  iodup :: int
  ioclosed :: bool

record ioThreadManager =
  connectedClients :: "ioThread gomap"
  numIOThreads :: "32 word"

datatype io_error = ErrMaxClientsReached | ErrIOThreadNotFound | ErrClosed | ErrBadDescriptor

definition NewIOThreadManager :: ioThreadManager where
  "NewIOThreadManager = \<lparr>connectedClients = [], numIOThreads = 0\<rparr>"

text \<open>A connection has two descriptors, that of the accepted socket (\<^verbatim>\<open>file\<close>) and its duplicate, over which
  the requests go (\<^verbatim>\<open>conn\<close>).  \<^verbatim>\<open>Stop\<close> closes the duplicate and then the other, and returns the errors of
  both: closing twice is one, and so is a descriptor that is not open any more, because somebody else
  has closed its number (EBADF).  \<open>isopen\<close> tells which descriptors of the process are open.\<close>

definition Stop :: "(int \<Rightarrow> bool) \<Rightarrow> ioThread \<Rightarrow> ioThread \<times> io_error option" where
  "Stop isopen t =
     (t\<lparr>ioclosed := True\<rparr>,
      if ioclosed t then Some ErrClosed
      else if isopen (iodup t) \<and> iofd t \<noteq> iodup t \<and> isopen (iofd t) then None
      else Some ErrBadDescriptor)"

definition RegisterIO :: "ioThread \<Rightarrow> ioThreadManager \<Rightarrow> ioThreadManager \<times> io_error option" where
  "RegisterIO t m =
     (if 100000 \<le> numIOThreads m then (m, Some ErrMaxClientsReached)
      else (m\<lparr>connectedClients := gm_upd (ioClientID t) t (connectedClients m),
              numIOThreads := numIOThreads m + 1\<rparr>, None))"

text \<open>The count goes down only when \<^verbatim>\<open>Stop\<close> succeeds.\<close>

definition UnregisterIO ::
  "(int \<Rightarrow> bool) \<Rightarrow> string \<Rightarrow> ioThreadManager \<Rightarrow> ioThreadManager \<times> io_error option" where
  "UnregisterIO isopen i m =
     (case gm_get (connectedClients m) i of
        None \<Rightarrow> (m, Some ErrIOThreadNotFound)
      | Some w \<Rightarrow>
          let m1 = m\<lparr>connectedClients := gm_del i (connectedClients m)\<rparr> in
          (case Stop isopen w of
             (_, Some e) \<Rightarrow> (m1, Some e)
           | (_, None) \<Rightarrow> (m1\<lparr>numIOThreads := numIOThreads m1 + (- 1)\<rparr>, None)))"

definition GetThread :: "string \<Rightarrow> ioThreadManager \<Rightarrow> io_error + ioThread" where
  "GetThread i m =
     (case gm_get (connectedClients m) i of Some t \<Rightarrow> Inr t | None \<Rightarrow> Inl ErrIOThreadNotFound)"

text \<open>The errors of \<^verbatim>\<open>Stop\<close> are dropped.\<close>

definition StopAll :: "(int \<Rightarrow> bool) \<Rightarrow> ioThreadManager \<Rightarrow> ioThreadManager" where
  "StopAll isopen m =
     m\<lparr>connectedClients := map (apsnd (fst \<circ> Stop isopen)) (connectedClients m), numIOThreads := 0\<rparr>"

section \<open>The registry of threads\<close>

text \<open>\<open>threads\<close> tells of each running thread whether it has been cancelled; the \<^verbatim>\<open>int32\<close> count is an
  \<open>int\<close>.\<close>

record threadManager =
  threads :: "bool gomap"
  active :: int
  tm_cancelled :: bool

definition NewThreadManager :: threadManager where
  "NewThreadManager = \<lparr>threads = [], active = 0, tm_cancelled = False\<rparr>"

text \<open>\<^verbatim>\<open>Go\<close>: a name in use is refused.  A thread of a cancelled manager starts cancelled.\<close>

definition GoThread :: "string \<Rightarrow> threadManager \<Rightarrow> threadManager \<times> bool" where
  "GoThread i m =
     (if gm_get (threads m) i \<noteq> None then (m, False)
      else (m\<lparr>threads := gm_upd i (tm_cancelled m) (threads m), active := active m + 1\<rparr>, True))"

definition FinishThread :: "string \<Rightarrow> threadManager \<Rightarrow> threadManager" where
  "FinishThread i m = m\<lparr>threads := gm_del i (threads m), active := active m - 1\<rparr>"

definition CloseThread :: "string \<Rightarrow> threadManager \<Rightarrow> threadManager" where
  "CloseThread i m =
     (case gm_get (threads m) i of
        Some _ \<Rightarrow> m\<lparr>threads := gm_upd i True (threads m)\<rparr> | None \<Rightarrow> m)"

definition CancelAll :: "threadManager \<Rightarrow> threadManager" where
  "CancelAll m = m\<lparr>tm_cancelled := True, threads := map (apsnd (\<lambda>_. True)) (threads m)\<rparr>"

inductive tm_step :: "threadManager \<Rightarrow> threadManager \<Rightarrow> bool" where
  go: "tm_step m (fst (GoThread i m))"
| finish: "gm_get (threads m) i \<noteq> None \<Longrightarrow> tm_step m (FinishThread i m)"
| close: "tm_step m (CloseThread i m)"
| cancel: "tm_step m (CancelAll m)"

inductive tm_reach :: "threadManager \<Rightarrow> bool" where
  start: "tm_reach NewThreadManager"
| step: "tm_reach m \<Longrightarrow> tm_step m m' \<Longrightarrow> tm_reach m'"

definition tm_ok :: "threadManager \<Rightarrow> bool" where
  "tm_ok m \<longleftrightarrow> gm_ok (threads m) \<and> active m = int (length (threads m)) \<and>
     (tm_cancelled m \<longrightarrow> (\<forall>i c. gm_get (threads m) i = Some c \<longrightarrow> c))"

section \<open>Lemmas on framing\<close>

lemma drop_take_drop: "n \<le> sz \<Longrightarrow> sz \<le> length c \<Longrightarrow> drop n (take sz c) @ drop sz c = drop n c"
  by (metis append_take_drop_id diff_is_0_eq' drop_0 drop_append length_take min.absorb2)

lemma read_full_ok:
  "n \<le> length (buf @ concat cs) \<Longrightarrow>
   \<exists>buf' cs'. read_full sz n acc buf (cs @ rest) = (Inr (acc @ take n (buf @ concat cs)), buf', cs' @ rest) \<and>
     buf' @ concat cs' = drop n (buf @ concat cs) \<and> length buf' \<le> max (length buf) sz"
proof (induction sz n acc buf cs rule: read_full.induct)
  case (1 sz n acc buf cs)
  consider "n = 0" | "n \<noteq> 0" "buf \<noteq> []" | "n \<noteq> 0" "buf = []" by blast
  then show ?case
  proof cases
    case 1
    then show ?thesis by (subst read_full.simps) auto
  next
    case 2
    have "n - min n (length buf) \<le> length (drop n buf @ concat cs)"
      using "1.prems" by (auto simp: min_def)
    from "1.IH"(1) [OF 2 this] 2 show ?thesis
      by (subst read_full.simps) (auto simp: min_def split: if_splits)
  next
    case 3
    then obtain c cs' where cs: "cs = c # cs'" using "1.prems" by (cases cs) auto
    show ?thesis
    proof (cases "sz \<le> n")
      case True
      have "n - min n (length c) \<le> length ([] @ concat (if length c \<le> n then cs' else drop n c # cs'))"
        using "1.prems" 3 cs by (auto simp: min_def)
      from "1.IH"(2) [OF 3(1) _ cs True this] 3 cs True show ?thesis
        by (subst read_full.simps) (auto simp: min_def split: if_splits)
    next
      case False
      have "n \<le> length (take sz c @ concat (if length c \<le> sz then cs' else drop sz c # cs'))"
        using "1.prems" 3 cs by auto
      from "1.IH"(3) [OF 3(1) _ cs False this] 3 cs False show ?thesis
        by (subst read_full.simps) (auto simp: drop_take_drop split: if_splits)
    qed
  qed
qed

lemma read_full_length:
  "read_full sz n acc buf cs = (Inr r, buf', cs') \<Longrightarrow>
   n + length (buf' @ concat cs') = length (buf @ concat cs)"
proof (induction sz n acc buf cs rule: read_full.induct)
  case (1 sz n acc buf cs)
  consider "n = 0" | "n \<noteq> 0" "buf \<noteq> []" | "n \<noteq> 0" "buf = []" by blast
  then show ?case
  proof cases
    case 1
    with "1.prems" show ?thesis by (subst (asm) read_full.simps) simp
  next
    case 2
    with "1.prems" have "read_full sz (n - min n (length buf)) (acc @ take n buf) (drop n buf) cs = (Inr r, buf', cs')"
      by (subst (asm) read_full.simps) simp
    from "1.IH"(1) [OF 2 this] show ?thesis by auto
  next
    case 3
    then obtain c ds where cs: "cs = c # ds" using "1.prems" by (subst (asm) read_full.simps) (auto split: list.splits)
    show ?thesis
    proof (cases "sz \<le> n")
      case True
      with "1.prems" 3 cs have "read_full sz (n - min n (length c)) (acc @ take n c) []
          (if length c \<le> n then ds else drop n c # ds) = (Inr r, buf', cs')"
        by (subst (asm) read_full.simps) simp
      from "1.IH"(2) [OF 3(1) _ cs True this] 3 cs show ?thesis by (auto split: if_splits)
    next
      case False
      with "1.prems" 3 cs have "read_full sz n acc (take sz c)
          (if length c \<le> sz then ds else drop sz c # ds) = (Inr r, buf', cs')"
        by (subst (asm) read_full.simps) simp
      from "1.IH"(3) [OF 3(1) _ cs False this] 3 cs show ?thesis by (auto split: if_splits)
    qed
  qed
qed

text \<open>A request takes at least five bytes.\<close>

lemma ReadSync_length:
  assumes "ReadSync cs = (Inr d, cs')"
  shows "length (concat cs') < length (concat cs)"
proof -
  obtain h buf cs1 where 1: "read_full IoBufferSize 4 [] [] cs = (Inr h, buf, cs1)"
    using assms by (cases "fst (read_full IoBufferSize 4 [] [] cs)")
      (auto simp: ReadSync_def split: prod.splits)
  then obtain n buf' where "read_full IoBufferSize n [] buf cs1 = (Inr d, buf', cs')"
    using assms by (auto simp: ReadSync_def Let_def split: prod.splits if_splits)
  from read_full_length [OF 1] read_full_length [OF this] show ?thesis by simp
qed

lemma tm_step_ok:
  assumes "tm_step m m'" and "tm_ok m"
  shows "tm_ok m'"
  using assms(1)
proof cases
  case (go i)
  with assms(2) show ?thesis by (auto simp: tm_ok_def GoThread_def length_gm_upd_new)
next
  case (finish i)
  then show ?thesis
    using assms(2) length_gm_del_old [of "threads m" i] by (auto simp: tm_ok_def FinishThread_def)
next
  case (close i)
  with assms(2) show ?thesis
    by (auto simp: tm_ok_def CloseThread_def length_gm_upd_old split: option.split)
next
  case cancel
  with assms(2) show ?thesis by (auto simp: tm_ok_def CancelAll_def map_of_apsnd)
qed

lemma tm_reach_ok: "tm_reach m \<Longrightarrow> tm_ok m"
proof (induction rule: tm_reach.induct)
  case start
  show ?case by (simp add: tm_ok_def NewThreadManager_def)
qed (rule tm_step_ok)

section \<open>Lemmas on connections\<close>

text \<open>The counter counts at least the registered connections while every one of them is open and no identity
  is registered twice; it counts a connection for ever that could not be stopped.\<close>

definition io_ok :: "ioThreadManager \<Rightarrow> bool" where
  "io_ok m \<longleftrightarrow> gm_ok (connectedClients m) \<and> length (connectedClients m) \<le> unat (numIOThreads m) \<and>
     (\<forall>i t. gm_get (connectedClients m) i = Some t \<longrightarrow> \<not> ioclosed t) \<and> unat (numIOThreads m) \<le> 100000"

definition surplus :: "ioThreadManager \<Rightarrow> int" where
  "surplus m = int (unat (numIOThreads m)) - int (length (connectedClients m))"

lemma Register_ok:
  assumes "io_ok m" and "gm_get (connectedClients m) (ioClientID t) = None" and "\<not> ioclosed t"
  shows "io_ok (fst (RegisterIO t m)) \<and> surplus (fst (RegisterIO t m)) = surplus m \<and>
    (snd (RegisterIO t m) = Some ErrMaxClientsReached \<longleftrightarrow> unat (numIOThreads m) = 100000)"
proof (cases "100000 \<le> numIOThreads m")
  case True
  then have "unat (100000 :: 32 word) \<le> unat (numIOThreads m)" by (simp add: word_le_nat_alt)
  then show ?thesis using True assms(1) by (simp add: RegisterIO_def io_ok_def)
next
  case False
  then have l: "unat (numIOThreads m) < 100000" by (simp add: word_less_nat_alt not_le)
  then have "unat (numIOThreads m + 1) = Suc (unat (numIOThreads m))"
    by (subst unat_word_ariths) simp
  then show ?thesis
    using False l assms by (auto simp: RegisterIO_def io_ok_def surplus_def length_gm_upd_new)
qed

lemma Unregister_ok:
  assumes "io_ok m"
  shows "io_ok (fst (UnregisterIO isopen i m)) \<and>
    (snd (UnregisterIO isopen i m) = None \<longleftrightarrow>
       (\<exists>t. gm_get (connectedClients m) i = Some t \<and> snd (Stop isopen t) = None)) \<and>
    gm_get (connectedClients (fst (UnregisterIO isopen i m))) i = None \<and>
    surplus (fst (UnregisterIO isopen i m)) = surplus m +
      (case gm_get (connectedClients m) i of None \<Rightarrow> 0 | Some t \<Rightarrow> if snd (Stop isopen t) = None then 0 else 1)"
proof (cases "gm_get (connectedClients m) i")
  case None
  then show ?thesis using assms by (simp add: UnregisterIO_def)
next
  case (Some t)
  have l: "Suc (length (gm_del i (connectedClients m))) = length (connectedClients m)"
    using assms Some by (intro length_gm_del_old) (auto simp: io_ok_def)
  then have "unat (numIOThreads m - 1) = unat (numIOThreads m) - 1" "0 < unat (numIOThreads m)"
    using assms by (auto simp: io_ok_def unat_sub_if' word_le_nat_alt)
  moreover from this have "int (unat (numIOThreads m - 1)) = int (unat (numIOThreads m)) - 1" by linarith
  then have "uint (numIOThreads m - 1) = uint (numIOThreads m) - 1" by simp
  ultimately show ?thesis
    using l Some assms by (auto simp: UnregisterIO_def io_ok_def surplus_def Let_def split: prod.split option.split)
qed

section \<open>Messages\<close>

lemma frame_length: "length data \<le> MaxRequestBodySize \<Longrightarrow> unat (of_nat (length data) :: 32 word) = length data"
  by (simp add: MaxRequestBodySize_def unat_of_nat take_bit_nat_eq_self)

text \<open>A framed message arrives whole however the reads cut it up: \<^verbatim>\<open>ReadSync\<close> gives
  exactly its bytes.  What the buffer of the reader took beyond the message is lost, at most its
  size; the reader of the authentication has no buffer and loses nothing.\<close>

lemma frame_read:
  assumes "concat cs = frame data @ rest" and "data \<noteq> []" and "length data \<le> MaxRequestBodySize"
  shows "(\<exists>lost cs'. ReadSync cs = (Inr data, cs') \<and> lost @ concat cs' = rest \<and> length lost \<le> IoBufferSize) \<and>
    (\<exists>cs'. ReadAuth cs = (Inr data, cs') \<and> concat cs' = rest)"
proof -
  let ?n = "length data"
  let ?h = "PutUint32 (of_nat ?n)"
  have u: "unat (Uint32 ?h) = ?n" using frame_length [OF assms(3)] Uint32_PutUint32 [of "of_nat ?n" "[]"] by simp
  have two: "\<exists>buf cs1 buf' cs2. read_full sz 4 [] [] cs = (Inr ?h, buf, cs1) \<and>
      read_full sz ?n [] buf cs1 = (Inr data, buf', cs2) \<and> buf' @ concat cs2 = rest \<and> length buf' \<le> sz \<and>
      length buf \<le> sz" for sz
  proof -
    have "4 \<le> length ([] @ concat cs)" using assms(1) by (simp add: frame_def)
    from read_full_ok [OF this, of sz "[]" "[]"] obtain buf cs1 where
      1: "read_full sz 4 [] [] cs = (Inr ?h, buf, cs1)" "buf @ concat cs1 = data @ rest" "length buf \<le> sz"
      using assms(1) by (auto simp: frame_def)
    have "?n \<le> length (buf @ concat cs1)" using 1(2) by simp
    from read_full_ok [OF this, of sz "[]" "[]"] obtain buf' cs2 where
      "read_full sz ?n [] buf cs1 = (Inr data, buf', cs2)" "buf' @ concat cs2 = rest" "length buf' \<le> max (length buf) sz"
      using 1(2) by auto
    with 1 show ?thesis by auto
  qed
  from two [of IoBufferSize] obtain buf cs1 buf' cs2 where
    "read_full IoBufferSize 4 [] [] cs = (Inr ?h, buf, cs1)" "read_full IoBufferSize ?n [] buf cs1 = (Inr data, buf', cs2)"
    "buf' @ concat cs2 = rest" "length buf' \<le> IoBufferSize" by blast
  then have "ReadSync cs = (Inr data, cs2)"
    using assms(2,3) u by (simp add: ReadSync_def Let_def)
  moreover from two [of 0] obtain buf0 ds1 buf0' ds2 where
    "read_full 0 4 [] [] cs = (Inr ?h, buf0, ds1)" "read_full 0 ?n [] buf0 ds1 = (Inr data, buf0', ds2)"
    "buf0' @ concat ds2 = rest" "length buf0' \<le> 0" "length buf0 \<le> 0" by blast
  then have "ReadAuth cs = (Inr data, ds2)" "concat ds2 = rest"
    using assms(2,3) u by (simp_all add: ReadAuth_def Let_def)
  ultimately show ?thesis
    using \<open>buf' @ concat cs2 = rest\<close> \<open>length buf' \<le> IoBufferSize\<close> by blast
qed

text \<open>C40.  A second request that arrives together with the first is lost: the reader of the first
  takes both into its buffer and is thrown away, so the second is never answered.\<close>

theorem pipelined_lost:
  assumes "a \<noteq> []" and "length (frame a) + length r \<le> IoBufferSize"
  shows "ReadSync [frame a @ r] = (Inr a, [])"
proof -
  let ?n = "length a"
  have l: "?n + 4 + length r \<le> IoBufferSize" using assms(2) by (simp add: frame_def)
  then have m: "?n \<le> MaxRequestBodySize" by (simp add: IoBufferSize_def MaxRequestBodySize_def)
  have u: "unat (Uint32 (PutUint32 (of_nat ?n))) = ?n"
    using frame_length [OF m] Uint32_PutUint32 [of "of_nat ?n" "[]"] by simp
  have f: "frame a @ r \<noteq> []" "take 4 (frame a @ r) = PutUint32 (of_nat ?n)" "drop 4 (frame a @ r) = a @ r"
    "take IoBufferSize (frame a @ r) = frame a @ r" "4 < IoBufferSize"
    using l assms(1) by (simp_all add: frame_def IoBufferSize_def)
  have fill: "read_full IoBufferSize 4 [] [] [frame a @ r] = read_full IoBufferSize 4 [] (frame a @ r) []"
    by (subst read_full.simps) (use l f in \<open>auto simp: frame_def\<close>)
  have min: "min 4 (length (frame a @ r)) = 4" by (simp add: frame_def)
  have "read_full IoBufferSize 4 [] (frame a @ r) [] = read_full IoBufferSize 0 (PutUint32 (of_nat ?n)) (a @ r) []"
    by (subst read_full.simps) (simp only: f(1-3) min, simp)
  also have "\<dots> = (Inr (PutUint32 (of_nat ?n)), a @ r, [])" by (subst read_full.simps) simp
  finally have "read_full IoBufferSize 4 [] [] [frame a @ r] = (Inr (PutUint32 (of_nat ?n)), a @ r, [])"
    using fill by simp
  moreover have "read_full IoBufferSize ?n [] (a @ r) [] = (Inr a, r, [])"
    by (subst read_full.simps, subst read_full.simps) (use assms(1) in auto)
  ultimately show ?thesis using u m assms(1) by (simp add: ReadSync_def Let_def)
qed

theorem pipelined_lost_witness: "ReadSync [frame ''a'' @ frame ''b''] = (Inr ''a'', [])"
  using pipelined_lost [of "''a''" "frame ''b''"] by (simp add: frame_def IoBufferSize_def)

section \<open>Connections and threads\<close>

text \<open>The accept loop registers open connections under identities not in use, and connections are
  unregistered in any order, whatever descriptors are open then.\<close>

inductive io_reach :: "ioThreadManager \<Rightarrow> bool" where
  start: "io_reach NewIOThreadManager"
| register: "io_reach m \<Longrightarrow> gm_get (connectedClients m) (ioClientID t) = None \<Longrightarrow> \<not> ioclosed t \<Longrightarrow>
    io_reach (fst (RegisterIO t m))"
| unregister: "io_reach m \<Longrightarrow> io_reach (fst (UnregisterIO isopen i m))"

lemma io_reach_ok: "io_reach m \<Longrightarrow> io_ok m"
proof (induction rule: io_reach.induct)
  case start
  show ?case by (simp add: io_ok_def NewIOThreadManager_def)
next
  case (register m t)
  then show ?case using Register_ok by blast
next
  case (unregister m isopen i)
  then show ?case using Unregister_ok by blast
qed

text \<open>The 32-bit counter of connections is at least the number of registered connections and
  never passes the limit of 100000; a new connection is refused exactly when the counter is at the limit,
  and unregistering succeeds exactly for the registered that can be stopped.\<close>

lemma registry_counts:
  assumes "io_reach m" and "gm_get (connectedClients m) (ioClientID t) = None" and "\<not> ioclosed t"
  shows "length (connectedClients m) \<le> unat (numIOThreads m) \<and> unat (numIOThreads m) \<le> 100000 \<and>
    (snd (RegisterIO t m) = None \<longleftrightarrow> unat (numIOThreads m) < 100000) \<and>
    (snd (UnregisterIO isopen i m) = None \<longleftrightarrow>
       (\<exists>t. gm_get (connectedClients m) i = Some t \<and> snd (Stop isopen t) = None)) \<and>
    (case GetThread i m of Inr x \<Rightarrow> gm_get (connectedClients m) i = Some x \<and> \<not> ioclosed x
       | Inl e \<Rightarrow> e = ErrIOThreadNotFound \<and> gm_get (connectedClients m) i = None)"
  using io_reach_ok [OF assms(1)] Unregister_ok [OF io_reach_ok [OF assms(1)], of isopen i]
  by (auto simp: io_ok_def RegisterIO_def GetThread_def word_le_nat_alt split: option.split)

lemma dash_split:
  assumes "CHR ''-'' \<notin> set a" and "CHR ''-'' \<notin> set b"
  shows "a @ ''-'' @ x = b @ ''-'' @ y \<longleftrightarrow> a = b \<and> x = y"
  using assms
proof (induction a arbitrary: b)
  case Nil
  then show ?case by (cases b) auto
next
  case (Cons c a)
  then show ?case by (cases b) auto
qed

text \<open>The identities of connections with different descriptors differ, whatever their addresses:
  two open connections never share one.\<close>

lemma client_ids_unique:
  assumes "0 \<le> fd" and "0 \<le> fd'"
  shows "GenerateUniqueClientID fd a = GenerateUniqueClientID fd' b \<longleftrightarrow> fd = fd' \<and> a = b"
proof -
  have d: "CHR ''-'' \<notin> set (Itoa n)" if "0 \<le> n" for n
    using dec_of_nat_digits [of "nat n"] that by (auto simp: Itoa_def list_all_iff is_digit_def byte_of_def)
  have "Itoa fd = Itoa fd' \<longleftrightarrow> fd = fd'"
    using assms by (auto simp: Itoa_def) (metis nat_of_dec_of_nat eq_nat_nat_iff)
  then show ?thesis using dash_split [OF d d] assms by (simp add: GenerateUniqueClientID_def)
qed

text \<open>The registry of threads is exact in every state it can reach: the counter equals the number
  of running threads, and once everything has been cancelled every running thread is, those
  started later included.\<close>

lemma threads_counted:
  assumes "tm_reach m"
  shows "active m = int (length (threads m)) \<and> 0 \<le> active m \<and>
    (tm_cancelled m \<longrightarrow> (\<forall>i c. gm_get (threads m) i = Some c \<longrightarrow> c)) \<and>
    (snd (GoThread i m) \<longleftrightarrow> gm_get (threads m) i = None)"
  using tm_reach_ok [OF assms] by (auto simp: tm_ok_def GoThread_def)

text \<open>A connection gets a session exactly when its credentials are good: with authentication on,
  those of a stored user; with it off, none at all, which stands for root.  The session is found
  under the identity of the connection, active, with that user, until the connection ends; the
  sessions of others are never touched.\<close>

lemma session_lifecycle:
  "(case RequestAuth enabled t us un pw c ss of (ss', r) \<Rightarrow>
     (r = Inr True \<longleftrightarrow>
        (if enabled then un \<noteq> [] \<and> pw \<noteq> [] \<and> (\<exists>u. gm_get us un = Some u \<and> Password u = pw)
         else un = [] \<and> pw = [] \<and> gm_get us ''root'' \<noteq> None)) \<and>
     (r = Inr True \<longrightarrow> (\<exists>s. GetById ss' c = Some s \<and> Status s = SessionStatusActive \<and>
        gm_get us (if enabled then un else ''root'') = Some (User s))) \<and>
     (r \<noteq> Inr True \<longrightarrow> ss' = ss) \<and>
     (d \<noteq> c \<longrightarrow> GetById ss' d = GetById ss d) \<and>
     GetById (OnDisconnect c ss') c = None \<and> (d \<noteq> c \<longrightarrow> GetById (OnDisconnect c ss') d = GetById ss d))"
proof (cases "auth_user enabled us un pw")
  case None
  then show ?thesis
    using RequestAuth_user [where en = enabled and t = t and us = us and un = un and pw = pw and c = c and ss = ss]
    by (auto simp: auth_user_def GetById_def OnDisconnect_def ExpireById_def expireInternal_def
        split: option.splits if_splits)
next
  case (Some u)
  then have "RequestAuth enabled t us un pw c ss = (Activate t (NewSession t u c) ss, Inr True)"
    using RequestAuth_user(1) [where en = enabled and t = t and us = us and un = un and pw = pw and c = c and ss = ss]
    by simp
  then show ?thesis
    using Some
    by (auto simp: auth_user_def GetById_def OnDisconnect_def ExpireById_def expireInternal_def Activate_lookup
        split: option.splits if_splits)
qed

end
