(* ===== verification/Multiplexer.thy ===== *)
theory Multiplexer
  imports Prelude
begin

text \<open>
  \<^verbatim>\<open>src/server/eventloop/multiplexer/\<close>: the two implementations of the interface
  \<^verbatim>\<open>EventLoop\<close>, on epoll and on kqueue.  The kernel is not modelled: an operation takes the
  answers of its system calls as arguments and gives the calls' arguments where they matter.
  The state \<open>'s\<close> is that of the callback of \<^verbatim>\<open>Poll\<close>.  The locale \<open>event_loop\<close> is what the accept
  loop uses of \<^verbatim>\<open>Poll\<close>; both implementations provide it.
\<close>

unbundle bit_operations_syntax

text \<open>\<^verbatim>\<open>EAGAIN\<close> and \<^verbatim>\<open>EWOULDBLOCK\<close> are one number on the platforms the code is built for.\<close>

datatype errno = EAGAIN | EINTR | EMFILE | ENFILE | EBADF | ENOENT | Errno nat

datatype mux_error =
    CtlError errno
  | WaitError errno
  | MuxClosed

type_synonym ('s, 'e) callback = "int \<Rightarrow> int \<Rightarrow> int \<Rightarrow> 's \<Rightarrow> 's \<times> 'e option"

section \<open>Epoll\<close>

definition EPOLL_READ :: int where "EPOLL_READ = 1"
definition EPOLL_WRITE :: int where "EPOLL_WRITE = 4"

text \<open>The flags of \<^verbatim>\<open>golang.org/x/sys/unix\<close>.\<close>

definition EPOLLIN :: "32 word" where "EPOLLIN = 0x1"
definition EPOLLOUT :: "32 word" where "EPOLLOUT = 0x4"
definition EPOLLERR :: "32 word" where "EPOLLERR = 0x8"
definition EPOLLHUP :: "32 word" where "EPOLLHUP = 0x10"
definition EPOLLET :: "32 word" where "EPOLLET = 0x80000000"

record epoll_event =
  ev_Events :: "32 word"
  ev_Fd :: int
  ev_Pad :: int

text \<open>The events \<^verbatim>\<open>Register\<close> asks for, and its result, which is that of \<^verbatim>\<open>EpollCtl\<close>.\<close>

definition epoll_interest :: "int \<Rightarrow> 32 word" where
  "epoll_interest ft =
     (if ft = EPOLL_READ then EPOLLIN OR EPOLLET
      else if ft = EPOLL_WRITE then EPOLLOUT OR EPOLLET
      else 0)"

definition EpollRegister :: "int \<Rightarrow> int \<Rightarrow> (epoll_event \<Rightarrow> errno option) \<Rightarrow> mux_error option" where
  "EpollRegister fd ft ctl =
     (case ctl \<lparr>ev_Events = epoll_interest ft, ev_Fd = fd, ev_Pad = 0\<rparr> of
        Some e \<Rightarrow> Some (CtlError e)
      | None \<Rightarrow> None)"

definition EpollUnregister :: "int \<Rightarrow> int \<Rightarrow> errno option \<Rightarrow> mux_error option" where
  "EpollUnregister fd ft err = (if err = Some EBADF then None else map_option CtlError err)"

fun epoll_events :: "('s, 'e) callback \<Rightarrow> epoll_event list \<Rightarrow> 's \<Rightarrow> 's" where
  "epoll_events cb [] s = s"
| "epoll_events cb (v # vs) s =
     (if ev_Events v AND EPOLLERR \<noteq> 0 \<or> ev_Events v AND EPOLLHUP \<noteq> 0 then epoll_events cb vs s
      else case cb (ev_Fd v) (sint (ev_Events v)) (ev_Pad v) s of
        (s', Some e) \<Rightarrow> s'
      | (s', None) \<Rightarrow> epoll_events cb vs s')"

text \<open>\<open>wait\<close> is the answer of \<^verbatim>\<open>EpollWait\<close>.\<close>

definition EpollPoll ::
  "errno + epoll_event list \<Rightarrow> ('s, 'e) callback \<Rightarrow> 's \<Rightarrow> 's \<times> mux_error option" where
  "EpollPoll wait cb s =
     (case wait of
        Inl err \<Rightarrow> if err = EINTR then (s, None) else (s, Some (WaitError err))
      | Inr evs \<Rightarrow> if evs = [] then (s, None) else (epoll_events cb evs s, None))"

section \<open>Kqueue\<close>

definition KQ_READ :: int where "KQ_READ = -1"
definition KQ_WRITE :: int where "KQ_WRITE = -2"
definition EV_ADD :: "16 word" where "EV_ADD = 0x1"
definition EV_DELETE :: "16 word" where "EV_DELETE = 0x2"
definition EV_ENABLE :: "16 word" where "EV_ENABLE = 0x4"
definition EV_CLEAR :: "16 word" where "EV_CLEAR = 0x20"
definition EV_ERROR :: "16 word" where "EV_ERROR = 0x4000"
definition EV_EOF :: "16 word" where "EV_EOF = 0x8000"

record kevent =
  kv_Ident :: int
  kv_Filter :: int
  kv_Flags :: "16 word"

record kqueue =
  kq :: int
  kclosed :: bool

definition NewKqueue :: "errno + int \<Rightarrow> mux_error + kqueue" where
  "NewKqueue r = (case r of Inl e \<Rightarrow> Inl (CtlError e) | Inr fd \<Rightarrow> Inr \<lparr>kq = fd, kclosed = False\<rparr>)"

definition KqueueRegister :: "kqueue \<Rightarrow> int \<Rightarrow> int \<Rightarrow> (kevent \<Rightarrow> errno option) \<Rightarrow> mux_error option" where
  "KqueueRegister k fd ft kev =
     (if kclosed k then Some MuxClosed
      else case kev \<lparr>kv_Ident = fd, kv_Filter = ft, kv_Flags = EV_ADD OR EV_ENABLE\<rparr> of
        Some e \<Rightarrow> Some (CtlError e)
      | None \<Rightarrow> None)"

definition KqueueUnregister :: "kqueue \<Rightarrow> int \<Rightarrow> int \<Rightarrow> (kevent \<Rightarrow> errno option) \<Rightarrow> mux_error option" where
  "KqueueUnregister k fd ft kev =
     (if kclosed k then None
      else case kev \<lparr>kv_Ident = fd, kv_Filter = ft, kv_Flags = EV_DELETE\<rparr> of
        Some e \<Rightarrow> if e = ENOENT \<or> e = EBADF then None else Some (CtlError e)
      | None \<Rightarrow> None)"

fun kqueue_events :: "('s, 'e) callback \<Rightarrow> kevent list \<Rightarrow> 's \<Rightarrow> 's" where
  "kqueue_events cb [] s = s"
| "kqueue_events cb (v # vs) s =
     (if kv_Flags v AND EV_EOF \<noteq> 0 \<or> kv_Flags v AND EV_ERROR \<noteq> 0 then kqueue_events cb vs s
      else case cb (kv_Ident v) (kv_Filter v) (uint (kv_Flags v)) s of
        (s', Some e) \<Rightarrow> s'
      | (s', None) \<Rightarrow> kqueue_events cb vs s')"

definition KqueuePoll ::
  "kqueue \<Rightarrow> errno + kevent list \<Rightarrow> ('s, 'e) callback \<Rightarrow> 's \<Rightarrow> 's \<times> mux_error option" where
  "KqueuePoll k wait cb s =
     (if kclosed k then (s, Some MuxClosed)
      else case wait of
        Inl err \<Rightarrow> if err = EINTR then (s, None) else (s, Some (WaitError err))
      | Inr evs \<Rightarrow> if evs = [] then (s, None) else (kqueue_events cb evs s, None))"

definition KqueueClose :: "kqueue \<Rightarrow> kqueue \<times> bool" where
  "KqueueClose k = (if kclosed k then (k, False) else (k\<lparr>kclosed := True\<rparr>, True))"

section \<open>The interface\<close>

text \<open>What a poll hands to the callback: the event triples in order, up to the first that fails.\<close>

fun hand_over :: "('s, 'e) callback \<Rightarrow> (int \<times> int \<times> int) list \<Rightarrow> 's \<Rightarrow> 's" where
  "hand_over cb [] s = s"
| "hand_over cb ((fd, ft, fl) # vs) s =
     (case cb fd ft fl s of (s', Some e) \<Rightarrow> s' | (s', None) \<Rightarrow> hand_over cb vs s')"

text \<open>
  \<open>ready w\<close> are the events an answer \<open>w\<close> of the kernel delivers, without those of descriptors in
  error or hung up; an interrupted wait delivers none, a failed wait has no events at all.
\<close>

locale event_loop =
  fixes poll :: "'w \<Rightarrow> ('s, 'e) callback \<Rightarrow> 's \<Rightarrow> 's \<times> mux_error option"
    and ready :: "'w \<Rightarrow> (int \<times> int \<times> int) list option"
  assumes poll_ready: "ready w = Some evs \<Longrightarrow> poll w cb s = (hand_over cb evs s, None)"
    and poll_failed: "ready w = None \<Longrightarrow> \<exists>e. poll w cb s = (s, Some e)"
begin

text \<open>An error of the callback never gets out of \<open>poll\<close>.\<close>

lemma poll_error: "snd (poll w cb s) = None \<longleftrightarrow> ready w \<noteq> None"
proof (cases "ready w")
  case None
  then obtain e where "poll w cb s = (s, Some e)" using poll_failed by blast
  with None show ?thesis by simp
qed (simp add: poll_ready)

lemma poll_inv:
  assumes "\<And>fd ft fl s. I s \<Longrightarrow> I (fst (cb fd ft fl s))" and "I s"
  shows "I (fst (poll w cb s))"
proof -
  have "I s \<Longrightarrow> I (hand_over cb evs s)" for evs s
  proof (induction evs arbitrary: s)
    case (Cons v vs)
    obtain fd ft fl where v: "v = (fd, ft, fl)" by (cases v)
    obtain s' r where c: "cb fd ft fl s = (s', r)" by (cases "cb fd ft fl s")
    have "I s'" using assms(1) [OF Cons.prems, of fd ft fl] c by simp
    with Cons.IH c v show ?case by (cases r) simp_all
  qed simp
  note hand = this [OF assms(2)]
  show ?thesis
  proof (cases "ready w")
    case None
    then obtain e where "poll w cb s = (s, Some e)" using poll_failed by blast
    with assms(2) show ?thesis by simp
  qed (simp add: poll_ready hand)
qed

end

definition epoll_ready :: "errno + epoll_event list \<Rightarrow> (int \<times> int \<times> int) list option" where
  "epoll_ready wait =
     (case wait of
        Inl err \<Rightarrow> if err = EINTR then Some [] else None
      | Inr evs \<Rightarrow>
          Some (map (\<lambda>v. (ev_Fd v, sint (ev_Events v), ev_Pad v))
            (filter (\<lambda>v. ev_Events v AND (EPOLLERR OR EPOLLHUP) = 0) evs)))"

definition kqueue_ready :: "kqueue \<Rightarrow> errno + kevent list \<Rightarrow> (int \<times> int \<times> int) list option" where
  "kqueue_ready k wait =
     (if kclosed k then None
      else case wait of
        Inl err \<Rightarrow> if err = EINTR then Some [] else None
      | Inr evs \<Rightarrow>
          Some (map (\<lambda>v. (kv_Ident v, kv_Filter v, uint (kv_Flags v)))
            (filter (\<lambda>v. kv_Flags v AND (EV_EOF OR EV_ERROR) = 0) evs)))"

text \<open>Testing two flags at once and one after the other.\<close>

lemma and_or_eq_0: "x AND (a OR b) = 0 \<longleftrightarrow> x AND a = 0 \<and> x AND b = (0 :: 'a :: len word)"
  by (simp add: bit.conj_disj_distrib or_eq_0_iff)

lemma epoll_events_hand:
  "epoll_events cb evs s = hand_over cb (map (\<lambda>v. (ev_Fd v, sint (ev_Events v), ev_Pad v))
     (filter (\<lambda>v. ev_Events v AND (EPOLLERR OR EPOLLHUP) = 0) evs)) s"
  by (induction evs arbitrary: s) (simp_all add: and_or_eq_0 split: prod.split option.split)

lemma kqueue_events_hand:
  "kqueue_events cb evs s = hand_over cb (map (\<lambda>v. (kv_Ident v, kv_Filter v, uint (kv_Flags v)))
     (filter (\<lambda>v. kv_Flags v AND (EV_EOF OR EV_ERROR) = 0) evs)) s"
  by (induction evs arbitrary: s) (simp_all add: and_or_eq_0 split: prod.split option.split)

interpretation epoll: event_loop EpollPoll epoll_ready
  by unfold_locales
    (auto simp: EpollPoll_def epoll_ready_def epoll_events_hand split: sum.splits if_splits)

interpretation kqueue: event_loop "KqueuePoll k" "kqueue_ready k" for k
  by unfold_locales
    (auto simp: KqueuePoll_def kqueue_ready_def kqueue_events_hand split: sum.splits if_splits)

text \<open>The tests of the two implementations read the same events the same way.\<close>

lemma epoll_ready_one: "epoll_ready (Inr [\<lparr>ev_Events = EPOLLIN, ev_Fd = fd, ev_Pad = p\<rparr>]) = Some [(fd, EPOLL_READ, p)]"
  by (simp add: epoll_ready_def EPOLLIN_def EPOLLERR_def EPOLLHUP_def EPOLL_READ_def)

lemma kqueue_ready_one: "\<not> kclosed k \<Longrightarrow> kqueue_ready k (Inr [\<lparr>kv_Ident = fd, kv_Filter = KQ_READ, kv_Flags = 0\<rparr>]) =
    Some [(fd, KQ_READ, 0)]"
  by (simp add: kqueue_ready_def)

end
