(* ===== verification/Eventloop.thy ===== *)
theory Eventloop
  imports Server Multiplexer
begin

text \<open>
  \<^verbatim>\<open>src/server/eventloop/main.go\<close>, with \<^verbatim>\<open>authentication.go\<close>, \<^verbatim>\<open>io_thread.go\<close> and \<^verbatim>\<open>netcon.go\<close>: binding the
  listening socket, the accept loop, and the life of a connection from its acceptance to its
  clean-up.  The kernel is a parameter: what it answers for an accepted connection is an
  \<open>arrival\<close>, and the system calls that open, close or write are recorded in order in \<open>calls\<close>.
  A goroutine is a value of \<open>goroutine\<close>, and between its steps the others go on.
\<close>

section \<open>System calls\<close>

datatype syscall =
    Opened int string
  | SysWrite int bytes
  | SysClose int
  | MuxDel int int

text \<open>Which descriptors are open after a history, and for which client.\<close>

fun open_after :: "syscall list \<Rightarrow> int \<Rightarrow> string option" where
  "open_after [] = (\<lambda>_. None)"
| "open_after (Opened fd c # h) = (open_after h)(fd \<mapsto> c)"
| "open_after (SysClose fd # h) = (open_after h)(fd := None)"
| "open_after (_ # h) = open_after h"

section \<open>Binding\<close>

text \<open>\<^verbatim>\<open>net.ParseIP\<close> of an IPv4 address gives its 16-byte form.\<close>

definition ParseIP4 :: "nat list \<Rightarrow> nat list" where
  "ParseIP4 a = replicate 10 0 @ [255, 255] @ a"

text \<open>\<open>dial\<close> is the local address of a connection to a name server, four bytes, if there is one.\<close>

definition getOutboundIP :: "string \<Rightarrow> nat list option \<Rightarrow> nat list" where
  "getOutboundIP host dial =
     (if host = ''0.0.0.0'' then (case dial of Some ip \<Rightarrow> ip | None \<Rightarrow> ParseIP4 [127, 0, 0, 1])
      else ParseIP4 [127, 0, 0, 1])"

record bind_answers =
  ba_socket :: "errno + int"
  ba_reuse :: "errno option"
  ba_nonblock :: "errno option"
  ba_dial :: "nat list option"
  ba_bind :: "nat list \<Rightarrow> int \<Rightarrow> errno option"
  ba_listen :: "errno option"

datatype bind_error = SocketFailed errno | ReuseFailed errno | NonblockFailed errno
  | BindFailed errno | ListenFailed errno

text \<open>\<^verbatim>\<open>BindAndListen\<close>: the server's descriptor and the address it listens on, or the error and the
  descriptors it closes.\<close>

definition BindAndListen ::
  "string \<Rightarrow> int \<Rightarrow> bind_answers \<Rightarrow> bind_error \<times> int list + int \<times> nat list \<times> int" where
  "BindAndListen host port B =
     (case ba_socket B of
        Inl e \<Rightarrow> Inl (SocketFailed e, [])
      | Inr serverFD \<Rightarrow>
          (case ba_reuse B of Some e \<Rightarrow> Inl (ReuseFailed e, [serverFD])
           | None \<Rightarrow>
          (case ba_nonblock B of Some e \<Rightarrow> Inl (NonblockFailed e, [serverFD])
           | None \<Rightarrow>
              let ip4 = getOutboundIP host (ba_dial B);
                  addr = [ip4 ! 0, ip4 ! 1, ip4 ! 2, ip4 ! 3]
              in (case ba_bind B addr port of Some e \<Rightarrow> Inl (BindFailed e, [serverFD])
                  | None \<Rightarrow>
                 (case ba_listen B of Some e \<Rightarrow> Inl (ListenFailed e, [serverFD])
                  | None \<Rightarrow> Inr (serverFD, addr, port))))))"

section \<open>The state of the server\<close>

record exponentialBackoff =
  initialDelay :: int
  maxDelay :: int
  currentDelay :: int

definition reset :: "exponentialBackoff \<Rightarrow> exponentialBackoff" where
  "reset b = b\<lparr>currentDelay := initialDelay b\<rparr>"

text \<open>
  What the kernel answers for one \<^verbatim>\<open>accept\<close>: the error, or the descriptor and the peer; then what the
  successive reads of the connection return, the clock, and the answers for \<^verbatim>\<open>SetNonblock\<close>, the registration with
  the multiplexer, \<^verbatim>\<open>net.FileConn\<close> (which duplicates the descriptor) and the options of the
  connection.
\<close>

record arrival =
  a_accept :: "errno + int \<times> sockaddr"
  a_input :: "bytes list"
  a_time :: int
  a_nonblock :: "errno option"
  a_register :: "errno option"
  a_fileconn :: "errno + int"
  a_options :: "errno option"

text \<open>Where the goroutine of a connection is: before \<^verbatim>\<open>Register\<close>, in \<^verbatim>\<open>StartSync\<close>, or in the deferred
  clean-up after each of its parts.\<close>

datatype phase = Starting | Serving | Unregistered | Closing

record goroutine =
  gthread :: ioThread
  gphase :: phase
  ginput :: "bytes list"

record server =
  serverFD :: int
  ioThreads :: ioThreadManager
  activeThreads :: int
  ssns :: sessions
  goroutines :: "goroutine gomap"
  backoff :: exponentialBackoff
  backlog :: "arrival list"
  calls :: "syscall list"

text \<open>The settings: the decoding of a command and the encoding of a response, both of the
  protobuf library; authentication; and the filters for reading and writing.\<close>

record settings =
  c_decode :: "bytes \<Rightarrow> (string \<times> string list) option"
  c_encode :: "response \<Rightarrow> bytes option"
  c_auth :: bool
  c_users :: users
  c_read :: int
  c_write :: int

definition NewServer :: "int \<Rightarrow> server" where
  "NewServer fd =
     \<lparr>serverFD = fd, ioThreads = NewIOThreadManager, activeThreads = 0, ssns = NewSessionsStore,
      goroutines = [], backoff = \<lparr>initialDelay = 5, maxDelay = 100, currentDelay = 5\<rparr>,
      backlog = [], calls = []\<rparr>"

definition sys :: "syscall list \<Rightarrow> server \<Rightarrow> server" where
  "sys cs S = S\<lparr>calls := rev cs @ calls S\<rparr>"

definition open_fds :: "server \<Rightarrow> int \<Rightarrow> string option" where
  "open_fds S = open_after (calls S)"

section \<open>Messages of the server\<close>

text \<open>A message that does not encode is not written; the result of the write is dropped.\<close>

definition WriteErr :: "settings \<Rightarrow> int \<Rightarrow> response \<Rightarrow> server \<Rightarrow> server" where
  "WriteErr C clientFD msg S =
     (case c_encode C msg of
        None \<Rightarrow> S
      | Some data \<Rightarrow> sys [SysWrite clientFD (frame data)] S)"

definition auth_text :: "auth_read \<Rightarrow> string" where
  "auth_text e =
     (case e of
        EmptyAuth \<Rightarrow> ''empty auth request''
      | BadAuthData \<Rightarrow> ''invalid authentication data provided''
      | BadAuthFormat \<Rightarrow> ''invalid data format''
      | BadAuthArgs \<Rightarrow> ''invalid arguments''
      | AuthDenied d \<Rightarrow>
          (case d of
             BadCredentials \<Rightarrow> ''The username or password you entered is incorrect. Please try again with valid credentials.''
           | UserNotFound u \<Rightarrow> ''user not found '' @ u
           | AuthDisabled \<Rightarrow> ''it looks like you entered a username or password but the server isn''
               @ [CHR 0xE2, CHR 0x80, CHR 0x99] @ ''t using authentication right now''
           | MissingCredentials \<Rightarrow> ''failed to authenticate, please ensure your username and password are provided''))"

text \<open>The response to a client that is turned away does not name it.  The third component is what the reads
  after the first message will return.\<close>

definition ConnectAndAuthenticate ::
  "settings \<Rightarrow> arrival \<Rightarrow> int \<Rightarrow> string \<Rightarrow> server \<Rightarrow> server \<times> bool \<times> bytes list" where
  "ConnectAndAuthenticate C a clientFD clientID S =
     (case AuthenticateClient (c_decode C) (c_auth C) (a_time a) (c_users C) clientID (a_input a) (ssns S) of
        (ss, Inl err, rest) \<Rightarrow>
          (WriteErr C clientFD
             \<lparr>rclient = [], rstatus = ''Error'', rresult = ''ConnectionFailed: '' @ auth_text err\<rparr> (S\<lparr>ssns := ss\<rparr>),
           False, rest)
      | (ss, Inr auth, rest) \<Rightarrow>
          (WriteErr C clientFD \<lparr>rclient = clientID, rstatus = ''Ok'', rresult = ''Connected''\<rparr> (S\<lparr>ssns := ss\<rparr>),
           auth, rest))"

section \<open>Connections\<close>

text \<open>\<^verbatim>\<open>Conn.Close\<close> of a connection that is closed already makes no system call.\<close>

definition close_calls :: "ioThread \<Rightarrow> syscall list" where
  "close_calls t = (if ioclosed t then [] else [SysClose (iodup t), SysClose (iofd t)])"

text \<open>\<^verbatim>\<open>NewConn\<close> closes the file only when \<^verbatim>\<open>net.FileConn\<close> fails.\<close>

definition NewConn :: "arrival \<Rightarrow> int \<Rightarrow> string \<Rightarrow> server \<Rightarrow> server \<times> (errno + int)" where
  "NewConn a clientFD clientID S =
     (case a_fileconn a of
        Inl e \<Rightarrow> (sys [SysClose clientFD] S, Inl e)
      | Inr d \<Rightarrow>
          let S' = sys [Opened d clientID] S
          in (case a_options a of Some e \<Rightarrow> (S', Inl e) | None \<Rightarrow> (S', Inr d)))"

definition NewIOThread :: "arrival \<Rightarrow> int \<Rightarrow> string \<Rightarrow> server \<Rightarrow> server \<times> (errno + ioThread)" where
  "NewIOThread a clientFD clientID S =
     (case NewConn a clientFD clientID S of
        (S', Inl e) \<Rightarrow> (S', Inl e)
      | (S', Inr d) \<Rightarrow>
          (S', Inr \<lparr>ioClientID = clientID, iofd = clientFD, iodup = d, ioclosed = False\<rparr>))"

section \<open>Accepting\<close>

datatype handler_error = AcceptError errno | TooManyFiles errno | AcceptFailed errno

text \<open>The errors of \<^verbatim>\<open>accept\<close>.\<close>

definition accept_error :: "errno \<Rightarrow> server \<Rightarrow> server \<times> handler_error option" where
  "accept_error err S =
     (if err = EAGAIN then (S\<lparr>backoff := reset (backoff S)\<rparr>, Some (AcceptError err))
      else if err = EINTR then (S, None)
      else if err = EMFILE \<or> err = ENFILE then (S, Some (TooManyFiles err))
      else (S\<lparr>backoff := reset (backoff S)\<rparr>, Some (AcceptFailed err)))"

text \<open>From the client's identity on.\<close>

definition admit :: "settings \<Rightarrow> arrival \<Rightarrow> int \<Rightarrow> string \<Rightarrow> server \<Rightarrow> server" where
  "admit C a clientFD clientID S =
     (case ConnectAndAuthenticate C a clientFD clientID S of
        (S1, connect, rest) \<Rightarrow>
          if \<not> connect then sys [SysClose clientFD] S1
          else if a_nonblock a \<noteq> None then sys [SysClose clientFD] S1
          else if a_register a \<noteq> None then sys [SysClose clientFD] S1
          else let (S2, r) =
                 (case GetThread clientID (ioThreads S1) of
                    Inr t \<Rightarrow> (S1, Inr t)
                  | Inl _ \<Rightarrow> NewIOThread a clientFD clientID S1)
               in (case r of
                     Inl e \<Rightarrow> sys [SysClose clientFD] S2
                   | Inr t \<Rightarrow>
                       S2\<lparr>activeThreads := activeThreads S2 + 1,
                          goroutines := gm_upd clientID \<lparr>gthread = t, gphase = Starting, ginput = rest\<rparr>
                                          (goroutines S2)\<rparr>))"

text \<open>The callback of \<^verbatim>\<open>Poll\<close>.  The kernel's answer to \<^verbatim>\<open>accept\<close> is the head of \<open>backlog\<close>; when it is
  empty there is nothing to accept.\<close>

definition eventHandler :: "settings \<Rightarrow> (server, handler_error) callback" where
  "eventHandler C fd ft fl S =
     (if fd = serverFD S \<and> ft = c_read C then
        (case backlog S of
           [] \<Rightarrow> accept_error EAGAIN S
         | a # as \<Rightarrow>
             let S0 = S\<lparr>backlog := as\<rparr>
             in (case a_accept a of
                   Inl err \<Rightarrow> accept_error err S0
                 | Inr (clientFD, clientAddr) \<Rightarrow>
                     let clientID = GenerateUniqueClientID clientFD (FormatClientAddr clientAddr)
                     in (admit C a clientFD clientID (sys [Opened clientFD clientID] S0), None)))
      else (S, None))"

text \<open>A round of the accept loop: whether the server has been cancelled, and the connections that
  arrived since the last poll.  \<open>wait\<close> is the answer of the kernel to the poll, from whether there
  are new arrivals and whether any connection waits.\<close>

datatype loop_error = Canceled | PollError mux_error

fun AcceptNewConnection ::
  "('w \<Rightarrow> (server, handler_error) callback \<Rightarrow> server \<Rightarrow> server \<times> mux_error option) \<Rightarrow>
   (bool \<Rightarrow> bool \<Rightarrow> 'w) \<Rightarrow> settings \<Rightarrow> (bool \<times> arrival list) list \<Rightarrow> server \<Rightarrow>
   server \<times> loop_error option" where
  "AcceptNewConnection poll wait C [] S = (S, None)"
| "AcceptNewConnection poll wait C ((cancelled, new) # rs) S =
     (if cancelled then (S, Some Canceled)
      else let S1 = S\<lparr>backlog := backlog S @ new\<rparr>
           in (case poll (wait (new \<noteq> []) (backlog S1 \<noteq> [])) (eventHandler C) S1 of
                 (S2, Some e) \<Rightarrow> (S2, Some (PollError e))
               | (S2, None) \<Rightarrow> AcceptNewConnection poll wait C rs S2))"

section \<open>The goroutine of a connection\<close>

text \<open>Its start: \<^verbatim>\<open>Register\<close>, or closing the socket.\<close>

definition start_thread :: "string \<Rightarrow> server \<Rightarrow> server" where
  "start_thread i S =
     (case gm_get (goroutines S) i of
        Some g \<Rightarrow>
          if gphase g \<noteq> Starting then S
          else (case RegisterIO (gthread g) (ioThreads S) of
             (m, Some e) \<Rightarrow>
               (sys [SysClose (iofd (gthread g))] S)\<lparr>activeThreads := activeThreads S - 1,
                  goroutines := gm_del i (goroutines S)\<rparr>
           | (m, None) \<Rightarrow>
               S\<lparr>ioThreads := m, goroutines := gm_upd i (g\<lparr>gphase := Serving\<rparr>) (goroutines S)\<rparr>)
      | None \<Rightarrow> S)"

text \<open>The deferred clean-up of \<^verbatim>\<open>startConnThread\<close> in its parts: \<^verbatim>\<open>Unregister\<close>, which stops the thread it
  finds (its error is only logged); the multiplexer and the descriptor; the connection, the count and the session.\<close>

definition cleanup_unregister :: "string \<Rightarrow> server \<Rightarrow> server" where
  "cleanup_unregister i S =
     (case gm_get (goroutines S) i of
        Some g \<Rightarrow>
          if gphase g \<noteq> Serving then S
          else
            let isopen = (\<lambda>fd. open_fds S fd \<noteq> None);
                cs = (case gm_get (connectedClients (ioThreads S)) i of Some w \<Rightarrow> close_calls w | None \<Rightarrow> []);
                g' = (if gm_get (connectedClients (ioThreads S)) i = Some (gthread g)
                      then g\<lparr>gthread := fst (Stop isopen (gthread g))\<rparr> else g)
            in (sys cs S)\<lparr>ioThreads := fst (UnregisterIO isopen i (ioThreads S)),
                 goroutines := gm_upd i (g'\<lparr>gphase := Unregistered\<rparr>) (goroutines S)\<rparr>
      | None \<Rightarrow> S)"

definition cleanup_close :: "settings \<Rightarrow> string \<Rightarrow> server \<Rightarrow> server" where
  "cleanup_close C i S =
     (case gm_get (goroutines S) i of
        Some g \<Rightarrow>
          if gphase g \<noteq> Unregistered then S
          else let fd = iofd (gthread g)
               in (sys [MuxDel fd (c_read C), MuxDel fd (c_write C), SysClose fd] S)
                    \<lparr>goroutines := gm_upd i (g\<lparr>gphase := Closing\<rparr>) (goroutines S)\<rparr>
      | None \<Rightarrow> S)"

definition cleanup_done :: "string \<Rightarrow> server \<Rightarrow> server" where
  "cleanup_done i S =
     (case gm_get (goroutines S) i of
        Some g \<Rightarrow>
          if gphase g \<noteq> Closing then S
          else (sys (close_calls (gthread g)) S)\<lparr>activeThreads := activeThreads S - 1,
                 ssns := OnDisconnect i (ssns S), goroutines := gm_del i (goroutines S)\<rparr>
      | None \<Rightarrow> S)"

definition cleanup :: "settings \<Rightarrow> string \<Rightarrow> server \<Rightarrow> server" where
  "cleanup C i S = cleanup_done i (cleanup_close C i (cleanup_unregister i S))"

section \<open>Responses\<close>

text \<open>\<^verbatim>\<open>WriteSync\<close>: the bytes it sends, or nothing when the response does not encode.\<close>

definition WriteSync :: "settings \<Rightarrow> response \<Rightarrow> bytes option" where
  "WriteSync C r =
     (case c_encode C r of None \<Rightarrow> None | Some data \<Rightarrow> Some (frame data))"

section \<open>Serving\<close>

datatype ending = Ended read_error | Panicked

text \<open>\<^verbatim>\<open>StartSync\<close>: requests are read and handled one after the other until reading fails.  \<open>E k\<close> is the
  environment of the \<open>k\<close>-th request; \<open>dm\<close> and \<open>jm\<close> are the texts of the library's errors.\<close>

function StartSync ::
  "(bytes \<Rightarrow> (string \<times> string list) option) \<Rightarrow> string \<Rightarrow> string \<Rightarrow> (nat \<Rightarrow> env) \<Rightarrow> nat \<Rightarrow> bytes list \<Rightarrow> db
    \<Rightarrow> db \<times> response list \<times> ending" where
  "StartSync decode dm jm E k cs sm =
     (case ReadSync cs of
        (Inl e, _) \<Rightarrow> (sm, [], Ended e)
      | (Inr c, cs') \<Rightarrow>
          (case OnTraffic decode dm jm (E k) c sm of
             (sm', None) \<Rightarrow> (sm', [], Panicked)
           | (sm', Some r) \<Rightarrow>
               (case StartSync decode dm jm E (Suc k) cs' sm' of (sm'', rs, x) \<Rightarrow> (sm'', r # rs, x))))"
  by auto
termination
  by (relation "measure (\<lambda>(decode, dm, jm, E, k, cs, sm). length (concat cs))")
    (simp, simp del: length_concat, drule sym, erule ReadSync_length)

declare StartSync.simps [simp del]

end
