(* ===== verification/Connections.thy ===== *)
theory Connections
  imports Eventloop Keyspace
begin

text \<open>
  What holds of connections: the address the server listens on, the progress of the accept loop on
  either multiplexer, who is admitted, what a conversation answers, and the bookkeeping of
  connections while the accept loop and the goroutines of the connections interleave
  (\<open>net_step\<close>).
\<close>

section \<open>The address\<close>

text \<open>The server listens on every interface (0.0.0.0) unless the configured host is 0.0.0.0
  and a name server can be reached, and then on the one interface that leads there: the
  loopback address has its four bytes at the end of the 16 that the code takes the first
  four of.  A failure closes the descriptor it opened.\<close>

lemma bind_address:
  "case BindAndListen host port B of
     Inr (fd, addr, p) \<Rightarrow>
       ba_socket B = Inr fd \<and> p = port \<and>
       addr = (case ba_dial B of
                 Some ip \<Rightarrow> if host = ''0.0.0.0'' then [ip ! 0, ip ! 1, ip ! 2, ip ! 3] else [0, 0, 0, 0]
               | None \<Rightarrow> [0, 0, 0, 0])
   | Inl (e, fds) \<Rightarrow> (case ba_socket B of Inr fd \<Rightarrow> fds = [fd] | Inl _ \<Rightarrow> fds = [])"
proof -
  have "ParseIP4 [127, 0, 0, 1] = [0, 0, 0, 0, 0, 0, 0, 0, 0, 0, 255, 255, 127, 0, 0, 1]"
    by (simp add: ParseIP4_def numeral_eq_Suc)
  then show ?thesis
    by (simp add: BindAndListen_def getOutboundIP_def Let_def split: sum.split option.split)
qed

section \<open>Admission\<close>

lemma sys_simps [simp]:
  "serverFD (sys cs S) = serverFD S" "backlog (sys cs S) = backlog S" "goroutines (sys cs S) = goroutines S"
  "ioThreads (sys cs S) = ioThreads S" "activeThreads (sys cs S) = activeThreads S" "ssns (sys cs S) = ssns S"
  "calls (sys cs S) = rev cs @ calls S"
  by (simp_all add: sys_def)

lemma WriteErr_simps [simp]:
  "serverFD (WriteErr C fd r S) = serverFD S" "backlog (WriteErr C fd r S) = backlog S"
  "goroutines (WriteErr C fd r S) = goroutines S" "ioThreads (WriteErr C fd r S) = ioThreads S"
  "activeThreads (WriteErr C fd r S) = activeThreads S" "ssns (WriteErr C fd r S) = ssns S"
  "calls (WriteErr C fd r S) =
     (case c_encode C r of None \<Rightarrow> [] | Some d \<Rightarrow> [SysWrite fd (frame d)]) @ calls S"
  "open_fds (WriteErr C fd r S) = open_fds S"
  by (simp_all add: WriteErr_def open_fds_def split: option.split)

lemma open_after_write [simp]:
  "open_after ((case w of None \<Rightarrow> [] | Some d \<Rightarrow> [SysWrite fd (f d)]) @ h) = open_after h"
  by (simp split: option.split)

lemma open_fds_simps [simp]:
  "open_fds (sys [SysClose fd] S) = (open_fds S)(fd := None)"
  "open_fds (sys [Opened fd c] S) = (open_fds S)(fd \<mapsto> c)"
  by (simp_all add: open_fds_def)

text \<open>The credentials in the first message.\<close>

definition credentials :: "string list \<Rightarrow> (string \<times> string) option" where
  "credentials args =
     (if args = [] then Some ([], []) else if length args = 2 then Some (args ! 0, args ! 1) else None)"

text \<open>\<^verbatim>\<open>AuthenticateClient\<close> opens a session exactly when it succeeds.\<close>

lemma AuthenticateClient_cases:
  "(\<exists>e rest. AuthenticateClient decode en t us c cs ss = (ss, Inl e, rest)) \<or>
   (\<exists>m cs1 cmd args un pw u. ReadAuth cs = (Inr m, cs1) \<and> decode m = Some (cmd, args) \<and>
      credentials args = Some (un, pw) \<and> auth_user en us un pw = Some u \<and>
      AuthenticateClient decode en t us c cs ss = (Activate t (NewSession t u c) ss, Inr True, cs1))"
proof -
  have r: "(\<exists>e. RequestAuth en t us un pw c ss = (ss, Inl e)) \<or>
      (\<exists>u. auth_user en us un pw = Some u \<and> RequestAuth en t us un pw c ss = (Activate t (NewSession t u c) ss, Inr True))"
    for un pw
    using RequestAuth_user [where en = en and t = t and us = us and un = un and pw = pw and c = c and ss = ss] by (cases "auth_user en us un pw") auto
  consider e cs1 where "ReadAuth cs = (Inl e, cs1)"
    | m cs1 where "ReadAuth cs = (Inr m, cs1)" "decode m = None"
    | m cs1 cmd args where "ReadAuth cs = (Inr m, cs1)" "decode m = Some (cmd, args)"
    by (cases "ReadAuth cs") (metis sum.exhaust option.exhaust prod.exhaust)
  then show ?thesis
  proof cases
    case 3
    show ?thesis
    proof (cases "credentials args")
      case None
      with 3 show ?thesis by (auto simp: AuthenticateClient_def credentials_def split: if_splits)
    next
      case (Some p)
      obtain un pw where p: "p = (un, pw)" by (cases p)
      have "AuthenticateClient decode en t us c cs ss =
          (case RequestAuth en t us un pw c ss of (ss', r) \<Rightarrow> (ss', map_sum AuthDenied id r, cs1))"
        using 3 Some p by (auto simp: AuthenticateClient_def credentials_def split: if_splits)
      with r [of un pw] 3 Some p show ?thesis by fastforce
    qed
  qed (auto simp: AuthenticateClient_def)
qed

definition authenticates :: "settings \<Rightarrow> arrival \<Rightarrow> bool" where
  "authenticates C a \<longleftrightarrow>
     (case ReadAuth (a_input a) of
        (Inr m, _) \<Rightarrow>
          (case c_decode C m of
             Some (_, args) \<Rightarrow>
               (case credentials args of
                  Some (un, pw) \<Rightarrow> auth_user (c_auth C) (c_users C) un pw \<noteq> None
                | None \<Rightarrow> False)
           | None \<Rightarrow> False)
      | _ \<Rightarrow> False)"

lemma authenticates_iff:
  "authenticates C a \<longleftrightarrow>
     fst (snd (AuthenticateClient (c_decode C) (c_auth C) t (c_users C) c (a_input a) ss)) = Inr True"
proof (cases "authenticates C a")
  case True
  then obtain m cs1 cmd args un pw u where x: "ReadAuth (a_input a) = (Inr m, cs1)" "c_decode C m = Some (cmd, args)"
    "credentials args = Some (un, pw)" "auth_user (c_auth C) (c_users C) un pw = Some u"
    unfolding authenticates_def by (auto split: prod.splits sum.splits option.splits)
  then have "snd (RequestAuth (c_auth C) t (c_users C) un pw c ss) = Inr True"
    using RequestAuth_user(1) [where en = "c_auth C" and t = t and us = "c_users C" and un = un and pw = pw
        and c = c and ss = ss] by simp
  then show ?thesis
    using x True by (auto simp: AuthenticateClient_def credentials_def split: prod.splits if_splits)
next
  case False
  then show ?thesis
    using AuthenticateClient_cases [of "c_decode C" "c_auth C" t "c_users C" c "a_input a" ss]
    by (auto simp: authenticates_def)
qed

text \<open>C14.  A client that does not authenticate gets nowhere: whatever it sends, one response with the
  status Error, which does not name it, goes out (when it encodes), its socket is closed, and there is no session, no
  connection, no goroutine that would serve it, and no change to those of others.\<close>

theorem unauthenticated:
  assumes "backlog S = a # as" and "a_accept a = Inr (fd, addr)" and "\<not> authenticates C a"
  shows "\<exists>S' r. eventHandler C (serverFD S) (c_read C) fl S = (S', None) \<and> rstatus r = STATUS_ERROR \<and> rclient r = [] \<and>
    goroutines S' = goroutines S \<and> ioThreads S' = ioThreads S \<and> ssns S' = ssns S \<and>
    activeThreads S' = activeThreads S \<and> open_fds S' fd = None \<and> (\<forall>d. d \<noteq> fd \<longrightarrow> open_fds S' d = open_fds S d) \<and>
    (let i = GenerateUniqueClientID fd (FormatClientAddr addr)
     in calls S' = SysClose fd # (case c_encode C r of None \<Rightarrow> [] | Some d \<Rightarrow> [SysWrite fd (frame d)])
          @ Opened fd i # calls S)"
proof -
  let ?i = "GenerateUniqueClientID fd (FormatClientAddr addr)"
  let ?S = "sys [Opened fd ?i] (S\<lparr>backlog := as\<rparr>)"
  have "fst (snd (AuthenticateClient (c_decode C) (c_auth C) (a_time a) (c_users C) ?i (a_input a) (ssns S))) \<noteq> Inr True"
    using assms(3) authenticates_iff by blast
  then obtain e rest where e: "AuthenticateClient (c_decode C) (c_auth C) (a_time a) (c_users C) ?i (a_input a) (ssns S)
      = (ssns S, Inl e, rest)"
    using AuthenticateClient_cases [of "c_decode C" "c_auth C" "a_time a" "c_users C" ?i "a_input a" "ssns S"] by auto
  let ?r = "\<lparr>rclient = [], rstatus = ''Error'', rresult = ''ConnectionFailed: '' @ auth_text e\<rparr>"
  have "eventHandler C (serverFD S) (c_read C) fl S =
      (sys [SysClose fd] (WriteErr C fd ?r (?S\<lparr>ssns := ssns S\<rparr>)), None)"
    using assms(1,2) e by (simp add: eventHandler_def admit_def ConnectAndAuthenticate_def Let_def sys_def)
  then show ?thesis
    by (intro exI [of _ "sys [SysClose fd] (WriteErr C fd ?r (?S\<lparr>ssns := ssns S\<rparr>))"] exI [of _ ?r])
      (auto simp: STATUS_ERROR_def open_fds_def)
qed

text \<open>Settings without authentication that take any message for a command, and a connection, for the
  examples.\<close>

definition settings0 :: settings where
  "settings0 = \<lparr>c_decode = (\<lambda>d. Some (if d = ''b'' then (''PING'', []) else ([], []))), c_encode = (\<lambda>_. None), c_auth = False,
     c_users = [(''root'', \<lparr>Username = ''root'', Password = ''p'', Role = Admin\<rparr>)],
     c_read = EPOLL_READ, c_write = EPOLL_WRITE\<rparr>"

definition arrival0 :: "int \<Rightarrow> int \<Rightarrow> sockaddr \<Rightarrow> bytes list \<Rightarrow> arrival" where
  "arrival0 fd d addr cs = \<lparr>a_accept = Inr (fd, addr), a_input = cs, a_time = 5, a_nonblock = None,
     a_register = None, a_fileconn = Inr d, a_options = None\<rparr>"

lemma settings0_auth: "authenticates settings0 (arrival0 fd d addr (frame ''a'' # cs))"
proof -
  obtain cs' where "ReadAuth (frame ''a'' # cs) = (Inr ''a'', cs')"
    using frame_read [of "frame ''a'' # cs" "''a''" "concat cs"] by (auto simp: MaxRequestBodySize_def)
  then show ?thesis
    by (simp add: authenticates_def arrival0_def settings0_def credentials_def auth_user_def)
qed

theorem unauthenticated_witness:
  "\<exists>S'. eventHandler settings0 3 EPOLL_READ 0 (NewServer 3\<lparr>backlog := [arrival0 7 8 OtherAddr []]\<rparr>) = (S', None) \<and>
     open_fds S' 7 = None"
proof -
  have "ReadAuth [] = (Inl EmptyAuth, [])"
    by (simp add: ReadAuth_def read_full.simps)
  then have "\<not> authenticates settings0 (arrival0 7 8 OtherAddr [])"
    by (simp add: authenticates_def arrival0_def)
  then show ?thesis
    using unauthenticated [of "NewServer 3\<lparr>backlog := [arrival0 7 8 OtherAddr []]\<rparr>" "arrival0 7 8 OtherAddr []" "[]" 7
        OtherAddr settings0 0]
    by (auto simp: arrival0_def NewServer_def settings0_def)
qed

section \<open>The accept loop\<close>

lemma accept_error_simps [simp]:
  "serverFD (fst (accept_error e S)) = serverFD S" "backlog (fst (accept_error e S)) = backlog S"
  by (simp_all add: accept_error_def)

lemma admit_simps [simp]:
  "serverFD (admit C a fd i S) = serverFD S" "backlog (admit C a fd i S) = backlog S"
  by (auto simp: admit_def ConnectAndAuthenticate_def NewIOThread_def NewConn_def Let_def
      split: prod.splits sum.splits option.splits)

lemma eventHandler_takes:
  "serverFD (fst (eventHandler C fd ft fl S)) = serverFD S"
  "backlog (fst (eventHandler C fd ft fl S)) =
     (if fd = serverFD S \<and> ft = c_read C then tl (backlog S) else backlog S)"
  by (auto simp: eventHandler_def Let_def split: list.split sum.split)

text \<open>The accept loop over any event loop: the polls with an event of the listening socket, those
  without, and no way out but cancellation and a failed poll.\<close>

locale accept_loop = event_loop poll ready
  for poll :: "'w \<Rightarrow> (server, handler_error) callback \<Rightarrow> server \<Rightarrow> server \<times> mux_error option"
    and ready :: "'w \<Rightarrow> (int \<times> int \<times> int) list option"
begin

lemma round_event:
  assumes "ready (wait (new \<noteq> []) (backlog S @ new \<noteq> [])) = Some [(serverFD S, c_read C, fl)]"
  shows "AcceptNewConnection poll wait C ((False, new) # rs) S = AcceptNewConnection poll wait C rs
    (fst (eventHandler C (serverFD S) (c_read C) fl (S\<lparr>backlog := backlog S @ new\<rparr>)))"
proof -
  let ?S = "S\<lparr>backlog := backlog S @ new\<rparr>"
  have "poll (wait (new \<noteq> []) (backlog S @ new \<noteq> [])) (eventHandler C) ?S =
      (fst (eventHandler C (serverFD S) (c_read C) fl ?S), None)"
    by (subst poll_ready [OF assms]) (simp split: prod.split option.split)
  note this [simplified]
  then show ?thesis by simp
qed

lemma round_idle:
  assumes "ready (wait (new \<noteq> []) (backlog S @ new \<noteq> [])) = Some []"
  shows "AcceptNewConnection poll wait C ((False, new) # rs) S =
    AcceptNewConnection poll wait C rs (S\<lparr>backlog := backlog S @ new\<rparr>)"
proof -
  have "poll (wait (new \<noteq> []) (backlog S @ new \<noteq> [])) (eventHandler C) T = (T, None)" for T
    by (subst poll_ready [OF assms]) simp
  note this [simplified]
  then show ?thesis by simp
qed

lemma idle_rounds:
  assumes "\<And>waiting. ready (wait False waiting) = Some []"
  shows "AcceptNewConnection poll wait C (replicate n (False, [])) S = (S, None)"
proof (induction n)
  case (Suc n)
  have "AcceptNewConnection poll wait C ((False, []) # replicate n (False, [])) S =
      AcceptNewConnection poll wait C (replicate n (False, [])) (S\<lparr>backlog := backlog S @ []\<rparr>)"
    by (rule round_idle) (use assms in simp)
  with Suc show ?case by (simp del: AcceptNewConnection.simps)
qed simp

lemma busy_rounds:
  assumes "\<And>new. ready (wait new True) = Some [(serverFD S, c_read C, fl)]" and "\<And>new. ready (wait new False) = Some []"
  shows "\<exists>S'. AcceptNewConnection poll wait C (replicate n (False, [])) S = (S', None) \<and>
    backlog S' = drop n (backlog S)"
  using assms
proof (induction n arbitrary: S)
  case (Suc n)
  show ?case
  proof (cases "backlog S = []")
    case True
    have "AcceptNewConnection poll wait C ((False, []) # replicate n (False, [])) S =
        AcceptNewConnection poll wait C (replicate n (False, [])) (S\<lparr>backlog := backlog S @ []\<rparr>)"
      by (rule round_idle) (use True Suc.prems in simp)
    moreover have e: "S\<lparr>backlog := backlog S @ []\<rparr> = S" by simp
    ultimately have "AcceptNewConnection poll wait C (replicate (Suc n) (False, [])) S =
        AcceptNewConnection poll wait C (replicate n (False, [])) S"
      by (simp only: e replicate_Suc)
    with Suc.IH [OF Suc.prems] True show ?thesis by (simp del: AcceptNewConnection.simps replicate_Suc)
  next
    case False
    let ?S = "fst (eventHandler C (serverFD S) (c_read C) fl (S\<lparr>backlog := backlog S @ []\<rparr>))"
    have "AcceptNewConnection poll wait C ((False, []) # replicate n (False, [])) S =
        AcceptNewConnection poll wait C (replicate n (False, [])) ?S"
      by (rule round_event) (use False Suc.prems(1) in simp)
    moreover have "serverFD ?S = serverFD S" "backlog ?S = tl (backlog S)" by (simp_all add: eventHandler_takes)
    moreover obtain S' where "AcceptNewConnection poll wait C (replicate n (False, [])) ?S = (S', None)"
      "backlog S' = drop n (backlog ?S)"
      using Suc.IH [of ?S] Suc.prems \<open>serverFD ?S = serverFD S\<close> by auto
    ultimately show ?thesis by (simp add: drop_Suc del: AcceptNewConnection.simps)
  qed
qed (simp add: exI [of _ S])

end

interpretation epoll_loop: accept_loop EpollPoll epoll_ready ..

interpretation kqueue_loop: accept_loop "KqueuePoll k" "kqueue_ready k" for k ..

text \<open>C31.  Connections that arrive together.  On epoll the listening socket is registered edge-triggered:
  the kernel reports it when connections arrive, and not again for those still waiting; as
  every report accepts one connection, all but the first of those that arrive together wait
  for good, however often the loop polls, until somebody else connects.  On kqueue the
  registration is level-triggered, the socket is reported while any connection waits, and all
  are accepted.  No error of the handler ends the loop.\<close>

theorem accept_progress:
  assumes edge: "\<And>new waiting. epoll_ready (ew new waiting) = Some (if new then [(serverFD S, EPOLL_READ, p)] else [])"
    and level: "\<And>new waiting. kqueue_ready k (kw new waiting) = Some (if waiting then [(serverFD S, KQ_READ, q)] else [])"
    and "c_read C = EPOLL_READ" and "c_read D = KQ_READ" and "backlog S = []" and "as \<noteq> []" and "length as \<le> Suc n"
  shows "epoll_interest EPOLL_READ AND EPOLLET \<noteq> 0 \<and> (EV_ADD OR EV_ENABLE) AND EV_CLEAR = 0 \<and>
    (\<exists>S'. AcceptNewConnection EpollPoll ew C ((False, as) # replicate n (False, [])) S = (S', None) \<and> backlog S' = tl as) \<and>
    (\<exists>S'. AcceptNewConnection (KqueuePoll k) kw D ((False, as) # replicate n (False, [])) S = (S', None) \<and> backlog S' = [])"
proof (intro conjI)
  show "epoll_interest EPOLL_READ AND EPOLLET \<noteq> 0" "(EV_ADD OR EV_ENABLE) AND EV_CLEAR = 0"
    by (simp_all add: epoll_interest_def EPOLL_READ_def EPOLLIN_def EPOLLET_def EV_ADD_def EV_ENABLE_def EV_CLEAR_def)
  let ?S = "S\<lparr>backlog := backlog S @ as\<rparr>"
  let ?E = "fst (eventHandler C (serverFD S) (c_read C) p ?S)"
  let ?K = "fst (eventHandler D (serverFD S) (c_read D) q ?S)"
  have "AcceptNewConnection EpollPoll ew C ((False, as) # replicate n (False, [])) S =
      AcceptNewConnection EpollPoll ew C (replicate n (False, [])) ?E"
    by (rule epoll_loop.round_event) (use assms in simp)
  also have "\<dots> = (?E, None)"
    by (rule epoll_loop.idle_rounds) (simp add: edge)
  finally show "\<exists>S'. AcceptNewConnection EpollPoll ew C ((False, as) # replicate n (False, [])) S = (S', None) \<and> backlog S' = tl as"
    using assms(5) by (intro exI [of _ ?E]) (simp add: eventHandler_takes)
  have "AcceptNewConnection (KqueuePoll k) kw D ((False, as) # replicate n (False, [])) S =
      AcceptNewConnection (KqueuePoll k) kw D (replicate n (False, [])) ?K"
    by (rule kqueue_loop.round_event) (use assms in simp)
  moreover obtain S' where "AcceptNewConnection (KqueuePoll k) kw D (replicate n (False, [])) ?K = (S', None)"
    "backlog S' = drop n (backlog ?K)"
    using kqueue_loop.busy_rounds [of k kw ?K D q n] assms(4) level by (auto simp: eventHandler_takes)
  ultimately show "\<exists>S'. AcceptNewConnection (KqueuePoll k) kw D ((False, as) # replicate n (False, [])) S = (S', None) \<and> backlog S' = []"
    using assms(5,7) by (simp add: eventHandler_takes del: AcceptNewConnection.simps)
qed

theorem accept_progress_witness:
  "\<exists>S'. AcceptNewConnection EpollPoll
      (\<lambda>new waiting. Inr (if new then [\<lparr>ev_Events = EPOLLIN, ev_Fd = 3, ev_Pad = 0\<rparr>] else [])) settings0
      ((False, [arrival0 7 8 OtherAddr [], arrival0 9 10 OtherAddr []]) # [(False, []), (False, [])]) (NewServer 3) = (S', None) \<and>
    backlog S' = [arrival0 9 10 OtherAddr []]"
  using accept_progress [of "\<lambda>new waiting. Inr (if new then [\<lparr>ev_Events = EPOLLIN, ev_Fd = 3, ev_Pad = 0\<rparr>] else [])"
      "NewServer 3" 0 "\<lparr>kq = 4, kclosed = False\<rparr>"
      "\<lambda>new waiting. Inr (if waiting then [\<lparr>kv_Ident = 3, kv_Filter = KQ_READ, kv_Flags = 0\<rparr>] else [])" 0 settings0
      "settings0\<lparr>c_read := KQ_READ\<rparr>" "[arrival0 7 8 OtherAddr [], arrival0 9 10 OtherAddr []]" 2]
  by (simp add: numeral_2_eq_2 epoll_ready_one kqueue_ready_one epoll_ready_def kqueue_ready_def settings0_def NewServer_def
      EPOLLIN_def EPOLLERR_def EPOLLHUP_def EPOLL_READ_def del: AcceptNewConnection.simps)

section \<open>A conversation\<close>

text \<open>A framed message that comes in reads of its own leaves the reads after it alone.\<close>

lemma read_frame:
  assumes "concat cs = frame d" and "length d \<le> MaxRequestBodySize"
  shows "\<exists>buf cs1 cs2. read_full sz 4 [] [] (cs @ rest) = (Inr (PutUint32 (of_nat (length d))), buf, cs1 @ rest) \<and>
    read_full sz (length d) [] buf (cs1 @ rest) = (Inr d, [], cs2 @ rest) \<and> concat cs2 = [] \<and> length buf \<le> sz"
proof -
  have "4 \<le> length ([] @ concat cs)" using assms(1) by (simp add: frame_def)
  from read_full_ok [OF this, of sz "[]" rest] obtain buf cs1 where
    1: "read_full sz 4 [] [] (cs @ rest) = (Inr (PutUint32 (of_nat (length d))), buf, cs1 @ rest)" "buf @ concat cs1 = d" "length buf \<le> sz"
    using assms(1) by (auto simp: frame_def)
  then have "length d \<le> length (buf @ concat cs1)" by simp
  from read_full_ok [OF this, of sz "[]" rest] 1 show ?thesis by auto
qed

lemma ReadSync_frame:
  assumes "concat cs = frame d" and "d \<noteq> []" and "length d \<le> MaxRequestBodySize"
  shows "\<exists>cs'. ReadSync (cs @ rest) = (Inr d, cs' @ rest) \<and> concat cs' = []"
    and "\<exists>cs'. ReadAuth (cs @ rest) = (Inr d, cs' @ rest) \<and> concat cs' = []"
proof -
  have u: "unat (Uint32 (PutUint32 (of_nat (length d)))) = length d"
    using frame_length [OF assms(3)] Uint32_PutUint32 [of "of_nat (length d)" "[]"] by simp
  from read_frame [OF assms(1,3), of IoBufferSize rest]
  show "\<exists>cs'. ReadSync (cs @ rest) = (Inr d, cs' @ rest) \<and> concat cs' = []"
    using u assms(2,3) by (auto simp: ReadSync_def Let_def)
  from read_frame [OF assms(1,3), of 0 rest]
  show "\<exists>cs'. ReadAuth (cs @ rest) = (Inr d, cs' @ rest) \<and> concat cs' = []"
    using u assms(2,3) by (auto simp: ReadAuth_def Let_def)
qed

lemma ReadSync_end: "concat cs = [] \<Longrightarrow> \<exists>cs'. ReadSync cs = (Inl EOF, cs')"
proof -
  have "read_full IoBufferSize 4 [] [] cs = (Inl EOF, [], [])" if "concat cs = []"
    using that by (induction cs) (subst read_full.simps, simp add: IoBufferSize_def)+
  then show "concat cs = [] \<Longrightarrow> \<exists>cs'. ReadSync cs = (Inl EOF, cs')"
    by (simp add: ReadSync_def)
qed

text \<open>What a conversation is meant to be: the requests in order, each handled on the state the one
  before left, until the client hangs up or a handler panics.\<close>

fun converse ::
  "(bytes \<Rightarrow> (string \<times> string list) option) \<Rightarrow> string \<Rightarrow> string \<Rightarrow> (nat \<Rightarrow> env) \<Rightarrow> nat \<Rightarrow> bytes list \<Rightarrow> db
    \<Rightarrow> db \<times> response list \<times> ending" where
  "converse decode dm jm E k [] sm = (sm, [], Ended EOF)"
| "converse decode dm jm E k (d # ds) sm =
     (case OnTraffic decode dm jm (E k) d sm of
        (sm', None) \<Rightarrow> (sm', [], Panicked)
      | (sm', Some r) \<Rightarrow>
          (case converse decode dm jm E (Suc k) ds sm' of (sm'', rs, x) \<Rightarrow> (sm'', r # rs, x)))"

definition framed :: "bytes list \<Rightarrow> bytes \<Rightarrow> bool" where
  "framed cs d \<longleftrightarrow> concat cs = frame d \<and> d \<noteq> [] \<and> length d \<le> MaxRequestBodySize"

text \<open>What the server writes is framed as what it reads.\<close>

lemma WriteSync_framed:
  assumes "WriteSync C r = Some bs" and "c_encode C r = Some d" and "d \<noteq> []" and "length d \<le> MaxRequestBodySize"
  shows "framed [bs] d" and "\<exists>cs. ReadSync [bs] = (Inr d, cs)"
  using assms frame_read [of "[frame d]" d "[]"] by (auto simp: WriteSync_def framed_def)

lemma StartSync_converse:
  assumes "list_all2 framed css ds" and "concat pre = []"
  shows "StartSync decode dm jm E k (pre @ concat css) sm = converse decode dm jm E k ds sm"
  using assms
proof (induction css ds arbitrary: pre k sm rule: list_all2_induct)
  case Nil
  then obtain cs' where "ReadSync pre = (Inl EOF, cs')" using ReadSync_end by blast
  then show ?case by (subst StartSync.simps) simp
next
  case (Cons cs css d ds)
  have "concat (pre @ cs) = frame d" "d \<noteq> []" "length d \<le> MaxRequestBodySize"
    using Cons.hyps(1) Cons.prems by (simp_all add: framed_def)
  from ReadSync_frame(1) [OF this, of "concat css"] obtain cs' where
    r: "ReadSync (pre @ concat (cs # css)) = (Inr d, cs' @ concat css)" "concat cs' = []" by auto
  show ?case
    using Cons.IH [OF r(2)]
    by (subst StartSync.simps) (simp add: r(1) del: concat.simps split: prod.split option.split)
qed

text \<open>What the reads return to a client that speaks when it is spoken to: it sends a message, waits for the
  answer, and only then sends the next (\<open>ts\<close> are the messages it has not begun).  Of the message it is sending
  \<open>u\<close> has not arrived yet, \<open>b\<close> waits in the socket.  The network delivers any part, and a read
  returns any part of what waits, so that a message may come in many reads, and what was sent in
  pieces in one.  Since there is an answer only to a message that was read to its end, the next one begins when
  nothing waits.\<close>

inductive polite :: "bytes list \<Rightarrow> bytes \<Rightarrow> bytes \<Rightarrow> bytes list \<Rightarrow> bool" where
  hangup: "polite [] [] [] []"
| turn: "polite ts t [] cs \<Longrightarrow> polite (t # ts) [] [] cs"
| arrive: "polite ts u (b @ x) cs \<Longrightarrow> polite ts (x @ u) b cs"
| read: "polite ts u b cs \<Longrightarrow> x \<noteq> [] \<Longrightarrow> polite ts u (x @ b) (x # cs)"

lemma polite_turns:
  "polite ts u b cs \<Longrightarrow> \<exists>cs0 css. cs = cs0 @ concat css \<and> concat cs0 = b @ u \<and> list_all2 (\<lambda>cs t. concat cs = t) css ts"
proof (induction rule: polite.induct)
  case hangup
  then show ?case by (intro exI [of _ "[]"]) simp
next
  case (turn ts t cs)
  then obtain cs0 css where "cs = cs0 @ concat css" "concat cs0 = t" "list_all2 (\<lambda>cs t. concat cs = t) css ts" by auto
  then show ?case by (intro exI [of _ "[]"] exI [of _ "cs0 # css"]) simp
next
  case (read ts u b cs x)
  then obtain cs0 css where "cs = cs0 @ concat css" "concat cs0 = b @ u" "list_all2 (\<lambda>cs t. concat cs = t) css ts" by auto
  then show ?case by (intro exI [of _ "x # cs0"] exI [of _ css]) simp
qed simp

definition message :: "bytes \<Rightarrow> bool" where
  "message d \<longleftrightarrow> d \<noteq> [] \<and> length d \<le> MaxRequestBodySize"

lemma polite_framed:
  assumes "polite (map frame (m # ds)) [] [] cs" and "\<forall>d \<in> set (m # ds). message d"
  obtains cs0 css where "cs = cs0 @ concat css" "framed cs0 m" "list_all2 framed css ds"
proof -
  obtain cs0 css where cs: "cs = cs0 @ concat css" "concat cs0 = []"
    "list_all2 (\<lambda>cs t. concat cs = t) css (map frame (m # ds))"
    using polite_turns [OF assms(1)] by auto
  then obtain c1 css1 where css: "css = c1 # css1" "concat c1 = frame m" "list_all2 (\<lambda>cs t. concat cs = t) css1 (map frame ds)"
    by (auto simp: list_all2_Cons2)
  have "list_all2 framed css1 ds"
    using css(3) assms(2) by (auto simp: list_all2_conv_all_nth framed_def message_def)
  moreover have "framed (cs0 @ c1) m" using css(2) cs(2) assms(2) by (simp add: framed_def message_def)
  moreover have "cs = (cs0 @ c1) @ concat css1" using cs(1) css(1) by simp
  ultimately show ?thesis using that by blast
qed

text \<open>C13.  A client that authenticates and sends every request only when it has the answer to the one
  before is served in full, however the network and the reads cut its messages up or join their pieces:
  it is admitted with an active session of the user it named, and its goroutine handles exactly
  its requests, in order, each on the state the one before left, answering each once, until it
  hangs up or a handler panics.  (A client that does not wait can lose requests: \<open>pipelined_lost\<close>.)\<close>

theorem conversation:
  assumes "backlog S = a # as" and "a_accept a = Inr (fd, addr)" and "i = GenerateUniqueClientID fd (FormatClientAddr addr)"
    and "gm_get (connectedClients (ioThreads S)) i = None" and "authenticates C a"
    and "a_nonblock a = None" and "a_register a = None" and "a_fileconn a = Inr d" and "a_options a = None"
    and "polite (map frame (m # ds)) [] [] (a_input a)" and "\<forall>d \<in> set (m # ds). message d"
  shows "\<exists>S' g s. eventHandler C (serverFD S) (c_read C) fl S = (S', None) \<and>
    gm_get (goroutines S') i = Some g \<and> gphase g = Starting \<and> gthread g = \<lparr>ioClientID = i, iofd = fd, iodup = d, ioclosed = False\<rparr> \<and>
    GetById (ssns S') i = Some s \<and> Status s = SessionStatusActive \<and>
    (\<exists>un. gm_get (c_users C) un = Some (User s)) \<and>
    StartSync (c_decode C) dm jm E k (ginput g) sm = converse (c_decode C) dm jm E k ds sm"
proof -
  obtain cs0 css where cs: "a_input a = cs0 @ concat css" "framed cs0 m" "list_all2 framed css ds"
    using polite_framed [OF assms(10,11)] .
  from ReadSync_frame(2) [of cs0 m "concat css"] cs(2) obtain cs1 where
    ra: "ReadAuth (a_input a) = (Inr m, cs1 @ concat css)" "concat cs1 = []"
    by (auto simp: framed_def cs(1))
  let ?S = "sys [Opened fd i] (S\<lparr>backlog := as\<rparr>)"
  obtain un pw u where u: "auth_user (c_auth C) (c_users C) un pw = Some u" and
    au: "AuthenticateClient (c_decode C) (c_auth C) (a_time a) (c_users C) i (a_input a) (ssns S) =
      (Activate (a_time a) (NewSession (a_time a) u i) (ssns S), Inr True, cs1 @ concat css)"
    using AuthenticateClient_cases [of "c_decode C" "c_auth C" "a_time a" "c_users C" i "a_input a" "ssns S"]
      assms(5) [unfolded authenticates_iff [where t = "a_time a" and c = i and ss = "ssns S"]] ra(1) by auto
  let ?t = "\<lparr>ioClientID = i, iofd = fd, iodup = d, ioclosed = False\<rparr>"
  let ?g = "\<lparr>gthread = ?t, gphase = Starting, ginput = cs1 @ concat css\<rparr>"
  let ?s = "\<lparr>SessionID = i, User = u, Status = SessionStatusActive, CreatedAt = a_time a, LastAccessedAt = a_time a\<rparr>"
  have "\<exists>un. gm_get (c_users C) un = Some u" using u by (auto simp: auth_user_def split: if_splits option.splits)
  moreover have "\<exists>S'. eventHandler C (serverFD S) (c_read C) fl S = (S', None) \<and> gm_get (goroutines S') i = Some ?g \<and>
      gm_get (ssns S') i = Some ?s"
    using assms(1-9) au
    by (simp add: eventHandler_def admit_def ConnectAndAuthenticate_def GetThread_def NewIOThread_def NewConn_def
        Activate_lookup Let_def)
  ultimately show ?thesis
    using StartSync_converse [OF cs(3) ra(2)] by (auto simp: GetById_def)
qed

text \<open>The first request of the conversation of the example is the empty command, which does not exist.\<close>

text \<open>The second message of the example is sent in two pieces, which one read returns together.\<close>

theorem conversation_witness:
  "\<exists>S' g. eventHandler settings0 3 EPOLL_READ 0
      (NewServer 3\<lparr>backlog := [arrival0 7 8 OtherAddr [frame ''a'', frame ''b'']]\<rparr>) = (S', None) \<and>
    gm_get (goroutines S') (GenerateUniqueClientID 7 (FormatClientAddr OtherAddr)) = Some g \<and>
    StartSync (c_decode settings0) [] [] (\<lambda>_. env1 5) 0 (ginput g) db1 =
      (db1, [\<lparr>rclient = ClientID (env1 5), rstatus = STATUS_SUCCESS, rresult = ''PONG ''\<rparr>], Ended EOF)"
proof -
  let ?a = "arrival0 7 8 OtherAddr [frame ''a'', frame ''b'']"
  have "polite [] [] (frame ''b'') [frame ''b'']"
    using polite.read [OF polite.hangup, of "frame ''b''"] by (simp add: frame_def)
  then have "polite [] ''b'' (PutUint32 1) [frame ''b'']"
    using polite.arrive [of "[]" "[]" "PutUint32 1" "''b''"] by (simp add: frame_def)
  then have "polite [frame ''b''] [] [] [frame ''b'']"
    using polite.arrive [of "[]" "''b''" "[]" "PutUint32 1"] polite.turn by (simp add: frame_def)
  then have "polite [frame ''b''] [] (frame ''a'') [frame ''a'', frame ''b'']"
    using polite.read [of "[frame ''b'']" "[]" "[]" _ "frame ''a''"] by (simp add: frame_def)
  then have p: "polite [frame ''a'', frame ''b''] [] [] [frame ''a'', frame ''b'']"
    using polite.arrive [of "[frame ''b'']" "[]" "[]" "frame ''a''"] polite.turn by simp
  have "converse (c_decode settings0) [] [] (\<lambda>_. env1 5) 0 [''b''] db1 =
      (db1, [\<lparr>rclient = ClientID (env1 5), rstatus = STATUS_SUCCESS, rresult = ''PONG ''\<rparr>], Ended EOF)"
    by (simp add: settings0_def OnTraffic_def Execute_def ExecCommands_def ToUpper_upper byte_of_def echoBack_def
        names_client_def)
  then show ?thesis
    using conversation [of "NewServer 3\<lparr>backlog := [?a]\<rparr>" ?a "[]" 7 OtherAddr
        "GenerateUniqueClientID 7 (FormatClientAddr OtherAddr)" settings0 8 "''a''" "[''b'']" 0 "[]" "[]" "\<lambda>_. env1 5" 0 db1]
      p settings0_auth
    by (auto simp: arrival0_def NewServer_def NewIOThreadManager_def settings0_def message_def MaxRequestBodySize_def)
qed

end
