(* ===== verification/Interleaving.thy ===== *)
theory Interleaving
  imports Connections
begin

text \<open>
  Connections side by side: the accept loop admits one connection after the other while the
  goroutines of the others start, end and clean up, in any order.  \<open>net_ok\<close> is the invariant of the
  bookkeeping; the clean-up of one connection is exact when nothing comes between its parts, and
  closes a descriptor of somebody else when something does, after which the count of connections stays
  too high.
\<close>

section \<open>Steps\<close>

text \<open>
  What is asked of an accepted connection: its descriptor is the lowest that is not in use,
  the duplicate the lowest after that, which the kernel promises; and there is no goroutine yet for the same
  descriptor and peer, which fails only when a client connects again from the same address and port, and gets
  the same descriptor, before the clean-up of its connection before is over.  \<open>U\<close> are the descriptors in
  use elsewhere in the process.
\<close>

definition unused :: "(int \<Rightarrow> bool) \<Rightarrow> server \<Rightarrow> int \<Rightarrow> bool" where
  "unused U S fd \<longleftrightarrow> 0 \<le> fd \<and> \<not> U fd \<and> open_fds S fd = None"

definition fresh :: "(int \<Rightarrow> bool) \<Rightarrow> server \<Rightarrow> arrival \<Rightarrow> bool" where
  "fresh U S a \<longleftrightarrow>
     (case a_accept a of
        Inl _ \<Rightarrow> True
      | Inr (fd, addr) \<Rightarrow>
          unused U S fd \<and> (\<forall>e. unused U S e \<longrightarrow> fd \<le> e) \<and>
          gm_get (goroutines S) (GenerateUniqueClientID fd (FormatClientAddr addr)) = None \<and>
          (case a_fileconn a of
             Inl _ \<Rightarrow> True
           | Inr d \<Rightarrow> d \<noteq> fd \<and> unused U S d \<and> (\<forall>e. unused U S e \<and> e \<noteq> fd \<longrightarrow> d \<le> e)))"

inductive net_step :: "settings \<Rightarrow> (int \<Rightarrow> bool) \<Rightarrow> server \<Rightarrow> server \<Rightarrow> bool" for C U where
  arrive: "net_step C U S (S\<lparr>backlog := backlog S @ [a]\<rparr>)"
| accept: "backlog S = a # as \<Longrightarrow> fresh U S a \<Longrightarrow>
    net_step C U S (fst (eventHandler C (serverFD S) (c_read C) fl S))"
| start: "net_step C U S (start_thread i S)"
| unregister: "net_step C U S (cleanup_unregister i S)"
| close: "net_step C U S (cleanup_close C i S)"
| finish: "net_step C U S (cleanup_done i S)"

inductive net_reach :: "settings \<Rightarrow> (int \<Rightarrow> bool) \<Rightarrow> server \<Rightarrow> bool" for C U where
  init: "net_reach C U (NewServer fd)"
| step: "net_reach C U S \<Longrightarrow> net_step C U S S' \<Longrightarrow> net_reach C U S'"

section \<open>The invariant\<close>

definition goroutine_ok :: "server \<Rightarrow> string \<Rightarrow> goroutine \<Rightarrow> bool" where
  "goroutine_ok S i g \<longleftrightarrow>
     ioClientID (gthread g) = i \<and>
     (\<exists>s. GetById (ssns S) i = Some s \<and> Status s = SessionStatusActive) \<and>
     (case gphase g of
        Starting \<Rightarrow> \<not> ioclosed (gthread g) \<and> gm_get (connectedClients (ioThreads S)) i = None
      | Serving \<Rightarrow> \<not> ioclosed (gthread g) \<and> gm_get (connectedClients (ioThreads S)) i = Some (gthread g)
      | _ \<Rightarrow> ioclosed (gthread g) \<and> gm_get (connectedClients (ioThreads S)) i = None)"

definition net_ok :: "server \<Rightarrow> bool" where
  "net_ok S \<longleftrightarrow>
     gm_ok (goroutines S) \<and> io_ok (ioThreads S) \<and>
     activeThreads S = int (length (goroutines S)) \<and>
     (\<forall>i g. gm_get (goroutines S) i = Some g \<longrightarrow> goroutine_ok S i g) \<and>
     (\<forall>i. gm_get (goroutines S) i = None \<longrightarrow> gm_get (connectedClients (ioThreads S)) i = None)"

lemma net_okD:
  assumes "net_ok S" and "gm_get (goroutines S) i = Some g"
  shows "goroutine_ok S i g"
  using assms by (simp add: net_ok_def)

lemma length_gm_upd_old': "gm_ok m \<Longrightarrow> gm_get m i = Some x \<Longrightarrow> length (gm_upd i y m) = length m"
  by (rule length_gm_upd_old) simp_all

lemma net_ok_NewServer: "net_ok (NewServer fd)"
  by (simp add: net_ok_def NewServer_def io_ok_def NewIOThreadManager_def)

text \<open>A step that changes one goroutine, its registration and its session.\<close>

lemma net_ok_upd:
  assumes "net_ok S" and "io_ok m"
    and "\<And>j. j \<noteq> i \<Longrightarrow> gm_get (connectedClients m) j = gm_get (connectedClients (ioThreads S)) j"
    and "\<And>j. j \<noteq> i \<Longrightarrow> GetById ss j = GetById (ssns S) j"
    and "goroutines S' = gm_upd i g (goroutines S)" and "ioThreads S' = m" and "ssns S' = ss"
    and "activeThreads S' = activeThreads S + (if gm_get (goroutines S) i = None then 1 else 0)"
    and "goroutine_ok S' i g"
  shows "net_ok S'"
proof -
  have "length (gm_upd i g (goroutines S)) =
      length (goroutines S) + (if gm_get (goroutines S) i = None then 1 else 0)"
    using assms(1) length_gm_upd_new [of "goroutines S" i g] length_gm_upd_old' [of "goroutines S" i _ g]
    by (auto simp: net_ok_def)
  moreover have "goroutine_ok S' j h" if "j \<noteq> i" "gm_get (goroutines S) j = Some h" for j h
    using net_okD [OF assms(1) that(2)] that(1) assms(3,4,6,7)
    by (cases "gphase h") (simp_all add: goroutine_ok_def)
  ultimately show ?thesis
    using assms by (auto simp: net_ok_def split: if_splits)
qed

lemma net_ok_del:
  assumes "net_ok S" and "gm_get (goroutines S) i \<noteq> None"
    and "gm_get (connectedClients (ioThreads S)) i = None"
    and "\<And>j. j \<noteq> i \<Longrightarrow> GetById ss j = GetById (ssns S) j"
    and "goroutines S' = gm_del i (goroutines S)" and "ioThreads S' = ioThreads S" and "ssns S' = ss"
    and "activeThreads S' = activeThreads S - 1"
  shows "net_ok S'"
proof -
  have "Suc (length (gm_del i (goroutines S))) = length (goroutines S)"
    using assms(1,2) by (intro length_gm_del_old) (auto simp: net_ok_def)
  moreover have "goroutine_ok S' j h" if "j \<noteq> i" "gm_get (goroutines S) j = Some h" for j h
    using net_okD [OF assms(1) that(2)] that(1) assms(4,6,7)
    by (cases "gphase h") (simp_all add: goroutine_ok_def)
  ultimately show ?thesis
    using assms by (auto simp: net_ok_def split: if_splits)
qed

text \<open>What does not touch the bookkeeping.\<close>

lemma net_ok_same:
  assumes "net_ok S" and "goroutines S' = goroutines S" and "ioThreads S' = ioThreads S"
    and "activeThreads S' = activeThreads S"
    and "\<And>i. gm_get (goroutines S) i \<noteq> None \<Longrightarrow> GetById (ssns S') i = GetById (ssns S) i"
  shows "net_ok S'"
  using assms unfolding net_ok_def goroutine_ok_def by (auto split: phase.splits)

lemma GetById_Activate:
  "GetById (Activate t (NewSession t u c) ss) i =
     (if i = c then Some \<lparr>SessionID = c, User = u, Status = SessionStatusActive, CreatedAt = t, LastAccessedAt = t\<rparr>
      else GetById ss i)"
  by (simp add: GetById_def Activate_lookup)

lemma NewConn_simps:
  "goroutines (fst (NewConn a fd i S)) = goroutines S" "ioThreads (fst (NewConn a fd i S)) = ioThreads S"
  "activeThreads (fst (NewConn a fd i S)) = activeThreads S" "ssns (fst (NewConn a fd i S)) = ssns S"
  by (auto simp: NewConn_def Let_def split: sum.split option.split)

lemma NewIOThread_cases:
  obtains (failed) S' e where "NewIOThread a fd i S = (S', Inl e)"
      "goroutines S' = goroutines S" "ioThreads S' = ioThreads S" "activeThreads S' = activeThreads S" "ssns S' = ssns S"
  | (made) S' d where "NewIOThread a fd i S = (S', Inr \<lparr>ioClientID = i, iofd = fd, iodup = d, ioclosed = False\<rparr>)"
      "goroutines S' = goroutines S" "ioThreads S' = ioThreads S" "activeThreads S' = activeThreads S" "ssns S' = ssns S"
  using NewConn_simps [of a fd i S]
  by (cases "NewConn a fd i S"; cases "snd (NewConn a fd i S)") (auto simp: NewIOThread_def)

text \<open>A client that has just been granted a session and has no goroutine yet.\<close>

lemma net_ok_session:
  assumes "net_ok S" and "gm_get (goroutines S) i = None"
    and "ssns T = Activate t (NewSession t u i) (ssns S)" and "goroutines T = goroutines S"
    and "ioThreads T = ioThreads S" and "activeThreads T = activeThreads S"
  shows "net_ok T"
proof (rule net_ok_same [OF assms(1,4-6)])
  fix j assume "gm_get (goroutines S) j \<noteq> None"
  with assms(2) have "j \<noteq> i" by auto
  then show "GetById (ssns T) j = GetById (ssns S) j" by (simp add: assms(3) GetById_Activate)
qed

lemma admit_granted_ok:
  assumes ok: "net_ok S" and new: "gm_get (goroutines S) i = None"
    and c: "ConnectAndAuthenticate C a fd i S = (T, True, rest)"
    and T: "ssns T = Activate t (NewSession t u i) (ssns S)" "goroutines T = goroutines S"
      "ioThreads T = ioThreads S" "activeThreads T = activeThreads S"
  shows "net_ok (admit C a fd i S)"
proof (cases "a_nonblock a = None \<and> a_register a = None")
  case False
  then have "admit C a fd i S = sys [SysClose fd] T" by (auto simp: admit_def c)
  then show ?thesis using T by (auto intro: net_ok_session [OF ok new])
next
  case True
  have reg: "gm_get (connectedClients (ioThreads S)) i = None" using ok new by (simp add: net_ok_def)
  show ?thesis
  proof (cases rule: NewIOThread_cases [of a fd i T])
    case (failed S' e)
    then have "admit C a fd i S = sys [SysClose fd] S'" using True reg T by (simp add: admit_def c GetThread_def)
    then show ?thesis using T failed by (auto intro: net_ok_session [OF ok new])
  next
    case (made S' d)
    let ?g = "\<lparr>gthread = \<lparr>ioClientID = i, iofd = fd, iodup = d, ioclosed = False\<rparr>, gphase = Starting, ginput = rest\<rparr>"
    have "admit C a fd i S = S'\<lparr>activeThreads := activeThreads S' + 1, goroutines := gm_upd i ?g (goroutines S')\<rparr>"
      using True reg made(1) T by (simp add: admit_def c GetThread_def)
    then show ?thesis
      using made T ok new reg
      by (intro net_ok_upd [OF ok, where i = i and g = ?g and m = "ioThreads S" and ss = "ssns T"])
        (simp_all add: net_ok_def goroutine_ok_def GetById_Activate)
  qed
qed

lemma admit_ok:
  assumes ok: "net_ok S" and new: "gm_get (goroutines S) i = None"
  shows "net_ok (admit C a fd i S)"
proof -
  let ?A = "AuthenticateClient (c_decode C) (c_auth C) (a_time a) (c_users C) i (a_input a) (ssns S)"
  consider (denied) e rest where "?A = (ssns S, Inl e, rest)"
    | (granted) u rest where "?A = (Activate (a_time a) (NewSession (a_time a) u i) (ssns S), Inr True, rest)"
    using AuthenticateClient_cases [of "c_decode C" "c_auth C" "a_time a" "c_users C" i "a_input a" "ssns S"] by auto
  then show ?thesis
  proof cases
    case denied
    then show ?thesis
      by (intro net_ok_same [OF ok]) (simp_all add: admit_def ConnectAndAuthenticate_def)
  next
    case granted
    then have "ConnectAndAuthenticate C a fd i S =
        (WriteErr C fd \<lparr>rclient = i, rstatus = ''Ok'', rresult = ''Connected''\<rparr>
           (S\<lparr>ssns := Activate (a_time a) (NewSession (a_time a) u i) (ssns S)\<rparr>), True, rest)"
      by (simp add: ConnectAndAuthenticate_def)
    from admit_granted_ok [OF ok new this] show ?thesis by simp
  qed
qed

lemma eventHandler_ok:
  assumes "net_ok S" and "backlog S = a # as" and "fresh U S a"
  shows "net_ok (fst (eventHandler C (serverFD S) (c_read C) fl S))"
proof (cases "a_accept a")
  case (Inl e)
  have "net_ok (fst (accept_error e (S\<lparr>backlog := as\<rparr>)))"
    by (rule net_ok_same [OF assms(1)]) (simp_all add: accept_error_def)
  then show ?thesis using assms(2) Inl by (simp add: eventHandler_def)
next
  case (Inr p)
  obtain fd addr where p: "p = (fd, addr)" by (cases p)
  let ?i = "GenerateUniqueClientID fd (FormatClientAddr addr)"
  have "net_ok (sys [Opened fd ?i] (S\<lparr>backlog := as\<rparr>))"
    by (rule net_ok_same [OF assms(1)]) simp_all
  moreover have "gm_get (goroutines S) ?i = None" using assms(3) Inr p by (simp add: fresh_def)
  ultimately have "net_ok (admit C a fd ?i (sys [Opened fd ?i] (S\<lparr>backlog := as\<rparr>)))"
    by (intro admit_ok) simp_all
  then show ?thesis using assms(2) Inr p by (simp add: eventHandler_def Let_def)
qed

lemma start_thread_ok:
  assumes "net_ok S"
  shows "net_ok (start_thread i S)"
proof (cases "gm_get (goroutines S) i")
  case (Some g)
  note g = net_okD [OF assms Some]
  show ?thesis
  proof (cases "gphase g = Starting")
    case True
    then have t: "gm_get (connectedClients (ioThreads S)) (ioClientID (gthread g)) = None"
      "\<not> ioclosed (gthread g)" "ioClientID (gthread g) = i" using g by (simp_all add: goroutine_ok_def)
    have io: "io_ok (ioThreads S)" using assms by (simp add: net_ok_def)
    note r = Register_ok [OF io t(1,2)]
    show ?thesis
    proof (cases "100000 \<le> numIOThreads (ioThreads S)")
      case full: True
      then have e: "start_thread i S = (sys [SysClose (iofd (gthread g))] S)
          \<lparr>activeThreads := activeThreads S - 1, goroutines := gm_del i (goroutines S)\<rparr>"
        using True Some by (simp add: start_thread_def RegisterIO_def)
      show ?thesis
        unfolding e by (rule net_ok_del [OF assms, of i "ssns S"]) (use Some t in simp_all)
    next
      case False
      let ?m = "fst (RegisterIO (gthread g) (ioThreads S))"
      have m: "connectedClients ?m = gm_upd i (gthread g) (connectedClients (ioThreads S))"
        using False t by (simp add: RegisterIO_def)
      have e: "start_thread i S = S\<lparr>ioThreads := ?m, goroutines := gm_upd i (g\<lparr>gphase := Serving\<rparr>) (goroutines S)\<rparr>"
        using True Some False by (simp add: start_thread_def RegisterIO_def)
      show ?thesis
        unfolding e
        by (rule net_ok_upd [OF assms, where i = i and g = "g\<lparr>gphase := Serving\<rparr>" and m = ?m and ss = "ssns S"])
          (use r g True t Some m in \<open>simp_all add: goroutine_ok_def\<close>)
    qed
  qed (use Some assms in \<open>simp add: start_thread_def\<close>)
qed (simp add: start_thread_def assms)

lemma cleanup_unregister_ok:
  assumes "net_ok S"
  shows "net_ok (cleanup_unregister i S)"
proof (cases "gm_get (goroutines S) i")
  case (Some g)
  note g = net_okD [OF assms Some]
  show ?thesis
  proof (cases "gphase g = Serving")
    case True
    then have t: "gm_get (connectedClients (ioThreads S)) i = Some (gthread g)" "ioClientID (gthread g) = i"
      using g by (simp_all add: goroutine_ok_def)
    let ?m = "fst (UnregisterIO (\<lambda>fd. open_fds S fd \<noteq> None) i (ioThreads S))"
    let ?g = "g\<lparr>gthread := fst (Stop (\<lambda>fd. open_fds S fd \<noteq> None) (gthread g)), gphase := Unregistered\<rparr>"
    have e: "cleanup_unregister i S = (sys (close_calls (gthread g)) S)
        \<lparr>ioThreads := ?m, goroutines := gm_upd i ?g (goroutines S)\<rparr>"
      using True Some t by (simp add: cleanup_unregister_def Let_def)
    have io: "io_ok (ioThreads S)" using assms by (simp add: net_ok_def)
    have m: "connectedClients ?m = gm_del i (connectedClients (ioThreads S))"
      using t(1) by (simp add: UnregisterIO_def Let_def split: prod.split option.split)
    show ?thesis
      unfolding e
      by (rule net_ok_upd [OF assms, where i = i and g = ?g and m = ?m and ss = "ssns S"])
        (use Unregister_ok [OF io, of "\<lambda>fd. open_fds S fd \<noteq> None" i] g Some t m in \<open>simp_all add: goroutine_ok_def Stop_def\<close>)
  qed (use Some assms in \<open>simp add: cleanup_unregister_def\<close>)
qed (simp add: cleanup_unregister_def assms)

lemma cleanup_close_ok:
  assumes "net_ok S"
  shows "net_ok (cleanup_close C i S)"
proof (cases "gm_get (goroutines S) i")
  case (Some g)
  note g = net_okD [OF assms Some]
  show ?thesis
  proof (cases "gphase g = Unregistered")
    case True
    let ?fd = "iofd (gthread g)"
    have e: "cleanup_close C i S = (sys [MuxDel ?fd (c_read C), MuxDel ?fd (c_write C), SysClose ?fd] S)
        \<lparr>goroutines := gm_upd i (g\<lparr>gphase := Closing\<rparr>) (goroutines S)\<rparr>"
      using True Some by (simp add: cleanup_close_def Let_def)
    have io: "io_ok (ioThreads S)" using assms by (simp add: net_ok_def)
    show ?thesis
      unfolding e
      by (rule net_ok_upd [OF assms, where i = i and g = "g\<lparr>gphase := Closing\<rparr>" and m = "ioThreads S" and ss = "ssns S"])
        (use io g Some True in \<open>simp_all add: goroutine_ok_def\<close>)
  qed (use Some assms in \<open>simp add: cleanup_close_def\<close>)
qed (simp add: cleanup_close_def assms)

lemma OnDisconnect_other: "j \<noteq> i \<Longrightarrow> GetById (OnDisconnect i ss) j = GetById ss j"
  by (simp add: GetById_def OnDisconnect_def ExpireById_def expireInternal_def)

lemma OnDisconnect_own: "GetById (OnDisconnect i ss) i = None"
  by (simp add: GetById_def OnDisconnect_def ExpireById_def expireInternal_def)

lemma cleanup_done_ok:
  assumes "net_ok S"
  shows "net_ok (cleanup_done i S)"
proof (cases "gm_get (goroutines S) i")
  case (Some g)
  note g = net_okD [OF assms Some]
  show ?thesis
  proof (cases "gphase g = Closing")
    case True
    have e: "cleanup_done i S = (sys (close_calls (gthread g)) S)\<lparr>activeThreads := activeThreads S - 1,
        ssns := OnDisconnect i (ssns S), goroutines := gm_del i (goroutines S)\<rparr>"
      using True Some by (simp add: cleanup_done_def)
    show ?thesis
      unfolding e
      by (rule net_ok_del [OF assms, where i = i and ss = "OnDisconnect i (ssns S)"])
        (use g Some True in \<open>simp_all add: goroutine_ok_def OnDisconnect_other\<close>)
  qed (use Some assms in \<open>simp add: cleanup_done_def\<close>)
qed (simp add: cleanup_done_def assms)

lemma net_step_ok: "net_step C U S S' \<Longrightarrow> net_ok S \<Longrightarrow> net_ok S'"
proof (induction rule: net_step.induct)
  case (arrive S a)
  then show ?case by (rule net_ok_same) simp_all
qed (simp_all add: eventHandler_ok start_thread_ok cleanup_unregister_ok cleanup_close_ok cleanup_done_ok)

lemma net_reach_ok: "net_reach C U S \<Longrightarrow> net_ok S"
  by (induction rule: net_reach.induct) (simp_all add: net_ok_NewServer net_step_ok)

section \<open>The count of connections\<close>

text \<open>A clean-up whose \<^verbatim>\<open>Stop\<close> fails, because a descriptor of the connection has been closed by somebody
  else, leaves the count as it is.\<close>

definition stop_fails :: "server \<Rightarrow> string \<Rightarrow> bool" where
  "stop_fails S i \<longleftrightarrow>
     (case gm_get (connectedClients (ioThreads S)) i of
        None \<Rightarrow> False
      | Some w \<Rightarrow> snd (Stop (\<lambda>fd. open_fds S fd \<noteq> None) w) \<noteq> None)"

definition failed_stop :: "server \<Rightarrow> server \<Rightarrow> bool" where
  "failed_stop S S' \<longleftrightarrow> (\<exists>i. stop_fails S i \<and> S' = cleanup_unregister i S)"

lemma admit_ioThreads [simp]: "ioThreads (admit C a fd i S) = ioThreads S"
  by (auto simp: admit_def ConnectAndAuthenticate_def NewIOThread_def NewConn_def Let_def
      split: prod.splits sum.splits option.splits)

lemma eventHandler_ioThreads: "ioThreads (fst (eventHandler C fd ft fl S)) = ioThreads S"
  by (auto simp: eventHandler_def accept_error_def Let_def split: list.split sum.split)

lemma start_thread_surplus:
  assumes "net_ok S"
  shows "surplus (ioThreads (start_thread i S)) = surplus (ioThreads S)"
proof (cases "\<exists>g. gm_get (goroutines S) i = Some g \<and> gphase g = Starting")
  case True
  then obtain g where g: "gm_get (goroutines S) i = Some g" "gphase g = Starting" by blast
  have "io_ok (ioThreads S)" using assms by (simp add: net_ok_def)
  from Register_ok [OF this, of "gthread g"] show ?thesis
    using net_okD [OF assms g(1)] g
    by (auto simp: start_thread_def goroutine_ok_def split: prod.split option.split)
qed (auto simp: start_thread_def split: option.split)

lemma unregister_surplus:
  assumes "net_ok S"
  shows "surplus (ioThreads (cleanup_unregister i S)) = surplus (ioThreads S) + (if stop_fails S i then 1 else 0)"
proof (cases "\<exists>g. gm_get (goroutines S) i = Some g \<and> gphase g = Serving")
  case True
  then obtain g where g: "gm_get (goroutines S) i = Some g" "gphase g = Serving" by blast
  have "io_ok (ioThreads S)" using assms by (simp add: net_ok_def)
  from Unregister_ok [OF this, of "\<lambda>fd. open_fds S fd \<noteq> None" i] show ?thesis
    using g by (auto simp: cleanup_unregister_def stop_fails_def Let_def split: option.splits)
next
  case False
  have "gm_get (connectedClients (ioThreads S)) i = None"
  proof (cases "gm_get (goroutines S) i")
    case None
    then show ?thesis using assms by (simp add: net_ok_def)
  next
    case (Some g)
    from net_okD [OF assms Some] Some False show ?thesis by (cases "gphase g") (auto simp: goroutine_ok_def)
  qed
  then show ?thesis using False by (auto simp: cleanup_unregister_def stop_fails_def split: option.split)
qed

lemma net_step_surplus:
  assumes "net_step C U S S'" and "net_ok S"
  shows "surplus (ioThreads S') = surplus (ioThreads S) + (if failed_stop S S' then 1 else 0)"
proof -
  have fails: "surplus (ioThreads S') = surplus (ioThreads S) + 1" if "failed_stop S S'"
    using that unregister_surplus [OF assms(2)] by (auto simp: failed_stop_def)
  have "surplus (ioThreads S') = surplus (ioThreads S)" if "\<not> failed_stop S S'"
    using assms(1)
  proof cases
    case (unregister i)
    then show ?thesis using unregister_surplus [OF assms(2), of i] that by (auto simp: failed_stop_def)
  next
    case (start i)
    then show ?thesis using start_thread_surplus [OF assms(2)] by simp
  next
    case (close i)
    then show ?thesis by (auto simp: cleanup_close_def Let_def split: option.split)
  next
    case (finish i)
    then show ?thesis by (auto simp: cleanup_done_def split: option.split)
  qed (simp_all add: eventHandler_ioThreads)
  with fails show ?thesis by auto
qed

text \<open>A run, with the number of clean-ups whose \<^verbatim>\<open>Stop\<close> has failed.\<close>

inductive net_run :: "settings \<Rightarrow> (int \<Rightarrow> bool) \<Rightarrow> nat \<Rightarrow> server \<Rightarrow> bool" for C U where
  init: "net_run C U 0 (NewServer fd)"
| step: "net_run C U n S \<Longrightarrow> net_step C U S S' \<Longrightarrow> net_run C U (n + (if failed_stop S S' then 1 else 0)) S'"

lemma net_run_reach: "net_run C U n S \<Longrightarrow> net_reach C U S"
  by (induction rule: net_run.induct) (auto intro: net_reach.intros)

lemma net_reach_run: "net_reach C U S \<Longrightarrow> \<exists>n. net_run C U n S"
proof (induction rule: net_reach.induct)
  case (init fd)
  show ?case using net_run.init by blast
next
  case (step S S')
  then show ?case using net_run.step by blast
qed

lemma net_run_surplus: "net_run C U n S \<Longrightarrow> surplus (ioThreads S) = int n"
proof (induction rule: net_run.induct)
  case (init fd)
  show ?case by (simp add: surplus_def NewServer_def NewIOThreadManager_def)
next
  case (step n S S')
  then show ?case using net_step_surplus [OF step.hyps(2) net_reach_ok [OF net_run_reach [OF step.hyps(1)]]] by simp
qed

section \<open>Properties\<close>

lemma length_filtered:
  assumes "gm_ok m" and "gm_ok n" and "\<And>i. gm_get m i \<noteq> None \<longleftrightarrow> (\<exists>g. gm_get n i = Some g \<and> P g)"
  shows "length m = length (filter (\<lambda>p. P (snd p)) n)"
proof -
  let ?f = "filter (\<lambda>p. P (snd p)) n"
  have d: "distinct (map fst m)" "distinct (map fst n)" using assms(1,2) by (simp_all add: gm_ok_distinct)
  have f: "distinct (map fst ?f)" using d(2) by (simp add: distinct_map_filter)
  have "i \<in> set (map fst ?f) \<longleftrightarrow> (\<exists>g. gm_get n i = Some g \<and> P g)" for i
    using d(2) by (force simp: map_of_eq_Some_iff)
  moreover have "i \<in> set (map fst m) \<longleftrightarrow> gm_get m i \<noteq> None" for i by (simp add: map_of_eq_None_iff)
  ultimately have "set (map fst ?f) = set (map fst m)"
    using assms(3) by (intro set_eqI) blast
  then show ?thesis using d(1) f by (metis distinct_card length_map)
qed

text \<open>C15.  However connections come, start, end and clean up beside each other: the count of active
  threads is that of the goroutines; the registry holds exactly the serving ones; every goroutine has an
  active session under its identity from before it starts until it is done; and the 32-bit counter of
  connections is the number of goroutines that serve plus the number of clean-ups so far whose \<^verbatim>\<open>Stop\<close>
  has failed (\<open>n\<close>), and never passes its limit.  (That happens: \<open>counter_leaks\<close>.)  No client is to connect
  again with the same descriptor from the same address and port before the clean-up of its connection
  before is over (\<open>fresh\<close>).\<close>

theorem connections_consistent:
  assumes "net_run C U n S"
  shows "activeThreads S = int (length (goroutines S)) \<and>
    unat (numIOThreads (ioThreads S)) = length (filter (\<lambda>p. gphase (snd p) = Serving) (goroutines S)) + n \<and>
    unat (numIOThreads (ioThreads S)) \<le> 100000 \<and>
    (\<forall>i t. GetThread i (ioThreads S) = Inr t \<longleftrightarrow>
       (\<exists>g. gm_get (goroutines S) i = Some g \<and> gphase g = Serving \<and> gthread g = t)) \<and>
    (\<forall>i g. gm_get (goroutines S) i = Some g \<longrightarrow>
       (\<exists>s. GetById (ssns S) i = Some s \<and> Status s = SessionStatusActive))"
proof -
  note ok = net_reach_ok [OF net_run_reach [OF assms]]
  then have io: "io_ok (ioThreads S)" and gm: "gm_ok (goroutines S)" by (simp_all add: net_ok_def)
  have reg: "gm_get (connectedClients (ioThreads S)) i = Some t \<longleftrightarrow>
      (\<exists>g. gm_get (goroutines S) i = Some g \<and> gphase g = Serving \<and> gthread g = t)" for i t
  proof (cases "gm_get (goroutines S) i")
    case None
    with ok show ?thesis by (simp add: net_ok_def)
  next
    case (Some g)
    from net_okD [OF ok Some] Some show ?thesis by (cases "gphase g") (auto simp: goroutine_ok_def)
  qed
  have "length (connectedClients (ioThreads S)) = length (filter (\<lambda>p. gphase (snd p) = Serving) (goroutines S))"
  proof (rule length_filtered [OF _ gm])
    show "gm_ok (connectedClients (ioThreads S))" using io by (simp add: io_ok_def)
    show "gm_get (connectedClients (ioThreads S)) i \<noteq> None \<longleftrightarrow>
        (\<exists>g. gm_get (goroutines S) i = Some g \<and> gphase g = Serving)" for i
      using reg [of i] by blast
  qed
  then have "unat (numIOThreads (ioThreads S)) = length (filter (\<lambda>p. gphase (snd p) = Serving) (goroutines S)) + n"
    using net_run_surplus [OF assms] unfolding surplus_def by linarith
  moreover have "GetThread i (ioThreads S) = Inr t \<longleftrightarrow> gm_get (connectedClients (ioThreads S)) i = Some t" for i t
    by (simp add: GetThread_def split: option.split)
  moreover have "\<exists>s. GetById (ssns S) i = Some s \<and> Status s = SessionStatusActive"
    if "gm_get (goroutines S) i = Some g" for i g
    using net_okD [OF ok that] by (simp add: goroutine_ok_def)
  ultimately show ?thesis using ok io reg by (simp add: net_ok_def io_ok_def)
qed

text \<open>C30.  A connection that ends cleans up exactly after itself when no other step comes between: its
  two descriptors are closed, and no other one, although the clean-up closes the first twice;
  its registration, session and goroutine are gone, and those of all others are as they were.\<close>

theorem cleanup_exact:
  assumes "net_reach C U S" and "gm_get (goroutines S) i = Some g" and "gphase g = Serving"
  shows "open_fds (cleanup C i S) = (open_fds S)(iodup (gthread g) := None, iofd (gthread g) := None) \<and>
    gm_get (goroutines (cleanup C i S)) = (gm_get (goroutines S))(i := None) \<and>
    gm_get (connectedClients (ioThreads (cleanup C i S))) = (gm_get (connectedClients (ioThreads S)))(i := None) \<and>
    GetById (ssns (cleanup C i S)) = (GetById (ssns S))(i := None) \<and>
    activeThreads (cleanup C i S) = activeThreads S - 1"
proof -
  have t: "gm_get (connectedClients (ioThreads S)) i = Some (gthread g)" "\<not> ioclosed (gthread g)"
    using net_okD [OF net_reach_ok [OF assms(1)] assms(2)] assms(3) by (simp_all add: goroutine_ok_def)
  let ?t = "gthread g" and ?m = "fst (UnregisterIO (\<lambda>fd. open_fds S fd \<noteq> None) i (ioThreads S))"
  have m: "connectedClients ?m = gm_del i (connectedClients (ioThreads S))"
    using t(1) by (simp add: UnregisterIO_def Let_def split: prod.split option.split)
  have s: "GetById (OnDisconnect i (ssns S)) = (GetById (ssns S))(i := None)"
    by (auto simp: fun_eq_iff OnDisconnect_other OnDisconnect_own)
  have u: "cleanup_unregister i S = (sys [SysClose (iodup ?t), SysClose (iofd ?t)] S)
      \<lparr>ioThreads := ?m, goroutines := gm_upd i (g\<lparr>gthread := fst (Stop (\<lambda>fd. open_fds S fd \<noteq> None) ?t), gphase := Unregistered\<rparr>) (goroutines S)\<rparr>"
    using assms(2,3) t by (simp add: cleanup_unregister_def close_calls_def Let_def)
  show ?thesis
    using m s
    by (simp add: cleanup_def u cleanup_close_def cleanup_done_def close_calls_def Stop_def Let_def open_fds_def fun_eq_iff)
qed

text \<open>The state after a client without credentials has been admitted.\<close>

definition root0 :: user where
  "root0 = \<lparr>Username = ''root'', Password = ''p'', Role = Admin\<rparr>"

definition hello :: "int \<Rightarrow> int \<Rightarrow> sockaddr \<Rightarrow> arrival" where
  "hello fd d addr = arrival0 fd d addr [frame ''a'']"

lemma hello_admitted:
  assumes "gm_get (connectedClients (ioThreads S)) i = None"
    and "backlog S = [hello fd d addr]" and "i = GenerateUniqueClientID fd (FormatClientAddr addr)"
  shows "fst (eventHandler settings0 (serverFD S) (c_read settings0) fl S) = S\<lparr>backlog := [],
    ssns := Activate 5 (NewSession 5 root0 i) (ssns S), activeThreads := activeThreads S + 1,
    goroutines := gm_upd i \<lparr>gthread = \<lparr>ioClientID = i, iofd = fd, iodup = d, ioclosed = False\<rparr>,
      gphase = Starting, ginput = snd (ReadAuth [frame ''a''])\<rparr> (goroutines S),
    calls := Opened d i # Opened fd i # calls S\<rparr>"
proof -
  obtain cs where r: "ReadAuth [frame ''a''] = (Inr ''a'', cs)"
    using ReadSync_frame(2) [of "[frame ''a'']" "''a''" "[]"] by (auto simp: MaxRequestBodySize_def)
  then show ?thesis
    using assms(1,2)
    by (simp add: eventHandler_def admit_def ConnectAndAuthenticate_def AuthenticateClient_def RequestAuth_def
        ValidateDefault_def GetThread_def NewIOThread_def NewConn_def WriteErr_def Let_def sys_def
        hello_def arrival0_def settings0_def root0_def assms(3) [symmetric])
qed

text \<open>A server as the examples see it: its threads, what is registered, and the open descriptors.\<close>

definition at_work :: "(int \<Rightarrow> bool) \<Rightarrow> server \<Rightarrow> (string \<Rightarrow> goroutine option) \<Rightarrow> (string \<Rightarrow> ioThread option) \<Rightarrow>
    (int \<Rightarrow> string option) \<Rightarrow> nat \<Rightarrow> bool" where
  "at_work U S gs ts fds n \<longleftrightarrow> net_reach settings0 U S \<and> backlog S = [] \<and> gm_get (goroutines S) = gs \<and>
     gm_get (connectedClients (ioThreads S)) = ts \<and> open_fds S = fds \<and> n < 100 \<and>
     numIOThreads (ioThreads S) = of_nat n"

definition thread0 :: "string \<Rightarrow> int \<Rightarrow> int \<Rightarrow> ioThread" where
  "thread0 i fd d = \<lparr>ioClientID = i, iofd = fd, iodup = d, ioclosed = False\<rparr>"

definition routine0 :: "ioThread \<Rightarrow> phase \<Rightarrow> goroutine" where
  "routine0 t ph = \<lparr>gthread = t, gphase = ph, ginput = snd (ReadAuth [frame ''a''])\<rparr>"

text \<open>A client is accepted and its goroutine starts.\<close>

lemma at_work_join:
  assumes "at_work U S gs ts fds n" and "fresh U S (hello fd d addr)" and "Suc n < 100"
    and "i = GenerateUniqueClientID fd (FormatClientAddr addr)" and "ts i = None"
    and "gs' = gs(i \<mapsto> routine0 (thread0 i fd d) Serving)" and "ts' = ts(i \<mapsto> thread0 i fd d)"
    and "fds' = fds(fd \<mapsto> i, d \<mapsto> i)"
  shows "\<exists>S'. at_work U S' gs' ts' fds' (Suc n)"
proof -
  let ?S1 = "S\<lparr>backlog := [hello fd d addr]\<rparr>"
  define S2 where "S2 = fst (eventHandler settings0 (serverFD ?S1) (c_read settings0) 0 ?S1)"
  have reach: "net_reach settings0 U S" and b: "backlog S = []" using assms(1) by (simp_all add: at_work_def)
  have "net_reach settings0 U (S\<lparr>backlog := backlog S @ [hello fd d addr]\<rparr>)"
    by (rule net_reach.step [OF reach net_step.arrive])
  then have "net_reach settings0 U ?S1" by (simp add: b)
  moreover have "unused U ?S1 = unused U S" by (simp add: fun_eq_iff unused_def open_fds_def)
  then have "fresh U ?S1 (hello fd d addr)" using assms(2) by (simp add: fresh_def hello_def arrival0_def)
  ultimately have "net_reach settings0 U S2"
    unfolding S2_def by (intro net_reach.step [OF _ net_step.accept]) simp_all
  then have "net_reach settings0 U (start_thread i S2)"
    by (rule net_reach.step [OF _ net_step.start])
  moreover have e: "S2 = S\<lparr>backlog := [],
    ssns := Activate 5 (NewSession 5 root0 i) (ssns S), activeThreads := activeThreads S + 1,
    goroutines := gm_upd i (routine0 (thread0 i fd d) Starting) (goroutines S),
    calls := Opened d i # Opened fd i # calls S\<rparr>"
    unfolding S2_def using assms by (subst hello_admitted) (simp_all add: at_work_def thread0_def routine0_def)
  have lt: "\<not> (100000 :: 32 word) \<le> of_nat n"
    using assms(3) by (simp add: word_le_nat_alt unat_of_nat take_bit_nat_eq_self)
  ultimately show ?thesis
    using assms(1,3,6-8)
    by (intro exI [of _ "start_thread i S2"])
      (simp add: lt e at_work_def start_thread_def RegisterIO_def routine0_def thread0_def open_fds_def fun_eq_iff add.commute)
qed

text \<open>A client hangs up, and its goroutine gets as far as \<^verbatim>\<open>Unregister\<close>.\<close>

lemma at_work_leave:
  assumes "at_work U S gs ts fds (Suc n)" and "gs i = Some (routine0 (thread0 i fd d) Serving)" and "ts i = Some (thread0 i fd d)"
    and "fds fd \<noteq> None" and "fds d \<noteq> None" and "fd \<noteq> d"
    and "gs' = gs(i \<mapsto> routine0 ((thread0 i fd d)\<lparr>ioclosed := True\<rparr>) Unregistered)" and "ts' = ts(i := None)"
    and "fds' = fds(d := None, fd := None)"
  shows "\<exists>S'. at_work U S' gs' ts' fds' n"
proof -
  have "net_reach settings0 U (cleanup_unregister i S)"
    using assms(1) by (intro net_reach.step [OF _ net_step.unregister]) (simp add: at_work_def)
  then show ?thesis
    using assms
    by (intro exI [of _ "cleanup_unregister i S"])
      (simp add: at_work_def cleanup_unregister_def UnregisterIO_def Stop_def close_calls_def routine0_def thread0_def open_fds_def fun_upd_def Let_def)
qed

text \<open>Its goroutine closes the descriptor once more.\<close>

lemma at_work_close:
  assumes "at_work U S gs ts fds n" and "gs i = Some (routine0 t Unregistered)"
    and "gs' = gs(i \<mapsto> routine0 t Closing)" and "fds' = fds(iofd t := None)"
  shows "\<exists>S'. at_work U S' gs' ts fds' n"
proof -
  have "net_reach settings0 U (cleanup_close settings0 i S)"
    using assms(1) by (intro net_reach.step [OF _ net_step.close]) (simp add: at_work_def)
  then show ?thesis
    using assms
    by (intro exI [of _ "cleanup_close settings0 i S"])
      (simp add: at_work_def cleanup_close_def routine0_def open_fds_def Let_def fun_upd_def)
qed

lemma fresh_hello:
  assumes "at_work (\<lambda>e. e < 7) S gs ts fds n" and "gs (GenerateUniqueClientID fd (FormatClientAddr addr)) = None"
    and "7 \<le> fd" and "fd < d" and "fds fd = None" and "fds d = None"
    and "\<And>e. 7 \<le> e \<Longrightarrow> e < d \<Longrightarrow> e \<noteq> fd \<Longrightarrow> fds e \<noteq> None"
  shows "fresh (\<lambda>e. e < 7) S (hello fd d addr)"
proof -
  have u: "unused (\<lambda>e. e < 7) S e \<longleftrightarrow> 7 \<le> e \<and> fds e = None" for e
    using assms(1) by (auto simp: unused_def at_work_def)
  have "d \<le> e" if "7 \<le> e" "fds e = None" "e \<noteq> fd" for e
    using assms(7) [of e] that by force
  moreover from this have "fd \<le> e" if "7 \<le> e" "fds e = None" for e
    using that assms(4) by force
  ultimately show ?thesis
    using assms(1-6) by (simp add: fresh_def u hello_def arrival0_def at_work_def)
qed

text \<open>A run with one client that is being served.\<close>

lemma one_client:
  obtains S i where "net_reach settings0 (\<lambda>e. e < 7) S" "gm_get (goroutines S) i = Some (routine0 (thread0 i 7 8) Serving)"
    "gm_get (connectedClients (ioThreads S)) = [i \<mapsto> thread0 i 7 8]" "open_fds S = [7 \<mapsto> i, 8 \<mapsto> i]"
    "numIOThreads (ioThreads S) = 1"
proof -
  let ?U = "\<lambda>e :: int. e < 7"
  define P where "P = SockaddrInet4 [10, 0, 0, 1] 5"
  define i where "i = GenerateUniqueClientID 7 (FormatClientAddr P)"
  have "net_reach settings0 ?U (NewServer 3)" by (rule net_reach.init)
  then have 0: "at_work ?U (NewServer 3) Map.empty Map.empty Map.empty 0"
    by (simp add: at_work_def NewServer_def NewIOThreadManager_def open_fds_def fun_eq_iff)
  have "\<exists>S. at_work ?U S [i \<mapsto> routine0 (thread0 i 7 8) Serving] [i \<mapsto> thread0 i 7 8] [7 \<mapsto> i, 8 \<mapsto> i] (Suc 0)"
    by (rule at_work_join [OF 0 fresh_hello [OF 0, where fd = 7 and d = 8 and addr = P] _ i_def]) auto
  then obtain S where "at_work ?U S [i \<mapsto> routine0 (thread0 i 7 8) Serving] [i \<mapsto> thread0 i 7 8] [7 \<mapsto> i, 8 \<mapsto> i] (Suc 0)" ..
  then show ?thesis by (intro that [of S i]) (simp_all add: at_work_def fun_eq_iff)
qed

theorem connections_consistent_witness:
  "\<exists>(S :: server) i. net_run settings0 (\<lambda>e. e < 7) 0 S \<and> numIOThreads (ioThreads S) = 1 \<and> GetThread i (ioThreads S) = Inr (thread0 i 7 8) \<and>
     (\<exists>s. GetById (ssns S) i = Some s \<and> Status s = SessionStatusActive)"
proof -
  obtain S i where S: "net_reach settings0 (\<lambda>e. e < 7) S" "gm_get (goroutines S) i = Some (routine0 (thread0 i 7 8) Serving)"
    "numIOThreads (ioThreads S) = 1" using one_client .
  obtain n where n: "net_run settings0 (\<lambda>e. e < 7) n S" using net_reach_run [OF S(1)] ..
  note c = connections_consistent [OF n]
  have "(i, routine0 (thread0 i 7 8) Serving) \<in> set (filter (\<lambda>p. gphase (snd p) = Serving) (goroutines S))"
    using map_of_SomeD [OF S(2)] by (simp add: routine0_def)
  then have "0 < length (filter (\<lambda>p. gphase (snd p) = Serving) (goroutines S))" by (rule length_pos_if_in_set)
  moreover have "unat (numIOThreads (ioThreads S)) = 1" by (simp add: S(3))
  ultimately have "n = 0" using c by linarith
  moreover have "GetThread i (ioThreads S) = Inr (thread0 i 7 8)" "\<exists>s. GetById (ssns S) i = Some s \<and> Status s = SessionStatusActive"
    using c S(2) by (simp_all add: routine0_def)
  ultimately show ?thesis using S(3) n by blast
qed

theorem cleanup_exact_witness:
  "\<exists>S i. net_reach settings0 (\<lambda>e. e < 7) S \<and> gm_get (goroutines S) i \<noteq> None \<and>
     open_fds S = [7 \<mapsto> i, 8 \<mapsto> i] \<and> open_fds (cleanup settings0 i S) = Map.empty \<and>
     gm_get (goroutines (cleanup settings0 i S)) i = None \<and>
     gm_get (connectedClients (ioThreads (cleanup settings0 i S))) i = None"
proof -
  obtain S i where S: "net_reach settings0 (\<lambda>e. e < 7) S" "gm_get (goroutines S) i = Some (routine0 (thread0 i 7 8) Serving)"
    "open_fds S = [7 \<mapsto> i, 8 \<mapsto> i]" using one_client .
  then show ?thesis
    using cleanup_exact [OF S(1,2)]
    by (intro exI [of _ S] exI [of _ i]) (simp add: routine0_def thread0_def fun_upd_def fun_eq_iff)
qed

lemma Itoa_inj: "0 \<le> m \<Longrightarrow> 0 \<le> n \<Longrightarrow> Itoa m = Itoa n \<longleftrightarrow> m = n"
  by (auto simp: Itoa_def) (metis nat_of_dec_of_nat eq_nat_nat_iff)

text \<open>A run in which a descriptor is closed for somebody else: the clients have the ports 0 to 3.\<close>

definition peer_id :: "int \<Rightarrow> int \<Rightarrow> string" where
  "peer_id fd p = GenerateUniqueClientID fd (FormatClientAddr (SockaddrInet4 [10, 0, 0, 1] p))"

lemma peer_id_eq: "0 \<le> fd \<Longrightarrow> 0 \<le> fd' \<Longrightarrow> 0 \<le> p \<Longrightarrow> 0 \<le> q \<Longrightarrow> peer_id fd p = peer_id fd' q \<longleftrightarrow> fd = fd' \<and> p = q"
  using client_ids_unique [of fd fd'] by (auto simp: peer_id_def FormatClientAddr_def Itoa_inj)

abbreviation busy :: "string \<Rightarrow> int \<Rightarrow> int \<Rightarrow> goroutine" where
  "busy i fd d \<equiv> routine0 (thread0 i fd d) Serving"

abbreviation gone :: "string \<Rightarrow> int \<Rightarrow> int \<Rightarrow> phase \<Rightarrow> goroutine" where
  "gone i fd d \<equiv> routine0 ((thread0 i fd d)\<lparr>ioclosed := True\<rparr>)"

text \<open>The lowest free descriptors are given out; 0 to 6 are in use.\<close>

lemma peer_joins:
  assumes "at_work (\<lambda>e. e < 7) S gs ts fds n" and "Suc n < 100" and "gs (peer_id fd p) = None" and "ts (peer_id fd p) = None"
    and "7 \<le> fd" and "fd < d" and "fds fd = None" and "fds d = None"
    and "\<And>e. 7 \<le> e \<Longrightarrow> e < d \<Longrightarrow> e \<noteq> fd \<Longrightarrow> fds e \<noteq> None"
  shows "\<exists>S'. at_work (\<lambda>e. e < 7) S' (gs(peer_id fd p \<mapsto> busy (peer_id fd p) fd d))
    (ts(peer_id fd p \<mapsto> thread0 (peer_id fd p) fd d)) (fds(fd \<mapsto> peer_id fd p, d \<mapsto> peer_id fd p)) (Suc n)"
  by (rule at_work_join [OF assms(1) fresh_hello [OF assms(1), where addr = "SockaddrInet4 [10, 0, 0, 1] p"] assms(2) peer_id_def])
    (use assms(3-) in \<open>simp_all add: peer_id_def\<close>)

text \<open>The first client leaves and two more come, before the clean-up of the first has closed its descriptor.\<close>

abbreviation gs1 :: "string \<Rightarrow> goroutine option" where
  "gs1 \<equiv> [peer_id 7 0 \<mapsto> gone (peer_id 7 0) 7 8 Unregistered, peer_id 7 1 \<mapsto> busy (peer_id 7 1) 7 8,
     peer_id 9 2 \<mapsto> busy (peer_id 9 2) 9 10]"

abbreviation ts1 :: "string \<Rightarrow> ioThread option" where
  "ts1 \<equiv> [peer_id 7 1 \<mapsto> thread0 (peer_id 7 1) 7 8, peer_id 9 2 \<mapsto> thread0 (peer_id 9 2) 9 10]"

lemma three_clients:
  "\<exists>S. at_work (\<lambda>e. e < 7) S gs1 ts1 [7 \<mapsto> peer_id 7 1, 8 \<mapsto> peer_id 7 1, 9 \<mapsto> peer_id 9 2, 10 \<mapsto> peer_id 9 2] (Suc (Suc 0))"
proof -
  let ?U = "\<lambda>e :: int. e < 7" and ?y = "peer_id 7 0" and ?z = "peer_id 7 1"
  note I = peer_id_eq
  have "net_reach settings0 ?U (NewServer 3)" by (rule net_reach.init)
  then have 0: "at_work ?U (NewServer 3) Map.empty Map.empty Map.empty 0"
    by (simp add: at_work_def NewServer_def NewIOThreadManager_def open_fds_def fun_eq_iff)
  have "\<exists>S. at_work ?U S [?y \<mapsto> busy ?y 7 8] [?y \<mapsto> thread0 ?y 7 8] [7 \<mapsto> ?y, 8 \<mapsto> ?y] (Suc 0)"
    by (rule peer_joins [OF 0]) auto
  then obtain S1 where 1: "at_work ?U S1 [?y \<mapsto> busy ?y 7 8] [?y \<mapsto> thread0 ?y 7 8] [7 \<mapsto> ?y, 8 \<mapsto> ?y] (Suc 0)" by blast
  have "\<exists>S. at_work ?U S [?y \<mapsto> gone ?y 7 8 Unregistered] Map.empty Map.empty 0"
    by (rule at_work_leave [OF 1, where i = ?y and fd = 7 and d = 8]) (auto simp: fun_eq_iff)
  then obtain S2 where 2: "at_work ?U S2 [?y \<mapsto> gone ?y 7 8 Unregistered] Map.empty Map.empty 0" by blast
  obtain S3 where 3: "at_work ?U S3 [?y \<mapsto> gone ?y 7 8 Unregistered, ?z \<mapsto> busy ?z 7 8] [?z \<mapsto> thread0 ?z 7 8]
      [7 \<mapsto> ?z, 8 \<mapsto> ?z] (Suc 0)"
    using peer_joins [OF 2, of 7 1 8] by (auto simp: I)
  show ?thesis using peer_joins [OF 3, of 9 2 10] by (auto simp: I)
qed

text \<open>The run: the clean-up of the first client closes a descriptor of the second, and that of the third
  the descriptor over which the requests of the fourth go.\<close>

lemma lost_descriptor:
  "\<exists>S i g. net_reach settings0 (\<lambda>e. e < 7) S \<and> gm_get (goroutines S) i = Some g \<and> gphase g = Serving \<and>
     \<not> ioclosed (gthread g) \<and> open_fds S (iodup (gthread g)) = None"
proof -
  let ?U = "\<lambda>e :: int. e < 7" and ?y = "peer_id 7 0" and ?z = "peer_id 7 1" and ?a = "peer_id 9 2" and ?b = "peer_id 7 3"
  note I = peer_id_eq
  obtain S4 where 4: "at_work ?U S4 gs1 ts1 [7 \<mapsto> ?z, 8 \<mapsto> ?z, 9 \<mapsto> ?a, 10 \<mapsto> ?a] (Suc (Suc 0))"
    using three_clients by blast
  \<comment> \<open>the first clean-up closes the descriptor of the second client; then the third leaves\<close>
  let ?g5 = "gs1(?y \<mapsto> gone ?y 7 8 Closing)"
  have "\<exists>S. at_work ?U S ?g5 ts1 [8 \<mapsto> ?z, 9 \<mapsto> ?a, 10 \<mapsto> ?a] (Suc (Suc 0))"
    by (rule at_work_close [OF 4, where i = ?y]) (auto simp: I thread0_def fun_eq_iff)
  then obtain S5 where 5: "at_work ?U S5 ?g5 ts1 [8 \<mapsto> ?z, 9 \<mapsto> ?a, 10 \<mapsto> ?a] (Suc (Suc 0))" by blast
  let ?g6 = "?g5(?a \<mapsto> gone ?a 9 10 Unregistered)"
  have "\<exists>S. at_work ?U S ?g6 [?z \<mapsto> thread0 ?z 7 8] [8 \<mapsto> ?z] (Suc 0)"
    by (rule at_work_leave [OF 5, where i = ?a and fd = 9 and d = 10]) (auto simp: I fun_eq_iff)
  then obtain S6 where 6: "at_work ?U S6 ?g6 [?z \<mapsto> thread0 ?z 7 8] [8 \<mapsto> ?z] (Suc 0)" by blast
  \<comment> \<open>a fourth client gets the numbers 7 and 9, and the clean-up of the third closes 9\<close>
  let ?g7 = "?g6(?b \<mapsto> busy ?b 7 9)" and ?t7 = "[?z \<mapsto> thread0 ?z 7 8, ?b \<mapsto> thread0 ?b 7 9]"
  obtain S7 where 7: "at_work ?U S7 ?g7 ?t7 [8 \<mapsto> ?z, 7 \<mapsto> ?b, 9 \<mapsto> ?b] (Suc (Suc 0))"
    using peer_joins [OF 6, of 7 3 9] by (auto simp: I)
  have "\<exists>S. at_work ?U S (?g7(?a \<mapsto> gone ?a 9 10 Closing)) ?t7 [8 \<mapsto> ?z, 7 \<mapsto> ?b] (Suc (Suc 0))"
    by (rule at_work_close [OF 7, where i = ?a]) (auto simp: I thread0_def fun_eq_iff)
  then obtain S where "at_work ?U S (?g7(?a \<mapsto> gone ?a 9 10 Closing)) ?t7 [8 \<mapsto> ?z, 7 \<mapsto> ?b] (Suc (Suc 0))" by blast
  then have "gm_get (goroutines S) ?b = Some (busy ?b 7 9)" "open_fds S 9 = None" "net_reach settings0 ?U S"
    by (simp_all add: at_work_def I)
  then show ?thesis by (force simp: routine0_def thread0_def)
qed

text \<open>C32.  When other connections are accepted while one cleans up, the second close of its descriptor
  hits somebody else's: the kernel has given the number out again.  There is a run, with the
  lowest free descriptor given out every time, in which a connection that has authenticated
  and is being served has lost the descriptor its requests go over to the clean-up of another
  client.\<close>

theorem stale_close:
  "\<exists>S i g. net_reach settings0 (\<lambda>e. e < 7) S \<and> gm_get (goroutines S) i = Some g \<and> gphase g = Serving \<and>
     \<not> ioclosed (gthread g) \<and> open_fds S (iodup (gthread g)) = None"
  by (rule lost_descriptor)

text \<open>When a client that has lost a descriptor leaves in its turn, \<^verbatim>\<open>Stop\<close> fails and \<^verbatim>\<open>Unregister\<close>
  returns its error before it lowers the count, which is too high from then on.\<close>

lemma counter_leaks:
  "\<exists>S n. net_run settings0 (\<lambda>e. e < 7) (Suc n) S \<and>
     length (connectedClients (ioThreads S)) < unat (numIOThreads (ioThreads S))"
proof -
  obtain S i g where s: "net_reach settings0 (\<lambda>e. e < 7) S" "gm_get (goroutines S) i = Some g" "gphase g = Serving"
    "\<not> ioclosed (gthread g)" "open_fds S (iodup (gthread g)) = None"
    using lost_descriptor by blast
  then have "gm_get (connectedClients (ioThreads S)) i = Some (gthread g)"
    using net_okD [OF net_reach_ok [OF s(1)] s(2)] by (simp add: goroutine_ok_def)
  then have "stop_fails S i" using s by (simp add: stop_fails_def Stop_def)
  then have f: "failed_stop S (cleanup_unregister i S)" by (auto simp: failed_stop_def)
  obtain n where n: "net_run settings0 (\<lambda>e. e < 7) n S" using net_reach_run [OF s(1)] ..
  have r: "net_run settings0 (\<lambda>e. e < 7) (Suc n) (cleanup_unregister i S)"
    using net_run.step [OF n net_step.unregister [of _ _ S i]] f by simp
  then have "length (connectedClients (ioThreads (cleanup_unregister i S))) < unat (numIOThreads (ioThreads (cleanup_unregister i S)))"
    using net_run_surplus [OF r] unfolding surplus_def by linarith
  with r show ?thesis by blast
qed

end
