(* ===== verification/Program.thy ===== *)
theory Program
  imports Connections Startup
begin

text \<open>
  The start of the program: the configuration from its file and its override
  (\<^verbatim>\<open>src/config/config.go\<close>, \<^verbatim>\<open>src/commander/root.go\<close>), the queue of the logger
  (\<^verbatim>\<open>src/internal/logger/log_manager.go\<close>), the store with its recovery
  (\<^verbatim>\<open>src/server/service_manager.go\<close>) and the run of the event loop to its end
  (\<^verbatim>\<open>src/server/eventloop/main.go\<close>).  The file system, the environment and the YAML library are
  parameters.
\<close>

section \<open>The configuration\<close>

text \<open>\<open>None\<close> is \<^verbatim>\<open>log.Fatal\<close>; the configuration is read once.\<close>

definition LoadDefaultConfigYAML ::
  "(string \<Rightarrow> bytes option) \<Rightarrow> (bytes \<Rightarrow> configuration option) \<Rightarrow> string \<Rightarrow> config_paths \<Rightarrow> configuration option
    \<Rightarrow> configuration option" where
  "LoadDefaultConfigYAML files yaml goos ps configInstance =
     (case configInstance of
        Some c \<Rightarrow> Some c
      | None \<Rightarrow> (case files (GetConfigPath goos ps) of None \<Rightarrow> None | Some file \<Rightarrow> yaml file))"

text \<open>A configuration with nothing set.\<close>

definition zero_config :: configuration where
  "zero_config =
     \<lparr>server_host = [], server_port = 0, logging_level = [], logging_file = [], max_size_mb = 0,
      eviction_policy = [], enable_auth = False, auth_method = [], cusers = [],
      persistence_enable = False, persistence_path = [], after_write_count = 0, shard_mode = [],
      shard_count = 0, backup_enable = False, interval_minutes = 0, backup_dir = [],
      max_connections = 0, timeout_seconds = 0, strict_mode = False\<rparr>"

definition LoadConfigFromString ::
  "(bytes \<Rightarrow> configuration option) \<Rightarrow> string \<Rightarrow> string \<Rightarrow> configuration option" where
  "LoadConfigFromString yaml yamlContent configEnv =
     (if yamlContent \<noteq> [] then yaml yamlContent
      else if configEnv \<noteq> [] then yaml configEnv
      else Some zero_config)"

text \<open>\<^verbatim>\<open>PreRun\<close> of the command: the path, the file, the override of \<^verbatim>\<open>--config\<close> or the environment, the merge
  (which fills the user store) and the level of the log.\<close>

definition PreRun ::
  "(string \<Rightarrow> bytes option) \<Rightarrow> (bytes \<Rightarrow> configuration option) \<Rightarrow> string \<Rightarrow> string \<Rightarrow> string \<Rightarrow> string \<Rightarrow> string
    \<Rightarrow> (configuration \<times> users \<times> string) option" where
  "PreRun files yaml goos configEnv configFileContent configFilePath logLevel =
     (let ps = (if configFilePath \<noteq> [] then SetConfigPath configFilePath else default_paths)
      in case LoadDefaultConfigYAML files yaml goos ps None of
           None \<Rightarrow> None
         | Some defaultConfig \<Rightarrow>
             (case LoadConfigFromString yaml configFileContent configEnv of
                None \<Rightarrow> None
              | Some overrideConfig \<Rightarrow>
                  (case MergeConfigs defaultConfig overrideConfig NewUsersStore of
                     None \<Rightarrow> None
                   | Some (c, us) \<Rightarrow>
                       Some (c, us, if logLevel = [] then logging_level c else logLevel))))"

section \<open>The log\<close>

datatype log_level = DebugLevel | InfoLevel | WarnLevel | ErrorLevel

definition GetLogLevelFromFlag :: "string \<Rightarrow> log_level" where
  "GetLogLevelFromFlag logLevel =
     (if logLevel = ''debug'' then DebugLevel
      else if logLevel = ''info'' then InfoLevel
      else if logLevel = ''warn'' then WarnLevel
      else if logLevel = ''error'' then ErrorLevel
      else InfoLevel)"

text \<open>The queue between the callers and the goroutine that writes; before \<^verbatim>\<open>InitLogger\<close> there is none.  A
  caller never waits: what does not fit is dropped.  Sending after \<^verbatim>\<open>CloseLogger\<close> panics.\<close>

record 'a log_queue =
  queue :: "'a list"
  qclosed :: bool

definition log_capacity :: nat where "log_capacity = 1000"

definition asyncLog :: "'a \<Rightarrow> 'a log_queue option \<Rightarrow> 'a log_queue option option" where
  "asyncLog f q =
     (case q of
        None \<Rightarrow> Some None
      | Some l \<Rightarrow>
          if qclosed l then None
          else if length (queue l) < log_capacity then Some (Some (l\<lparr>queue := queue l @ [f]\<rparr>))
          else Some (Some l))"

definition CloseLogger :: "'a log_queue \<Rightarrow> 'a log_queue" where
  "CloseLogger l = l\<lparr>qclosed := True\<rparr>"

text \<open>What is queued is a closure; here the event it makes: its level, message, error and fields.\<close>

record log_event =
  elevel :: log_level
  emsg :: string
  eerr :: "string option"
  efields :: "(string \<times> string) list"

definition Info :: "string \<Rightarrow> (string \<times> string) list \<Rightarrow> log_event log_queue option \<Rightarrow> log_event log_queue option option" where
  "Info msg flds = asyncLog \<lparr>elevel = InfoLevel, emsg = msg, eerr = None, efields = flds\<rparr>"

definition Debug :: "string \<Rightarrow> (string \<times> string) list \<Rightarrow> log_event log_queue option \<Rightarrow> log_event log_queue option option" where
  "Debug msg flds = asyncLog \<lparr>elevel = DebugLevel, emsg = msg, eerr = None, efields = flds\<rparr>"

definition Warn :: "string \<Rightarrow> (string \<times> string) list \<Rightarrow> log_event log_queue option \<Rightarrow> log_event log_queue option option" where
  "Warn msg flds = asyncLog \<lparr>elevel = WarnLevel, emsg = msg, eerr = None, efields = flds\<rparr>"

definition LogError ::
  "string \<Rightarrow> string option \<Rightarrow> (string \<times> string) list \<Rightarrow> log_event log_queue option \<Rightarrow> log_event log_queue option option" where
  "LogError msg err flds = asyncLog \<lparr>elevel = ErrorLevel, emsg = msg, eerr = err, efields = flds\<rparr>"

text \<open>\<^verbatim>\<open>InitLogger\<close>, which acts once: \<open>None\<close> is its panic when the file cannot be opened.  The result is the
  level of the log and its queue.\<close>

definition InitLogger ::
  "bool \<Rightarrow> string \<Rightarrow> (log_level \<times> log_event log_queue) option \<Rightarrow> (log_level \<times> log_event log_queue) option" where
  "InitLogger opens logLevel once =
     (case once of
        Some l \<Rightarrow> Some l
      | None \<Rightarrow>
          if \<not> opens then None
          else Some (GetLogLevelFromFlag logLevel, \<lparr>queue = [], qclosed = False\<rparr>))"

text \<open>A turn of the goroutine that \<^verbatim>\<open>InitLogger\<close> starts: the event it takes is written when its level is not
  below that of the log (which zerolog sees to).  It ends when the queue is closed and empty.\<close>

definition severity :: "log_level \<Rightarrow> nat" where
  "severity l = (case l of DebugLevel \<Rightarrow> 0 | InfoLevel \<Rightarrow> 1 | WarnLevel \<Rightarrow> 2 | ErrorLevel \<Rightarrow> 3)"

definition writer_turn ::
  "log_level \<Rightarrow> log_event log_queue \<Rightarrow> (log_event log_queue \<times> log_event list) option" where
  "writer_turn level l =
     (case queue l of
        [] \<Rightarrow> None
      | f # fs \<Rightarrow> Some (l\<lparr>queue := fs\<rparr>, if severity level \<le> severity (elevel f) then [f] else []))"

fun writer_turns :: "nat \<Rightarrow> log_level \<Rightarrow> log_event log_queue \<Rightarrow> log_event log_queue \<times> log_event list" where
  "writer_turns 0 level l = (l, [])"
| "writer_turns (Suc n) level l =
     (case writer_turn level l of
        None \<Rightarrow> (l, [])
      | Some (l', es) \<Rightarrow> (case writer_turns n level l' of (l'', es') \<Rightarrow> (l'', es @ es')))"

text \<open>The goroutine writes what was queued, in order; what it has not come to is lost at the end of the
  process.\<close>

lemma writer_turns_written:
  "writer_turns n level l =
     (l\<lparr>queue := drop n (queue l)\<rparr>, filter (\<lambda>e. severity level \<le> severity (elevel e)) (take n (queue l)))"
proof (induction n arbitrary: l)
  case (Suc n)
  then show ?case by (cases "queue l") (simp_all add: writer_turn_def)
qed simp

lemma asyncLog_bounded:
  assumes "asyncLog f (Some l) = Some (Some l')" and "length (queue l) \<le> log_capacity"
  shows "length (queue l') \<le> log_capacity \<and> (queue l' = queue l \<or> queue l' = queue l @ [f])"
  using assms by (auto simp: asyncLog_def split: if_splits)

section \<open>The store\<close>

text \<open>The part of \<^verbatim>\<open>Start\<close> that makes the store; recovery, which runs beside the server, is taken to be
  over before the first request.\<close>

definition StartStore ::
  "int \<Rightarrow> proto \<Rightarrow> (string \<Rightarrow> bytes option) \<Rightarrow> (string list \<Rightarrow> string list) \<Rightarrow> int \<Rightarrow> int \<Rightarrow> configuration
    \<Rightarrow> shardManager option" where
  "StartStore gomaxprocs P disk order t t' c =
     (let sm = NewShardManager gomaxprocs disk (persistence_path c) (after_write_count c) (shard_count c)
      in if persistence_enable c then RecoverMemory P disk order t t' (persistence_path c) sm else Some sm)"

text \<open>Without persistence the store starts empty, whatever the log at the path holds; the log goes on
  all the same.\<close>

lemma StartStore_plain:
  assumes "\<not> persistence_enable c" and "0 < shard_count c"
  shows "\<exists>sm. StartStore g P disk order t t' c = Some sm \<and> empty_store sm"
  using assms NewShardManager_empty [of "shard_count c"] by (simp add: StartStore_def)

text \<open>With authentication off anybody who connects without credentials is root.\<close>

lemma PreRun_root:
  assumes "PreRun files yaml goos configEnv content path level = Some (c, us, l)" and "\<not> enable_auth c"
  shows "snd (RequestAuth (enable_auth c) t us [] [] i ss) = Inr True"
proof -
  obtain d v where "MergeConfigs d v NewUsersStore = Some (c, us)"
    using assms(1) by (auto simp: PreRun_def Let_def split: option.splits)
  then obtain u where "gm_get us ''root'' = Some u" using MergeConfigs_root by blast
  then show ?thesis using assms(2) by (simp add: RequestAuth_def ValidateDefault_def)
qed

section \<open>The run of the server\<close>

datatype start_error = BindError bind_error | MuxError mux_error | RegisterError mux_error
  | AcceptFailure mux_error

datatype run_state = Running server | Stopped "start_error option" "int list"

text \<open>\<^verbatim>\<open>StartEventLoop\<close>: \<open>mux\<close> and \<open>reg\<close> are the results of making the multiplexer and of registering
  the listening socket; the result is the error it returns and the descriptors it closes.
  Waiting for the connections, a second at most, changes nothing here.\<close>

definition StartEventLoop ::
  "('w \<Rightarrow> (server, handler_error) callback \<Rightarrow> server \<Rightarrow> server \<times> mux_error option) \<Rightarrow>
   (bool \<Rightarrow> bool \<Rightarrow> 'w) \<Rightarrow> settings \<Rightarrow> string \<Rightarrow> int \<Rightarrow> bind_answers \<Rightarrow> mux_error option \<Rightarrow> mux_error option \<Rightarrow>
   (bool \<times> arrival list) list \<Rightarrow> run_state" where
  "StartEventLoop poll wait C host port B mux reg rounds =
     (case BindAndListen host port B of
        Inl (e, fds) \<Rightarrow> Stopped (Some (BindError e)) fds
      | Inr (fd, addr, p) \<Rightarrow>
          (case mux of Some e \<Rightarrow> Stopped (Some (MuxError e)) [fd]
           | None \<Rightarrow>
          (case reg of Some e \<Rightarrow> Stopped (Some (RegisterError e)) [fd]
           | None \<Rightarrow>
          (case AcceptNewConnection poll wait C rounds (NewServer fd) of
             (S, None) \<Rightarrow> Running S
           | (S, Some Canceled) \<Rightarrow> Stopped None [fd]
           | (S, Some (PollError e)) \<Rightarrow> Stopped (Some (AcceptFailure e)) [fd]))))"

text \<open>\<^verbatim>\<open>runServer\<close> passes the error on, if there is one.\<close>

definition runServer :: "start_error option \<Rightarrow> start_error list" where
  "runServer err = (case err of Some e \<Rightarrow> [e] | None \<Rightarrow> [])"

text \<open>However the server stops, it closes the listening socket, if it got one, exactly once.\<close>

lemma StartEventLoop_closes:
  assumes "StartEventLoop poll wait C host port B mux reg rounds = Stopped e fds"
  shows "fds = (case ba_socket B of Inr fd \<Rightarrow> [fd] | Inl _ \<Rightarrow> [])"
proof -
  have b: "fds = (case ba_socket B of Inr fd \<Rightarrow> [fd] | Inl _ \<Rightarrow> [])" if "BindAndListen host port B = Inl (x, fds)" for x
    using that by (auto simp: BindAndListen_def Let_def split: sum.splits option.splits)
  have "ba_socket B = Inr fd" if "BindAndListen host port B = Inr (fd, a)" for fd a
    using that by (auto simp: BindAndListen_def Let_def split: sum.splits option.splits)
  with b assms show ?thesis
    by (auto simp: StartEventLoop_def split: sum.splits option.splits prod.splits loop_error.splits)
qed

end
