(* ===== verification/Process.thy ===== *)
theory Process
  imports Program
begin

text \<open>
  The process from \<^verbatim>\<open>Start\<close> (\<^verbatim>\<open>src/server/service_manager.go\<close>) to its end: the main goroutine, the one that
  waits for a signal, the one of recovery and the one that runs the event loop
  (\<^verbatim>\<open>src/server/eventloop/main.go\<close>), which share the thread manager and the channels of signals and
  errors, and the goroutines of the connections, which go on serving until they are told to end or the
  process ends, and end it when a request panics.  Each takes a step when the others let it; a run is a
  list of steps in any order.  What the event loop does in a round is in \<open>Eventloop\<close>, what a connection
  does with a request in \<open>Connections\<close>; here only where they stand.
\<close>

section \<open>State\<close>

text \<open>The main goroutine: before it starts recovery, before \<^verbatim>\<open>eventloop.Start\<close>, in its loop over the
  errors, in \<^verbatim>\<open>tm.Wait\<close>, after it, after closing the channel of signals; the end of the process, or
  its end by a panic.\<close>

datatype main_phase = AtRecovery | AtEventLoop | AtErrors | AtWait | AtStop | AtReturn | Exited | Crashed

text \<open>The goroutine of the event loop: not there; binding; at the check of its context; in \<^verbatim>\<open>Poll\<close>; there
  with a client whose first message it reads; out of the accept loop with an error; waiting for the
  connections to end; returned from \<^verbatim>\<open>StartEventLoop\<close>; about to close the channel of errors; about to leave the thread manager; gone.\<close>

datatype loop_phase = Idle | Binding | Checking | Polling | Reading
  | Failed start_error | Draining "start_error option" | Reporting "start_error option" | ClosingErrs | Leaving | Gone

text \<open>The channel of signals holds one (\<open>psignal\<close>); that of errors two.  \<open>pconns\<close> counts the goroutines of
  connections, \<^verbatim>\<open>startConnThread\<close>.\<close>

record process =
  ptm :: threadManager
  psignal :: bool
  pwaiting :: bool
  pmain :: main_phase
  ploop :: loop_phase
  perrs :: "start_error list"
  perrs_closed :: bool
  plisten :: bool
  pconns :: nat

definition start_process :: process where
  "start_process =
     \<lparr>ptm = NewThreadManager, psignal = False, pwaiting = True, pmain = AtRecovery, ploop = Idle,
      perrs = [], perrs_closed = False, plisten = False, pconns = 0\<rparr>"

section \<open>Steps\<close>

definition recovery_thread :: string where "recovery_thread = ''shard-recovery''"
definition server_thread :: string where "server_thread = ''run-server''"

lemma thread_names [simp]: "recovery_thread \<noteq> server_thread" "server_thread \<noteq> recovery_thread"
  by (simp_all add: recovery_thread_def server_thread_def)

text \<open>A signal is dropped when the channel is full, and when \<^verbatim>\<open>signal.Stop\<close> has been called.\<close>

definition signal_step :: "process \<Rightarrow> process option" where
  "signal_step p = (if pmain p = AtReturn then None else Some (p\<lparr>psignal := True\<rparr>))"

text \<open>The goroutine that waits for a signal.  From a closed channel it gets nil, whose method
  \<^verbatim>\<open>String\<close> it calls.\<close>

definition handler_step :: "process \<Rightarrow> process option" where
  "handler_step p =
     (if \<not> pwaiting p then None
      else if psignal p then Some (p\<lparr>psignal := False, pwaiting := False, ptm := CancelAll (ptm p)\<rparr>)
      else if pmain p = AtReturn then Some (p\<lparr>pwaiting := False, pmain := Crashed\<rparr>)
      else None)"

text \<open>\<^verbatim>\<open>eventloop.Start\<close>, which the main goroutine calls: it launches the server and takes the errors from
  the channel, which it logs, until the channel is closed.\<close>

definition start_step :: "process \<Rightarrow> process option" where
  "start_step p =
     (if pmain p = AtEventLoop
      then Some (p\<lparr>pmain := AtErrors, ptm := fst (GoThread server_thread (ptm p)), ploop := Binding\<rparr>)
      else case perrs p of
             e # es \<Rightarrow> Some (p\<lparr>perrs := es\<rparr>)
           | [] \<Rightarrow> if perrs_closed p then Some (p\<lparr>pmain := AtWait\<rparr>) else None)"

text \<open>The main goroutine; \<open>persist\<close> is the setting of the configuration.\<close>

definition main_step :: "bool \<Rightarrow> process \<Rightarrow> process option" where
  "main_step persist p =
     (case pmain p of
        AtRecovery \<Rightarrow>
          Some (p\<lparr>pmain := AtEventLoop,
                  ptm := (if persist then fst (GoThread recovery_thread (ptm p)) else ptm p)\<rparr>)
      | AtEventLoop \<Rightarrow> start_step p
      | AtErrors \<Rightarrow> start_step p
      | AtWait \<Rightarrow> if active (ptm p) = 0 then Some (p\<lparr>pmain := AtStop\<rparr>) else None
      | AtStop \<Rightarrow> Some (p\<lparr>pmain := AtReturn\<rparr>)
      | AtReturn \<Rightarrow> Some (p\<lparr>pmain := Exited\<rparr>)
      | _ \<Rightarrow> None)"

text \<open>The end of recovery, which does not look at its context.\<close>

definition recovery_step :: "process \<Rightarrow> process option" where
  "recovery_step p =
     (if gm_get (threads (ptm p)) recovery_thread = None then None
      else Some (p\<lparr>ptm := FinishThread recovery_thread (ptm p)\<rparr>))"

text \<open>What the kernel and the clients answer the goroutine of the event loop: whether it could bind and
  make the multiplexer, how a poll ends, whether a client whose first message it has read is let in
  (the goroutine of its connection is then launched), and, when there is both an error and a
  cancelled context, which one it takes.  While it drains it waits for the connections for a second at
  most, so it can always go on.\<close>

datatype answer = Bound "start_error option" | Polled "start_error option" | Select bool | NewClient | ClientRead bool | Go

definition loop_step :: "answer \<Rightarrow> process \<Rightarrow> process option" where
  "loop_step a p =
     (let cancelled = (gm_get (threads (ptm p)) server_thread = Some True)
      in case (ploop p, a) of
           (Binding, Bound None) \<Rightarrow> Some (p\<lparr>ploop := Checking, plisten := True\<rparr>)
         | (Binding, Bound (Some e)) \<Rightarrow> Some (p\<lparr>ploop := Reporting (Some e)\<rparr>)
         | (Checking, Go) \<Rightarrow> Some (p\<lparr>ploop := if cancelled then Draining None else Polling\<rparr>)
         | (Polling, Polled None) \<Rightarrow> Some (p\<lparr>ploop := Checking\<rparr>)
         | (Polling, Polled (Some e)) \<Rightarrow> Some (p\<lparr>ploop := Failed e\<rparr>)
         | (Failed e, Select b) \<Rightarrow> Some (p\<lparr>ploop := Draining (if cancelled \<and> b then None else Some e)\<rparr>)
         | (Polling, NewClient) \<Rightarrow> Some (p\<lparr>ploop := Reading\<rparr>)
         | (Reading, ClientRead b) \<Rightarrow> Some (p\<lparr>ploop := Checking, pconns := if b then Suc (pconns p) else pconns p\<rparr>)
         | (Draining r, Go) \<Rightarrow> Some (p\<lparr>ploop := Reporting r, plisten := False\<rparr>)
         | (Reporting r, Go) \<Rightarrow>
             if r = None then Some (p\<lparr>ploop := ClosingErrs\<rparr>)
             else if length (perrs p) < 2 then Some (p\<lparr>ploop := ClosingErrs, perrs := perrs p @ runServer r\<rparr>)
             else None
         | (ClosingErrs, Go) \<Rightarrow> Some (p\<lparr>ploop := Leaving, perrs_closed := True\<rparr>)
         | (Leaving, Go) \<Rightarrow> Some (p\<lparr>ploop := Gone, ptm := FinishThread server_thread (ptm p)\<rparr>)
         | _ \<Rightarrow> None)"

text \<open>A step of a connection's goroutine: it reads, serves or answers, before a signal as after it; it
  ends; or the request it serves panics (no \<^verbatim>\<open>recover\<close> in the program), which ends the process.\<close>

datatype conn_turn = Served | Ended | Panicked

definition conn_step :: "conn_turn \<Rightarrow> process \<Rightarrow> process option" where
  "conn_step c p =
     (if pconns p = 0 then None
      else case c of
        Served \<Rightarrow> Some p
      | Ended \<Rightarrow> Some (p\<lparr>pconns := pconns p - 1\<rparr>)
      | Panicked \<Rightarrow> Some (p\<lparr>pmain := Crashed\<rparr>))"

text \<open>A step of the process; after its end there is none.\<close>

datatype turn = OsSignal | OnHandler | OnMain | OnRecovery | OnLoop answer | OnConn conn_turn

definition turn_step :: "bool \<Rightarrow> turn \<Rightarrow> process \<Rightarrow> process option" where
  "turn_step persist x p =
     (if pmain p = Exited \<or> pmain p = Crashed then None
      else case x of
        OsSignal \<Rightarrow> signal_step p
      | OnHandler \<Rightarrow> handler_step p
      | OnMain \<Rightarrow> main_step persist p
      | OnRecovery \<Rightarrow> recovery_step p
      | OnLoop a \<Rightarrow> loop_step a p
      | OnConn c \<Rightarrow> conn_step c p)"

fun run_process :: "bool \<Rightarrow> turn list \<Rightarrow> process \<Rightarrow> process option" where
  "run_process persist [] p = Some p"
| "run_process persist (x # xs) p =
     (case turn_step persist x p of None \<Rightarrow> None | Some p' \<Rightarrow> run_process persist xs p')"

section \<open>The invariant\<close>

text \<open>Of the goroutines of main and the event loop, and the channel between them.\<close>

definition control_ok :: "main_phase \<Rightarrow> loop_phase \<Rightarrow> start_error list \<Rightarrow> bool \<Rightarrow> bool \<Rightarrow> bool" where
  "control_ok m l es shut listening \<longleftrightarrow>
     (l = Idle \<longleftrightarrow> m = AtRecovery \<or> m = AtEventLoop) \<and>
     (shut \<longleftrightarrow> l = Leaving \<or> l = Gone) \<and>
     (es = [] \<or> length es = 1 \<and> (l = ClosingErrs \<or> l = Leaving \<or> l = Gone)) \<and>
     (m \<in> {AtWait, AtStop, AtReturn, Exited, Crashed} \<longrightarrow> shut \<and> es = []) \<and>
     (listening \<longrightarrow> l \<in> {Checking, Polling, Reading} \<union> range Failed \<union> range Draining)"

text \<open>Of the thread manager.\<close>

definition names_ok :: "'v gomap \<Rightarrow> bool" where
  "names_ok m \<longleftrightarrow> (\<forall>i. gm_get m i \<noteq> None \<longrightarrow> i \<in> {recovery_thread, server_thread})"

lemma control_main:
  "control_ok AtRecovery l es c f \<Longrightarrow> control_ok AtEventLoop l es c f"
  "control_ok AtEventLoop l es c f \<Longrightarrow> control_ok AtErrors Binding es c f"
  "control_ok AtErrors l (e # es) c f \<Longrightarrow> control_ok AtErrors l es c f"
  "control_ok AtErrors l [] True f \<Longrightarrow> control_ok AtWait l [] True f"
  "control_ok AtWait l es c f \<Longrightarrow> control_ok AtStop l es c f"
  "control_ok AtStop l es c f \<Longrightarrow> control_ok AtReturn l es c f"
  "control_ok AtReturn l es c f \<Longrightarrow> control_ok Exited l es c f"
  "control_ok AtReturn l es c f \<Longrightarrow> control_ok Crashed l es c f"
  by (auto simp: control_ok_def)

lemma control_main_waits:
  assumes "control_ok m l es c f" and "m \<in> {AtWait, AtStop, AtReturn, Exited, Crashed}"
  shows "l = Leaving \<or> l = Gone" "es = []" "c" "\<not> f"
  using assms by (auto simp: control_ok_def)

lemma control_loop:
  "control_ok m Binding es c f \<Longrightarrow> control_ok m Checking es c True"
  "control_ok m Binding es c f \<Longrightarrow> control_ok m (Reporting r) es c f"
  "control_ok m Checking es c f \<Longrightarrow> control_ok m Polling es c f"
  "control_ok m Checking es c f \<Longrightarrow> control_ok m (Draining r) es c f"
  "control_ok m Polling es c f \<Longrightarrow> control_ok m Checking es c f"
  "control_ok m Polling es c f \<Longrightarrow> control_ok m Reading es c f"
  "control_ok m Polling es c f \<Longrightarrow> control_ok m (Failed e) es c f"
  "control_ok m Reading es c f \<Longrightarrow> control_ok m Checking es c f"
  "control_ok m (Failed e) es c f \<Longrightarrow> control_ok m (Draining r) es c f"
  "control_ok m (Draining r) es c f \<Longrightarrow> control_ok m (Reporting r) es c False"
  "control_ok m (Reporting r) es c f \<Longrightarrow> control_ok m ClosingErrs es c f"
  "control_ok m (Reporting (Some e)) es c f \<Longrightarrow> control_ok m ClosingErrs (es @ [e]) c f"
  "control_ok m ClosingErrs es c f \<Longrightarrow> control_ok m Leaving es True f"
  "control_ok m Leaving es c f \<Longrightarrow> control_ok m Gone es c f"
  by (cases m; simp add: control_ok_def; blast)+

lemma control_phases:
  assumes "control_ok m l es c f"
  shows "l = Idle \<longleftrightarrow> m = AtRecovery \<or> m = AtEventLoop" "l \<noteq> Leaving \<Longrightarrow> l \<noteq> Gone \<Longrightarrow> l \<noteq> ClosingErrs \<Longrightarrow> es = []"
    "length es < 2" "c \<longleftrightarrow> l = Leaving \<or> l = Gone"
  using assms by (auto simp: control_ok_def)

text \<open>The thread manager.\<close>

lemma tm_ops:
  assumes "tm_ok m"
  shows "tm_ok (fst (GoThread i m))" "gm_get (threads m) i \<noteq> None \<Longrightarrow> tm_ok (FinishThread i m)" "tm_ok (CancelAll m)"
  using tm_step_ok [OF tm_step.go assms] tm_step_ok [OF tm_step.finish assms] tm_step_ok [OF tm_step.cancel assms]
  by blast+

lemma tm_ops_simps [simp]:
  "gm_get (threads (fst (GoThread i m))) j =
     (if j = i \<and> gm_get (threads m) i = None then Some (tm_cancelled m) else gm_get (threads m) j)"
  "tm_cancelled (fst (GoThread i m)) = tm_cancelled m"
  "gm_get (threads (FinishThread i m)) j = (if j = i then None else gm_get (threads m) j)"
  "tm_cancelled (FinishThread i m) = tm_cancelled m"
  "gm_get (threads (CancelAll m)) j = map_option (\<lambda>_. True) (gm_get (threads m) j)"
  "threads (CancelAll m) = [] \<longleftrightarrow> threads m = []"
  "tm_cancelled (CancelAll m)"
  by (auto simp: GoThread_def FinishThread_def CancelAll_def map_of_apsnd)

lemma names_ok_ops [simp]:
  "names_ok (threads m) \<Longrightarrow> names_ok (threads (fst (GoThread recovery_thread m)))"
  "names_ok (threads m) \<Longrightarrow> names_ok (threads (fst (GoThread server_thread m)))"
  "names_ok (threads m) \<Longrightarrow> names_ok (threads (FinishThread i m))"
  "names_ok (threads (CancelAll m)) \<longleftrightarrow> names_ok (threads m)"
  by (auto simp: names_ok_def)

definition threads_ok :: "threadManager \<Rightarrow> bool \<Rightarrow> bool" where
  "threads_ok m b \<longleftrightarrow> tm_ok m \<and> names_ok (threads m) \<and> (gm_get (threads m) server_thread \<noteq> None \<longleftrightarrow> b)"

definition process_ok :: "process \<Rightarrow> bool" where
  "process_ok p \<longleftrightarrow>
     control_ok (pmain p) (ploop p) (perrs p) (perrs_closed p) (plisten p) \<and>
     threads_ok (ptm p) (ploop p \<noteq> Idle \<and> ploop p \<noteq> Gone) \<and>
     (pmain p \<in> {AtStop, AtReturn, Exited, Crashed} \<longrightarrow> threads (ptm p) = []) \<and>
     (tm_cancelled (ptm p) \<longrightarrow> \<not> pwaiting p \<and> pmain p \<noteq> Crashed) \<and>
     (pmain p = Crashed \<longrightarrow> \<not> pwaiting p)"

lemma process_ok_start: "process_ok start_process"
  by (simp add: process_ok_def threads_ok_def start_process_def NewThreadManager_def tm_ok_def control_ok_def names_ok_def)

lemma threads_ok_ops:
  "threads_ok m b \<Longrightarrow> threads_ok (fst (GoThread recovery_thread m)) b"
  "threads_ok m False \<Longrightarrow> threads_ok (fst (GoThread server_thread m)) True"
  "threads_ok m b \<Longrightarrow> gm_get (threads m) recovery_thread \<noteq> None \<Longrightarrow> threads_ok (FinishThread recovery_thread m) b"
  "threads_ok m True \<Longrightarrow> threads_ok (FinishThread server_thread m) False"
  "threads_ok m b \<Longrightarrow> threads_ok (CancelAll m) b"
  by (simp_all add: threads_ok_def tm_ops)

lemma active_0: "threads_ok m b \<Longrightarrow> active m = 0 \<longleftrightarrow> threads m = []"
  by (simp add: threads_ok_def tm_ok_def)

section \<open>Every part keeps it\<close>

lemma handler_step_ok:
  assumes "handler_step p = Some q" and "process_ok p"
  shows "process_ok q"
proof -
  from assms(1) consider "q = p\<lparr>psignal := False, pwaiting := False, ptm := CancelAll (ptm p)\<rparr>" "pwaiting p"
    | "q = p\<lparr>pwaiting := False, pmain := Crashed\<rparr>" "pwaiting p" "pmain p = AtReturn"
    by (auto simp: handler_step_def split: if_splits)
  then show ?thesis
  proof cases
    case 1
    with assms(2) show ?thesis by (auto simp: process_ok_def threads_ok_ops)
  next
    case 2
    with assms(2) show ?thesis by (auto simp: process_ok_def control_main)
  qed
qed

lemma main_step_ok:
  assumes "main_step persist p = Some q" and "process_ok p"
  shows "process_ok q"
proof (cases "pmain p")
  case AtEventLoop
  then have "control_ok AtErrors Binding (perrs p) (perrs_closed p) (plisten p)" "ploop p = Idle"
    using assms(2) control_main(2) control_phases(1) by (auto simp: process_ok_def)
  then show ?thesis
    using assms AtEventLoop by (auto simp: main_step_def start_step_def process_ok_def threads_ok_ops)
next
  case AtErrors
  then show ?thesis
    using assms control_main(3,4) by (auto simp: main_step_def start_step_def process_ok_def split: list.splits if_splits)
qed (use assms in \<open>auto simp: main_step_def start_step_def process_ok_def threads_ok_ops control_main active_0 split: if_splits\<close>)

lemma recovery_step_ok:
  assumes "recovery_step p = Some q" and "process_ok p"
  shows "process_ok q"
proof -
  from assms(1) have r: "gm_get (threads (ptm p)) recovery_thread \<noteq> None"
    and q: "q = p\<lparr>ptm := FinishThread recovery_thread (ptm p)\<rparr>"
    by (auto simp: recovery_step_def split: if_splits)
  from r have "threads (ptm p) \<noteq> []" by auto
  moreover have "threads_ok (FinishThread recovery_thread (ptm p)) (ploop p \<noteq> Idle \<and> ploop p \<noteq> Gone)"
    using assms(2) r by (intro threads_ok_ops(3)) (simp_all add: process_ok_def)
  ultimately show ?thesis using assms(2) by (simp add: q process_ok_def)
qed

lemma loop_step_cases:
  assumes "loop_step a p = Some q"
  obtains (bound) "ploop p = Binding" "q = p\<lparr>ploop := Checking, plisten := True\<rparr>"
  | (unbound) e where "ploop p = Binding" "q = p\<lparr>ploop := Reporting (Some e)\<rparr>"
  | (check) "ploop p = Checking" "gm_get (threads (ptm p)) server_thread \<noteq> Some True" "q = p\<lparr>ploop := Polling\<rparr>"
  | (cancelled) "ploop p = Checking" "q = p\<lparr>ploop := Draining None\<rparr>"
  | (polled) "ploop p = Polling" "q = p\<lparr>ploop := Checking\<rparr>"
  | (failed) e where "ploop p = Polling" "q = p\<lparr>ploop := Failed e\<rparr>"
  | (client) "ploop p = Polling" "q = p\<lparr>ploop := Reading\<rparr>"
  | (client_read) n where "ploop p = Reading" "q = p\<lparr>ploop := Checking, pconns := n\<rparr>"
  | (select) e r where "ploop p = Failed e" "q = p\<lparr>ploop := Draining r\<rparr>"
  | (drained) r where "ploop p = Draining r" "q = p\<lparr>ploop := Reporting r, plisten := False\<rparr>"
  | (quiet) "ploop p = Reporting None" "q = p\<lparr>ploop := ClosingErrs\<rparr>"
  | (report) e where "ploop p = Reporting (Some e)" "q = p\<lparr>ploop := ClosingErrs, perrs := perrs p @ [e]\<rparr>"
  | (close_errs) "ploop p = ClosingErrs" "q = p\<lparr>ploop := Leaving, perrs_closed := True\<rparr>"
  | (leave) "ploop p = Leaving" "q = p\<lparr>ploop := Gone, ptm := FinishThread server_thread (ptm p)\<rparr>"
proof (cases "ploop p")
  case Binding
  then show ?thesis using assms bound unbound by (cases a) (auto simp: loop_step_def split: option.splits)
next
  case Checking
  then show ?thesis using assms check cancelled by (cases a) (auto simp: loop_step_def split: if_splits)
next
  case Polling
  then show ?thesis using assms polled failed client by (cases a) (auto simp: loop_step_def split: option.splits)
next
  case Reading
  then show ?thesis using assms client_read by (cases a) (auto simp: loop_step_def)
next
  case (Failed e)
  then show ?thesis using assms select by (cases a) (auto simp: loop_step_def)
next
  case (Draining r)
  then show ?thesis using assms drained by (cases a) (auto simp: loop_step_def)
next
  case (Reporting r)
  then show ?thesis using assms quiet report
    by (cases a; cases r) (auto simp: loop_step_def runServer_def split: if_splits)
next
  case ClosingErrs
  then show ?thesis using assms close_errs by (cases a) (auto simp: loop_step_def)
next
  case Leaving
  then show ?thesis using assms leave by (cases a) (auto simp: loop_step_def)
next
  case Idle
  then show ?thesis using assms by (cases a) (simp_all add: loop_step_def)
next
  case Gone
  then show ?thesis using assms by (cases a) (simp_all add: loop_step_def)
qed

lemma loop_step_control:
  assumes "loop_step a p = Some q" and c: "control_ok (pmain p) (ploop p) (perrs p) (perrs_closed p) (plisten p)"
  shows "control_ok (pmain q) (ploop q) (perrs q) (perrs_closed q) (plisten q)"
  using assms(1) c by (cases rule: loop_step_cases) (simp, erule control_loop)+

lemma loop_step_ok:
  assumes "loop_step a p = Some q" and "process_ok p"
  shows "process_ok q"
proof -
  have c: "control_ok (pmain q) (ploop q) (perrs q) (perrs_closed q) (plisten q)"
    using loop_step_control [OF assms(1)] assms(2) by (simp add: process_ok_def)
  have t: "threads (ptm p) \<noteq> []" if "ploop p \<noteq> Idle" "ploop p \<noteq> Gone"
    using assms(2) that by (auto simp: process_ok_def threads_ok_def)
  show ?thesis
    using assms(1)
  proof (cases rule: loop_step_cases)
    case leave
    then show ?thesis using assms(2) c t threads_ok_ops(4) [of "ptm p"] by (simp add: process_ok_def)
  qed (use assms(2) c in \<open>simp_all add: process_ok_def\<close>)
qed

lemma turn_step_cases:
  assumes "turn_step persist x p = Some q"
  obtains (signal) "x = OsSignal" "q = p\<lparr>psignal := True\<rparr>"
  | (handler) "x = OnHandler" "handler_step p = Some q"
  | (main) "x = OnMain" "main_step persist p = Some q"
  | (recovery) "x = OnRecovery" "recovery_step p = Some q"
  | (loop) a where "x = OnLoop a" "loop_step a p = Some q"
  | (conn) c where "x = OnConn c" "conn_step c p = Some q"
  using assms that by (cases x) (simp_all add: turn_step_def signal_step_def split: if_splits)

lemma conn_step_cases:
  assumes "conn_step c p = Some q"
  obtains (served) "q = p" "c = Served" | (ended) n where "q = p\<lparr>pconns := n\<rparr>" "c = Ended"
  | (panicked) "q = p\<lparr>pmain := Crashed\<rparr>" "c = Panicked"
proof (cases c)
  case Served
  then show ?thesis using assms served by (simp add: conn_step_def split: if_splits)
next
  case Ended
  then show ?thesis using assms ended [of "pconns p - 1"] by (simp add: conn_step_def split: if_splits)
next
  case Panicked
  then show ?thesis using assms panicked by (simp add: conn_step_def split: if_splits)
qed

lemma turn_step_ok:
  assumes "turn_step persist x p = Some q" and "process_ok p" and "x \<noteq> OnConn Panicked"
  shows "process_ok q"
  using assms(1)
proof (cases rule: turn_step_cases)
  case signal
  then show ?thesis using assms(2) by (simp add: process_ok_def)
next
  case (conn c)
  from conn(2) show ?thesis
    by (cases rule: conn_step_cases) (use assms(2,3) conn(1) in \<open>simp_all add: process_ok_def\<close>)
qed (use assms(2) handler_step_ok main_step_ok recovery_step_ok loop_step_ok in blast)+

lemma run_process_ok:
  "run_process persist xs p = Some q \<Longrightarrow> OnConn Panicked \<notin> set xs \<Longrightarrow> process_ok p \<Longrightarrow> process_ok q"
  by (induction xs arbitrary: p) (auto split: option.splits dest: turn_step_ok)

text \<open>A panic is the last step of a run.\<close>

lemma run_process_crashed: "run_process persist xs p = Some q \<Longrightarrow> pmain p = Crashed \<Longrightarrow> xs = [] \<and> q = p"
  by (cases xs) (simp_all add: turn_step_def)

lemma run_process_panic:
  assumes "run_process persist xs p = Some q" and "OnConn Panicked \<in> set xs"
  shows "\<exists>zs q'. xs = zs @ [OnConn Panicked] \<and> OnConn Panicked \<notin> set zs \<and> run_process persist zs p = Some q' \<and>
    pmain q = Crashed"
  using assms
proof (induction xs arbitrary: p)
  case (Cons x xs)
  then obtain p' where p: "turn_step persist x p = Some p'" "run_process persist xs p' = Some q"
    by (auto split: option.splits)
  show ?case
  proof (cases "x = OnConn Panicked")
    case True
    then have "pmain p' = Crashed" using p(1) by (auto simp: turn_step_def conn_step_def split: if_splits)
    with run_process_crashed [OF p(2)] True show ?thesis by auto
  next
    case False
    then obtain zs q' where "xs = zs @ [OnConn Panicked]" "OnConn Panicked \<notin> set zs" "run_process persist zs p' = Some q'"
      "pmain q = Crashed"
      using Cons.IH [OF p(2)] Cons.prems(2) by auto
    then show ?thesis using False p(1) by (intro exI [of _ "x # zs"] exI [of _ q']) simp
  qed
qed simp

section \<open>How long it takes to end\<close>

definition main_left :: "main_phase \<Rightarrow> nat" where
  "main_left m =
     (case m of AtRecovery \<Rightarrow> 8 | AtEventLoop \<Rightarrow> 6 | AtErrors \<Rightarrow> 5 | AtWait \<Rightarrow> 4 | AtStop \<Rightarrow> 3 | AtReturn \<Rightarrow> 2
      | Exited \<Rightarrow> 0 | Crashed \<Rightarrow> 0)"

definition loop_left :: "loop_phase \<Rightarrow> nat" where
  "loop_left l =
     (case l of Idle \<Rightarrow> 10 | Binding \<Rightarrow> 9 | Polling \<Rightarrow> 8 | Reading \<Rightarrow> 7 | Checking \<Rightarrow> 6 | Failed _ \<Rightarrow> 6
      | Draining _ \<Rightarrow> 5 | Reporting _ \<Rightarrow> 4 | ClosingErrs \<Rightarrow> 2 | Leaving \<Rightarrow> 1 | Gone \<Rightarrow> 0)"

definition left :: "process \<Rightarrow> nat" where
  "left p = main_left (pmain p) + loop_left (ploop p) + length (perrs p) +
     (if gm_get (threads (ptm p)) recovery_thread = None then 0 else 1)"

lemma left_bound:
  assumes "process_ok p"
  shows "left p \<le> 20"
proof -
  have "length (perrs p) < 2" using assms control_phases(3) unfolding process_ok_def by blast
  moreover have "main_left (pmain p) \<le> 8" by (simp add: main_left_def split: main_phase.split)
  moreover have "loop_left (ploop p) \<le> 10" by (simp add: loop_left_def split: loop_phase.split)
  ultimately show ?thesis by (simp add: left_def)
qed

text \<open>Once cancelled, every step but a further signal or a connection's brings the end nearer.\<close>

definition own :: "turn \<Rightarrow> bool" where
  "own x \<longleftrightarrow> (case x of OsSignal \<Rightarrow> False | OnConn _ \<Rightarrow> False | _ \<Rightarrow> True)"

lemma main_step_left:
  assumes "main_step persist p = Some q" and "process_ok p"
  shows "left q < left p"
proof -
  have "ploop p = Idle" if "pmain p = AtEventLoop" using assms(2) control_phases(1) that by (auto simp: process_ok_def)
  then show ?thesis
    using assms(1)
    by (cases "pmain p") (auto simp: main_step_def start_step_def left_def main_left_def loop_left_def split: list.splits if_splits)
qed

lemma loop_step_left:
  assumes "loop_step a p = Some q" and "process_ok p" and "tm_cancelled (ptm p)"
  shows "left q < left p"
  using assms(1)
proof (cases rule: loop_step_cases)
  case check
  have t: "gm_get (threads (ptm p)) server_thread \<noteq> None" "tm_ok (ptm p)"
    using assms(2) check(1) by (simp_all add: process_ok_def threads_ok_def)
  then obtain v where v: "gm_get (threads (ptm p)) server_thread = Some v" by blast
  with t(2) assms(3) have v unfolding tm_ok_def by blast
  with v check(2) show ?thesis by simp
qed (simp_all add: left_def loop_left_def)

lemma turn_step_left:
  assumes "turn_step persist x p = Some q" and "process_ok p" and "tm_cancelled (ptm p)" and "x \<noteq> OnConn Panicked"
  shows "tm_cancelled (ptm q) \<and> left q + (if own x then 1 else 0) \<le> left p"
  using assms(1)
proof (cases rule: turn_step_cases)
  case signal
  then show ?thesis using assms(3) by (simp add: left_def own_def)
next
  case (conn c)
  from conn(2) show ?thesis
    by (cases rule: conn_step_cases) (use assms(3,4) conn(1) in \<open>simp_all add: left_def own_def\<close>)
next
  case handler
  then show ?thesis using assms(2,3) by (simp add: handler_step_def process_ok_def)
next
  case main
  moreover have "tm_cancelled (ptm q)"
    using main assms(3) by (cases "pmain p") (auto simp: main_step_def start_step_def split: list.splits if_splits)
  ultimately show ?thesis using main_step_left [OF main(2) assms(2)] by simp
next
  case recovery
  then show ?thesis using assms(3) by (auto simp: recovery_step_def left_def split: if_splits)
next
  case (loop a)
  have "tm_cancelled (ptm q)"
    using loop(2) by (cases rule: loop_step_cases) (simp_all add: assms(3))
  then show ?thesis using loop loop_step_left [OF loop(2) assms(2,3)] by simp
qed

lemma run_process_left:
  "run_process persist xs p = Some q \<Longrightarrow> process_ok p \<Longrightarrow> tm_cancelled (ptm p) \<Longrightarrow> OnConn Panicked \<notin> set xs \<Longrightarrow>
     tm_cancelled (ptm q) \<and> left q + length (filter own xs) \<le> left p"
proof (induction xs arbitrary: p)
  case (Cons x xs)
  then obtain p' where p: "turn_step persist x p = Some p'" "run_process persist xs p' = Some q"
    by (auto split: option.splits)
  from Cons.prems(4) have x: "x \<noteq> OnConn Panicked" "OnConn Panicked \<notin> set xs" by auto
  from turn_step_left [OF p(1) Cons.prems(2,3) x(1)] Cons.IH [OF p(2) turn_step_ok [OF p(1) Cons.prems(2) x(1)] _ x(2)]
  show ?case by (cases "own x") auto
qed simp

lemma loop_progress:
  assumes "ploop p \<notin> {Idle, Reading, Gone}" and "length (perrs p) < 2"
  shows "\<exists>a q. loop_step a p = Some q"
proof (cases "ploop p")
  case Binding then show ?thesis by (intro exI [of _ "Bound None"]) (simp add: loop_step_def)
next
  case Polling then show ?thesis by (intro exI [of _ "Polled None"]) (simp add: loop_step_def)
next
  case (Failed e) then show ?thesis by (intro exI [of _ "Select True"]) (simp add: loop_step_def)
qed (use assms in \<open>auto simp: loop_step_def intro!: exI [of _ Go]\<close>)

lemma process_progress:
  assumes "process_ok p" and "pmain p \<noteq> Exited" and "pmain p \<noteq> Crashed" and "ploop p \<noteq> Reading"
  shows "\<exists>x q. own x \<and> turn_step persist x p = Some q"
proof -
  have t: "turn_step persist x p = (case x of OsSignal \<Rightarrow> signal_step p | OnHandler \<Rightarrow> handler_step p
      | OnMain \<Rightarrow> main_step persist p | OnRecovery \<Rightarrow> recovery_step p | OnLoop a \<Rightarrow> loop_step a p
      | OnConn c \<Rightarrow> conn_step c p)" for x
    using assms(2,3) by (simp add: turn_step_def)
  note c = assms(1) [unfolded process_ok_def, THEN conjunct1]
  have main: ?thesis if "main_step persist p \<noteq> None" using that by (intro exI [of _ OnMain]) (auto simp: t own_def)
  have loop: ?thesis if w: "ploop p \<noteq> Idle" "ploop p \<noteq> Gone"
  proof -
    obtain a q where "loop_step a p = Some q"
      using loop_progress [of p] control_phases(3) [OF c] assms(4) w by auto
    then show ?thesis by (intro exI [of _ "OnLoop a"]) (simp add: t own_def)
  qed
  have wait: ?thesis if "pmain p = AtWait"
  proof (cases "active (ptm p) = 0")
    case True
    then show ?thesis using main that by (simp add: main_step_def start_step_def)
  next
    case False
    then have "threads (ptm p) \<noteq> []"
      using assms(1) active_0 unfolding process_ok_def by blast
    then obtain i v where "(i, v) \<in> set (threads (ptm p))" by (cases "threads (ptm p)") auto
    then have "gm_get (threads (ptm p)) i \<noteq> None" by (metis map_of_eq_None_iff fst_conv imageI)
    then consider "gm_get (threads (ptm p)) recovery_thread \<noteq> None" | "gm_get (threads (ptm p)) server_thread \<noteq> None"
      using assms(1) by (auto simp: process_ok_def threads_ok_def names_ok_def)
    then show ?thesis
    proof cases
      case 1
      then show ?thesis by (intro exI [of _ OnRecovery]) (simp add: t own_def recovery_step_def)
    next
      case 2
      then show ?thesis using loop assms(1) by (auto simp: process_ok_def threads_ok_def)
    qed
  qed
  show ?thesis
  proof (cases "pmain p")
    case AtErrors
    then show ?thesis
      using main loop control_phases(1,4) [OF c] by (cases "perrs p"; cases "perrs_closed p") (auto simp: main_step_def start_step_def)
  qed (use assms(2,3) main wait in \<open>simp_all add: main_step_def start_step_def\<close>)
qed

text \<open>C16.  A signal ends the process.  Once the thread manager has been cancelled, whatever the order of the
  steps, the goroutines of main, of the handler of signals, of recovery and of the event loop have at most
  20 left, however many steps the connections take among them (they go on serving) and however many
  further signals there are.  Unless a request panics the process does not crash; a panic of one is
  the only way it can.  It stands still only when it has exited, with no thread of the manager left and the server's
  socket closed, or while the accept loop reads the first message of a client, who may keep it
  waiting; else one of these goroutines has a step, whatever the connections do.\<close>

theorem shutdown:
  assumes "run_process persist xs start_process = Some p" and "tm_cancelled (ptm p)"
    and "run_process persist ys p = Some q"
  shows "length (filter own ys) \<le> 20 \<and>
    (pmain q = Crashed \<longleftrightarrow> OnConn Panicked \<in> set (xs @ ys)) \<and>
    (pmain q = Exited \<longrightarrow> threads (ptm q) = [] \<and> \<not> plisten q) \<and>
    (pmain q \<noteq> Exited \<and> pmain q \<noteq> Crashed \<and> ploop q \<noteq> Reading \<longrightarrow>
       (\<exists>y q'. own y \<and> turn_step persist y q = Some q'))"
proof (cases "OnConn Panicked \<in> set xs")
  case True
  then have "pmain p = Crashed" using run_process_panic [OF assms(1)] by blast
  then show ?thesis using True run_process_crashed [OF assms(3)] by simp
next
  case xs: False
  note p = run_process_ok [OF assms(1) xs process_ok_start]
  show ?thesis
  proof (cases "OnConn Panicked \<in> set ys")
    case True
    then obtain zs q' where z: "ys = zs @ [OnConn Panicked]" "OnConn Panicked \<notin> set zs"
      "run_process persist zs p = Some q'" "pmain q = Crashed"
      using run_process_panic [OF assms(3)] by blast
    from run_process_left [OF z(3) p assms(2) z(2)] left_bound [OF p] z True
    show ?thesis by (simp add: own_def)
  next
    case False
    note q = run_process_ok [OF assms(3) False p]
    note l = run_process_left [OF assms(3) p assms(2) False]
    have "pmain q \<noteq> Crashed" using q l by (auto simp: process_ok_def)
    moreover have "threads (ptm q) = [] \<and> \<not> plisten q" if "pmain q = Exited"
      using q that control_main_waits(4) [of "pmain q"] by (auto simp: process_ok_def)
    moreover have "OnConn Panicked \<notin> set (xs @ ys)" using xs False by simp
    ultimately show ?thesis using l left_bound [OF p] process_progress [OF q] by auto
  qed
qed

text \<open>A client has connected, another poll waits, and a signal arrives: an order of steps that leads to the
  end, with requests served while the loop drains.\<close>

definition till_signal :: "turn list" where
  "till_signal = [OnMain, OnMain, OnLoop (Bound None), OnLoop Go, OnLoop NewClient, OnLoop (ClientRead True), OnConn Served,
     OnLoop Go, OsSignal, OnHandler]"

definition till_end :: "turn list" where
  "till_end = [OnConn Served, OnLoop (Polled None), OnLoop Go, OnConn Served, OnConn Served, OnLoop Go, OnLoop Go, OnLoop Go,
     OnLoop Go, OnMain, OnRecovery, OnConn Served, OnMain, OnMain, OnMain]"

lemmas run_simps = turn_step_def signal_step_def handler_step_def main_step_def start_step_def recovery_step_def loop_step_def
  conn_step_def start_process_def NewThreadManager_def GoThread_def FinishThread_def CancelAll_def runServer_def
  recovery_thread_def server_thread_def Let_def

theorem shutdown_witness:
  "\<exists>p q. run_process True till_signal start_process = Some p \<and> run_process True till_end p = Some q \<and>
     pmain q = Exited \<and> threads (ptm q) = [] \<and> \<not> plisten q"
proof -
  obtain p where p: "run_process True till_signal start_process = Some p" "tm_cancelled (ptm p)"
    "pmain p = AtErrors" "ploop p = Polling" "perrs p = []" "\<not> perrs_closed p" "pconns p = 1"
    "threads (ptm p) = [(server_thread, True), (recovery_thread, True)]" "active (ptm p) = 2"
    by (simp add: till_signal_def run_simps)
  then obtain q where q: "run_process True till_end p = Some q" "pmain q = Exited"
    by (simp add: till_end_def run_simps)
  show ?thesis using p(1) q shutdown [OF p(1,2) q(1)] by blast
qed

text \<open>A request that panics while the loop drains: the shutdown ends in a crash.\<close>

lemma drain_panics:
  "\<exists>p. run_process True (till_signal @ [OnLoop (Polled None), OnLoop Go, OnConn Panicked]) start_process = Some p \<and>
     pmain p = Crashed \<and> tm_cancelled (ptm p) \<and> plisten p"
  by (simp add: till_signal_def run_simps)

text \<open>A client that connects and sends nothing keeps the process from ending: after the signal only the
  client has a step (or recovery and main, which wait for the server).\<close>

lemma silent_client:
  "\<exists>p. run_process False [OnMain, OnMain, OnLoop (Bound None), OnLoop Go, OnLoop NewClient, OsSignal, OnHandler]
       start_process = Some p \<and>
     (\<forall>x q. turn_step False x p = Some q \<longrightarrow> x = OsSignal \<or> (\<exists>b. x = OnLoop (ClientRead b)))"
  by (auto simp: turn_step_def run_simps split: turn.splits answer.splits if_splits)

text \<open>Without a signal the end is a crash when the goroutine that waits for one is quicker than main: it
  receives nil from the closed channel.  So it is when the address cannot be bound.\<close>

lemma failed_start_crashes:
  "\<exists>p. run_process False ([OnMain, OnMain, OnLoop (Bound (Some e)), OnLoop Go, OnLoop Go, OnLoop Go] @ replicate 4 OnMain @ [OnHandler])
       start_process = Some p \<and> pmain p = Crashed"
  by (simp add: run_simps numeral_eq_Suc)

end
