(* ===== verification/Late_Marshal.thy ===== *)
theory Late_Marshal
  imports Replay
begin

text \<open>
  The log holds pointers.  A handler puts an object into the channel of the log, and the goroutine
  of the log encodes it when it gets there; \<^verbatim>\<open>TTL.EXPIRE\<close>, \<^verbatim>\<open>MAP.DEL\<close> and \<^verbatim>\<open>LIST.GPOP\<close> change in place an
  object that may still be in the channel from an earlier request.  Here the memory of a shard
  and its channel are modelled with a heap of objects (\<open>h_step\<close>), beside the model by value that the
  other theories use (\<open>v_step\<close>): what is written late is never older than what was logged, and
  once the channel is empty the two logs replay alike.
\<close>

section \<open>Operations\<close>

text \<open>What a request does to the memory of a shard and to the log: a new object for a key, a new
  expiration time, a new value in place (\<^verbatim>\<open>MAP.DEL\<close>), the new value of \<^verbatim>\<open>LIST.GPOP\<close>, a logged deletion, an
  expired object dropped; and a turn of the goroutine of the log.\<close>

datatype heap_op =
    OSet string bytes kind
  | OExpire int string int
  | OMapDel string bytes
  | OGPop string bytes
  | ODelete string
  | ODrop string
  | OMarshal

definition upd_entry :: "string \<Rightarrow> object \<Rightarrow> walEntry" where
  "upd_entry k ob = \<lparr>Op = UPDATE, EKey = k, EObject = Some ob\<rparr>"

definition del_entry :: "string \<Rightarrow> walEntry" where
  "del_entry k = \<lparr>Op = DELETE, EKey = k, EObject = None\<rparr>"

text \<open>By value.\<close>

fun v_step :: "heap_op \<Rightarrow> memory \<times> walEntry list \<Rightarrow> memory \<times> walEntry list" where
  "v_step (OSet k v kd) (m, l) = (Set k v kd m, l @ [upd_entry k \<lparr>Value = v, Kind = kd, Timestamp = 0\<rparr>])"
| "v_step (OExpire t k s) (m, l) =
     (case Expire t t k s m of
        (m', False) \<Rightarrow> (m', l)
      | (m', True) \<Rightarrow>
          (case Get t k m' of (m'', None) \<Rightarrow> (m'', l) | (m'', Some ob) \<Rightarrow> (m'', l @ [upd_entry k ob])))"
| "v_step (OMapDel k v) (m, l) =
     (case gm_get m k of
        None \<Rightarrow> (m, l)
      | Some ob \<Rightarrow> (gm_upd k (ob\<lparr>Value := v\<rparr>) m, l @ [upd_entry k (ob\<lparr>Value := v\<rparr>)]))"
| "v_step (OGPop k v) (m, l) =
     (case gm_get m k of
        None \<Rightarrow> (m, l)
      | Some ob \<Rightarrow> (Set k v KList m, l @ [upd_entry k (ob\<lparr>Value := v\<rparr>)]))"
| "v_step (ODelete k) (m, l) =
     (case Delete k m of (m', status) \<Rightarrow> (m', if status then l @ [del_entry k] else l))"
| "v_step (ODrop k) (m, l) = (gm_del k m, l)"
| "v_step OMarshal (m, l) = (m, l)"

section \<open>With a heap\<close>

text \<open>An entry of the channel holds a reference; \<open>hfile\<close> is what the goroutine has encoded.\<close>

record ref_entry =
  rop :: int
  rkey :: string
  rref :: "nat option"

record heap_state =
  heap :: "nat \<Rightarrow> object"
  next_ref :: nat
  hmem :: "nat gomap"
  hqueue :: "ref_entry list"
  hfile :: "walEntry list"

definition deref :: "(nat \<Rightarrow> object) \<Rightarrow> ref_entry \<Rightarrow> walEntry" where
  "deref h e = \<lparr>Op = rop e, EKey = rkey e, EObject = map_option h (rref e)\<rparr>"

definition heap_start :: heap_state where
  "heap_start = \<lparr>heap = (\<lambda>_. \<lparr>Value = [], Kind = KDefault, Timestamp = 0\<rparr>), next_ref = 0, hmem = [],
     hqueue = [], hfile = []\<rparr>"

text \<open>\<^verbatim>\<open>Set\<close> makes an object for the store, the handler another one for the log.\<close>

definition h_set :: "string \<Rightarrow> bytes \<Rightarrow> kind \<Rightarrow> heap_state \<Rightarrow> heap_state" where
  "h_set k v kd s =
     (let r = next_ref s; ob = \<lparr>Value = v, Kind = kd, Timestamp = 0\<rparr>
      in s\<lparr>heap := (heap s)(r := ob, Suc r := ob), next_ref := Suc (Suc r), hmem := gm_upd k r (hmem s),
           hqueue := hqueue s @ [\<lparr>rop = UPDATE, rkey = k, rref = Some (Suc r)\<rparr>]\<rparr>)"

text \<open>\<^verbatim>\<open>obj.Timestamp = ...\<close> in \<^verbatim>\<open>Expire\<close>, then \<^verbatim>\<open>Get\<close> and \<^verbatim>\<open>Put\<close> of the same object.\<close>

definition h_expire :: "int \<Rightarrow> string \<Rightarrow> int \<Rightarrow> heap_state \<Rightarrow> heap_state" where
  "h_expire t k sec s =
     (case gm_get (hmem s) k of
        None \<Rightarrow> s
      | Some r \<Rightarrow>
          if 0 < Timestamp (heap s r) \<and> Timestamp (heap s r) \<le> t then s\<lparr>hmem := gm_del k (hmem s)\<rparr>
          else let ob = (heap s r)\<lparr>Timestamp := (if 0 < sec then i64 (t + sec) else 0)\<rparr>;
                   s' = s\<lparr>heap := (heap s)(r := ob)\<rparr>
               in if 0 < Timestamp ob \<and> Timestamp ob < t then s'\<lparr>hmem := gm_del k (hmem s)\<rparr>
                  else s'\<lparr>hqueue := hqueue s @ [\<lparr>rop = UPDATE, rkey = k, rref = Some r\<rparr>]\<rparr>)"

text \<open>\<^verbatim>\<open>obj.Value = ...\<close> and \<^verbatim>\<open>Put\<close> of the object that is in the store.\<close>

definition h_mapdel :: "string \<Rightarrow> bytes \<Rightarrow> heap_state \<Rightarrow> heap_state" where
  "h_mapdel k v s =
     (case gm_get (hmem s) k of
        None \<Rightarrow> s
      | Some r \<Rightarrow>
          s\<lparr>heap := (heap s)(r := (heap s r)\<lparr>Value := v\<rparr>),
            hqueue := hqueue s @ [\<lparr>rop = UPDATE, rkey = k, rref = Some r\<rparr>]\<rparr>)"

text \<open>\<^verbatim>\<open>Set\<close> of a new object, \<^verbatim>\<open>obj.Value = ...\<close> and \<^verbatim>\<open>Put\<close> of the old one.\<close>

definition h_gpop :: "string \<Rightarrow> bytes \<Rightarrow> heap_state \<Rightarrow> heap_state" where
  "h_gpop k v s =
     (case gm_get (hmem s) k of
        None \<Rightarrow> s
      | Some r \<Rightarrow>
          let n = next_ref s
          in s\<lparr>heap := (heap s)(n := \<lparr>Value = v, Kind = KList, Timestamp = 0\<rparr>, r := (heap s r)\<lparr>Value := v\<rparr>),
               next_ref := Suc n, hmem := gm_upd k n (hmem s),
               hqueue := hqueue s @ [\<lparr>rop = UPDATE, rkey = k, rref = Some r\<rparr>]\<rparr>)"

text \<open>\<^verbatim>\<open>Delete\<close>, logged when there was something to delete.\<close>

definition h_delete :: "string \<Rightarrow> heap_state \<Rightarrow> heap_state" where
  "h_delete k s =
     (case gm_get (hmem s) k of
        None \<Rightarrow> s
      | Some r \<Rightarrow>
          s\<lparr>hmem := gm_del k (hmem s), hqueue := hqueue s @ [\<lparr>rop = DELETE, rkey = k, rref = None\<rparr>]\<rparr>)"

text \<open>The goroutine of the log takes an entry from the channel and encodes what its pointer shows now.\<close>

definition h_marshal :: "heap_state \<Rightarrow> heap_state" where
  "h_marshal s =
     (case hqueue s of [] \<Rightarrow> s | e # es \<Rightarrow> s\<lparr>hqueue := es, hfile := hfile s @ [deref (heap s) e]\<rparr>)"

fun h_step :: "heap_op \<Rightarrow> heap_state \<Rightarrow> heap_state" where
  "h_step (OSet k v kd) s = h_set k v kd s"
| "h_step (OExpire t k sec) s = h_expire t k sec s"
| "h_step (OMapDel k v) s = h_mapdel k v s"
| "h_step (OGPop k v) s = h_gpop k v s"
| "h_step (ODelete k) s = h_delete k s"
| "h_step (ODrop k) s = s\<lparr>hmem := gm_del k (hmem s)\<rparr>"
| "h_step OMarshal s = h_marshal s"

section \<open>The handlers are these operations\<close>

text \<open>\<^verbatim>\<open>SET\<close>, and every other handler that logs an object of its own, is \<open>OSet\<close>; \<^verbatim>\<open>DELETE\<close> is \<open>ODelete\<close>.\<close>

lemma store_v_step:
  "sm_wf sm \<Longrightarrow> store E sm k v kd r =
    (case v_step (OSet k v kd) (mem_of sm k, []) of
       (m, es) \<Rightarrow> log_put E k (the (EObject (hd es))) (with_mem sm k m) r)"
  by (simp add: store_def on_shard_wf upd_entry_def)

lemma deleteKey_v_step:
  "sm_wf sm \<Longrightarrow> IsValidKey k \<Longrightarrow> deleteKey E [k] sm =
    (case v_step (ODelete k) (mem_of sm k, []) of
       (m, []) \<Rightarrow> (with_mem sm k m, Resp [])
     | (m, e # es) \<Rightarrow> log_del E k (with_mem sm k m) (Resp []))"
  by (auto simp: deleteKey_def on_shard_wf Let_def split: prod.split)

text \<open>\<^verbatim>\<open>TTL.EXPIRE\<close>, in the model by value, is \<open>OExpire\<close> on the memory of its shard.\<close>

lemma expireKey_v_step:
  assumes "sm_wf sm" and "in_i64 (now E)" and "length args = 2" and "IsValidKey (args ! 0)"
    and "ParseDurationToSeconds (args ! 1) = Some s"
  shows "expireKey E args sm =
    (let k = args ! 0
     in case v_step (OExpire (now E) k s) (mem_of sm k, []) of
          (m, []) \<Rightarrow> (with_mem sm k m, Resp ''0'')
        | (m, e # es) \<Rightarrow> log_put E k (the (EObject e)) (with_mem sm k m) (Resp ''1''))"
proof -
  have "\<not> (0 < expire_at (now E) s \<and> expire_at (now E) s < now E)"
    using new_expiry [OF assms(2) ParseDuration_in [OF assms(5)]] by (simp add: expire_at_def)
  then show ?thesis
    unfolding expireKey_eq [OF assms]
    by (auto simp: Let_def Expire_def Get_def upd_entry_def expire_at_def split: option.splits)
qed

text \<open>\<^verbatim>\<open>MAP.DEL\<close> of a field, when more than one is left, is \<open>OMapDel\<close>; \<^verbatim>\<open>LIST.GPOP\<close> is \<open>OGPop\<close>.\<close>

lemma mapDeleteKey_v_step:
  assumes "sm_wf sm" and "args = [k, f]" and "IsValidKey k" and "IsValidString f"
    and "Get (now E) k (mem_of sm k) = (mem_of sm k, Some ob)" and "unm_map (Value ob) = Some mo" and "Kind ob = KMap"
    and "length (case mo of Some ps \<Rightarrow> ps | None \<Rightarrow> []) \<noteq> 1"
  shows "mapDeleteKey E args sm =
    (case v_step (OMapDel k (MapToByte (map_option (gm_del f) mo))) (mem_of sm k, []) of
       (m, es) \<Rightarrow> log_put E k (the (EObject (hd es))) (with_mem sm k m) (Resp []))"
proof -
  have "gm_get (mem_of sm k) k = Some ob" using assms(5) by (auto simp: Get_def split: option.splits if_splits)
  then show ?thesis
    using assms
    by (simp add: mapDeleteKey_def Let_def fetch_def on_shard_wf upd_entry_def with_mem_with_mem)
qed

lemma listGPopFunc_v_step:
  assumes "sm_wf sm" and "args = [k]" and "IsValidKey k"
    and "Get (now E) k (mem_of sm k) = (mem_of sm k, Some ob)" and "unm_arr (Value ob) = Some (Some (xs @ [x]))"
    and "Kind ob = KList"
  shows "listGPopFunc E args sm =
    (case v_step (OGPop k (SliceToByte (Some xs))) (mem_of sm k, []) of
       (m, es) \<Rightarrow> log_put E k (the (EObject (hd es))) (with_mem sm k m) (Resp (ObjectToByte x)))"
proof -
  have "gm_get (mem_of sm k) k = Some ob" using assms(4) by (auto simp: Get_def split: option.splits if_splits)
  then show ?thesis
    using assms
    by (simp add: listGPopFunc_def Let_def fetch_def on_shard_wf upd_entry_def with_mem_with_mem elems_def)
qed

section \<open>Replaying\<close>

text \<open>The last entry of a key decides.\<close>

definition decisive :: "walEntry \<Rightarrow> bool" where
  "decisive e \<longleftrightarrow> Op e = UPDATE \<and> EObject e \<noteq> None \<or> Op e = DELETE \<and> EObject e = None"

lemma replay_absent: "\<forall>e \<in> set es. EKey e \<noteq> k \<Longrightarrow> fold (apply_entry k) es st = st"
  by (induction es arbitrary: st) (simp_all add: apply_entry_def)

lemma replay_last:
  assumes "i < length es" and "EKey (es ! i) = k" and "decisive (es ! i)"
    and "\<And>j. i < j \<Longrightarrow> j < length es \<Longrightarrow> EKey (es ! j) \<noteq> k"
  shows "replay k es = EObject (es ! i)"
proof -
  have "es = take i es @ es ! i # drop (Suc i) es" using assms(1) by (simp add: id_take_nth_drop)
  then have "replay k es = fold (apply_entry k) (drop (Suc i) es) (apply_entry k (es ! i) (replay k (take i es)))"
    by (metis fold.simps(2) comp_apply fold_append replay_def)
  moreover have "EKey (drop (Suc i) es ! j) \<noteq> k" if "j < length (drop (Suc i) es)" for j
    using assms(4) [of "Suc i + j"] that by simp
  then have "fold (apply_entry k) (drop (Suc i) es) (apply_entry k (es ! i) (replay k (take i es))) =
      apply_entry k (es ! i) (replay k (take i es))"
    by (intro replay_absent) (metis in_set_conv_nth)
  moreover have "apply_entry k (es ! i) (replay k (take i es)) = EObject (es ! i)"
    using assms(2,3) by (auto simp: apply_entry_def decisive_def UPDATE_def DELETE_def split: option.split)
  ultimately show ?thesis by simp
qed

text \<open>A log whose entries are each, in the other log, that of the same or a later place, and of the same
  key as the one in its own place, replays like a stretch of the other.\<close>

lemma replay_later:
  assumes "length es \<le> length l" and "\<And>i. i < length l \<Longrightarrow> decisive (l ! i)"
    and "\<And>i. i < length es \<Longrightarrow> EKey (es ! i) = EKey (l ! i)"
    and "\<And>i. i < length es \<Longrightarrow> \<exists>j. i \<le> j \<and> j < length l \<and> es ! i = l ! j"
  shows "\<exists>n. length es \<le> n \<and> n \<le> length l \<and> replay k es = replay k (take n l)"
proof (cases "\<exists>e \<in> set es. EKey e = k")
  case False
  then have "replay k es = None" by (simp add: replay_def replay_absent)
  moreover have "EKey (l ! i) \<noteq> k" if "i < length es" for i
    using False assms(3) [OF that] that by (metis nth_mem)
  then have "replay k (take (length es) l) = None"
    unfolding replay_def
    by (intro replay_absent) (metis in_set_conv_nth length_take min_less_iff_conj nth_take)
  ultimately show ?thesis using assms(1) by (intro exI [of _ "length es"]) simp
next
  case True
  define i where "i = (GREATEST i. i < length es \<and> EKey (es ! i) = k)"
  have ex: "\<exists>i. i < length es \<and> EKey (es ! i) = k" using True by (auto simp: in_set_conv_nth)
  have i: "i < length es" "EKey (es ! i) = k"
    using GreatestI_ex_nat [OF ex, of "length es"] unfolding i_def by auto
  have last: "EKey (es ! j) \<noteq> k" if "i < j" "j < length es" for j
    using Greatest_le_nat [of "\<lambda>i. i < length es \<and> EKey (es ! i) = k" j "length es"] that unfolding i_def by auto
  obtain j where j: "i \<le> j" "j < length l" "es ! i = l ! j" using assms(4) [OF i(1)] by blast
  have r: "replay k es = EObject (l ! j)"
    using replay_last [OF i _ last] assms(2) [OF j(2)] j(3) by simp
  let ?n = "max (length es) (Suc j)"
  have n: "?n \<le> length l" using assms(1) j(2) by simp
  have "EKey (take ?n l ! a) \<noteq> k" if "j < a" "a < length (take ?n l)" for a
  proof -
    from that n have a: "a < length es" by (simp add: max_def split: if_splits)
    with that last [of a] assms(3) [OF a] j(1) show ?thesis by simp
  qed
  then have "replay k (take ?n l) = EObject (take ?n l ! j)"
    using j n i(2) assms(2) [OF j(2)] by (intro replay_last) auto
  then have "replay k (take ?n l) = EObject (l ! j)" by simp
  with r n show ?thesis by (intro exI [of _ ?n]) auto
qed

section \<open>The invariant\<close>

text \<open>\<open>rs\<close> are all entries that ever entered the channel.  What the pointer of one shows is what was
  logged by value in the same or a later place, under the same key.\<close>

definition shows_later :: "(nat \<Rightarrow> object) \<Rightarrow> ref_entry list \<Rightarrow> walEntry list \<Rightarrow> bool" where
  "shows_later h rs l \<longleftrightarrow> length rs = length l \<and>
     (\<forall>i < length l. EKey (l ! i) = rkey (rs ! i) \<and>
        (\<exists>j. i \<le> j \<and> j < length l \<and> rs ! j = rs ! i \<and> deref h (rs ! i) = l ! j))"

definition refs_ok :: "nat \<Rightarrow> nat gomap \<Rightarrow> ref_entry list \<Rightarrow> bool" where
  "refs_ok n mem rs \<longleftrightarrow>
     (\<forall>e \<in> set rs. (case rref e of Some r \<Rightarrow> r < n \<and> rop e = UPDATE | None \<Rightarrow> rop e = DELETE)) \<and>
     (\<forall>k r. gm_get mem k = Some r \<longrightarrow> r < n \<and>
        (\<forall>k'. gm_get mem k' = Some r \<longrightarrow> k' = k) \<and> (\<forall>e \<in> set rs. rref e = Some r \<longrightarrow> rkey e = k))"

definition file_ok :: "walEntry list \<Rightarrow> ref_entry list \<Rightarrow> walEntry list \<Rightarrow> bool" where
  "file_ok f rs l \<longleftrightarrow>
     (\<forall>i < length f. EKey (f ! i) = rkey (rs ! i) \<and> (\<exists>j. i \<le> j \<and> j < length l \<and> f ! i = l ! j))"

definition heap_ok :: "heap_state \<Rightarrow> ref_entry list \<Rightarrow> memory \<Rightarrow> walEntry list \<Rightarrow> bool" where
  "heap_ok s rs m l \<longleftrightarrow>
     gm_ok (hmem s) \<and> map (apsnd (heap s)) (hmem s) = m \<and> refs_ok (next_ref s) (hmem s) rs \<and>
     shows_later (heap s) rs l \<and> length (hfile s) \<le> length rs \<and> hqueue s = drop (length (hfile s)) rs \<and>
     file_ok (hfile s) rs l"

lemma heap_ok_start: "heap_ok heap_start [] [] []"
  by (simp add: heap_ok_def heap_start_def refs_ok_def shows_later_def file_ok_def)

text \<open>An entry for an object that is new or changed in place.\<close>

lemma shows_later_add:
  assumes "shows_later h rs l" and "\<And>e. e \<in> set rs \<Longrightarrow> e \<noteq> x \<Longrightarrow> deref h' e = deref h e"
  shows "shows_later h' (rs @ [x]) (l @ [deref h' x])"
  unfolding shows_later_def
proof (intro conjI allI impI)
  show "length (rs @ [x]) = length (l @ [deref h' x])" using assms(1) by (simp add: shows_later_def)
  fix i assume i: "i < length (l @ [deref h' x])"
  show "EKey ((l @ [deref h' x]) ! i) = rkey ((rs @ [x]) ! i)"
    using assms(1) i by (cases "i = length l") (auto simp: shows_later_def nth_append deref_def)
  show "\<exists>j\<ge>i. j < length (l @ [deref h' x]) \<and> (rs @ [x]) ! j = (rs @ [x]) ! i \<and>
      deref h' ((rs @ [x]) ! i) = (l @ [deref h' x]) ! j"
  proof (cases "(rs @ [x]) ! i = x")
    case True
    with i assms(1) show ?thesis
      by (intro exI [of _ "length l"]) (auto simp: shows_later_def nth_append)
  next
    case False
    then have i': "i < length l" using i assms(1) by (cases "i = length l") (auto simp: shows_later_def nth_append)
    then obtain j where j: "i \<le> j" "j < length l" "rs ! j = rs ! i" "deref h (rs ! i) = l ! j"
      using assms(1) unfolding shows_later_def by blast
    moreover have "rs ! i \<in> set rs" "rs ! i \<noteq> x"
      using i' assms(1) False by (auto simp: shows_later_def nth_append)
    ultimately show ?thesis
      using i' assms by (intro exI [of _ j]) (auto simp: shows_later_def nth_append)
  qed
qed

lemma file_ok_add: "file_ok f rs l \<Longrightarrow> length f \<le> length rs \<Longrightarrow> file_ok f (rs @ [x]) (l @ [y])"
  unfolding file_ok_def by (fastforce simp: nth_append)

text \<open>Maps of references and what they show.\<close>

lemma apsnd_upd: "map (apsnd f) (gm_upd k r m) = gm_upd k (f r) (map (apsnd f) m)"
  by (induction k r m rule: gm_upd.induct) auto

lemma apsnd_del: "map (apsnd f) (gm_del k m) = gm_del k (map (apsnd f) m)"
  by (induction k m rule: gm_del.induct) auto

lemma apsnd_cong:
  assumes "gm_ok m" and "\<And>k r. gm_get m k = Some r \<Longrightarrow> f r = g r"
  shows "map (apsnd f) m = map (apsnd g) m"
  using assms by (intro gm_ok_eqI) (auto simp: map_of_apsnd fun_eq_iff split: option.split intro!: map_option_cong)

lemma apsnd_in_place:
  assumes "gm_ok m" and "gm_get m k = Some r" and "\<And>k'. gm_get m k' = Some r \<Longrightarrow> k' = k"
  shows "map (apsnd (f(r := x))) m = gm_upd k x (map (apsnd f) m)"
proof (rule gm_ok_eqI)
  have "map_option (f(r := x)) (gm_get m j) = (if j = k then Some x else map_option f (gm_get m j))" for j
  proof (cases "j = k")
    case False
    then have "gm_get m j \<noteq> Some r" using assms(3) by blast
    with False show ?thesis by (cases "gm_get m j") auto
  qed (simp add: assms(2))
  then show "gm_get (map (apsnd (f(r := x))) m) = gm_get (gm_upd k x (map (apsnd f) m))"
    by (simp add: map_of_apsnd fun_eq_iff)
qed (simp_all add: assms(1))

text \<open>What keeps the invariant: an entry enters the channel, a binding goes.\<close>

lemma heap_ok_log:
  assumes "heap_ok s rs m l" and "gm_ok mm" and "map (apsnd h') mm = m'" and "refs_ok n' mm (rs @ [x])"
    and "\<And>e. e \<in> set rs \<Longrightarrow> e \<noteq> x \<Longrightarrow> deref h' e = deref (heap s) e" and "y = deref h' x"
    and "heap s' = h'" and "next_ref s' = n'" and "hmem s' = mm" and "hqueue s' = hqueue s @ [x]" and "hfile s' = hfile s"
  shows "heap_ok s' (rs @ [x]) m' (l @ [y])"
proof -
  have "shows_later (heap s) rs l" "length (hfile s) \<le> length rs" "hqueue s = drop (length (hfile s)) rs"
    "file_ok (hfile s) rs l" using assms(1) by (simp_all add: heap_ok_def)
  then show ?thesis
    unfolding heap_ok_def assms(6-11)
    using assms(2-4) shows_later_add [OF _ assms(5)] file_ok_add by simp
qed

lemma heap_ok_del:
  assumes "heap_ok s rs m l"
  shows "heap_ok (s\<lparr>hmem := gm_del k (hmem s)\<rparr>) rs (gm_del k m) l"
proof -
  have "refs_ok (next_ref s) (gm_del k (hmem s)) rs"
    using assms by (auto simp: heap_ok_def refs_ok_def)
  moreover have "map (apsnd (heap s)) (gm_del k (hmem s)) = gm_del k m"
    using assms by (simp add: heap_ok_def apsnd_del)
  ultimately show ?thesis using assms by (simp add: heap_ok_def)
qed

lemma heap_okD:
  assumes "heap_ok s rs m l"
  shows "gm_ok (hmem s)" "map (apsnd (heap s)) (hmem s) = m" "gm_get m k = map_option (heap s) (gm_get (hmem s) k)"
    "\<And>e r. e \<in> set rs \<Longrightarrow> rref e = Some r \<Longrightarrow> r < next_ref s \<and> rop e = UPDATE"
    "\<And>k r. gm_get (hmem s) k = Some r \<Longrightarrow> r < next_ref s"
    "\<And>k k' r. gm_get (hmem s) k = Some r \<Longrightarrow> gm_get (hmem s) k' = Some r \<Longrightarrow> k' = k"
    "\<And>e k r. e \<in> set rs \<Longrightarrow> gm_get (hmem s) k = Some r \<Longrightarrow> rref e = Some r \<Longrightarrow> rkey e = k"
  using assms by (auto simp: heap_ok_def refs_ok_def map_of_apsnd split: option.splits)

text \<open>A change in place, logged through the same pointer.\<close>

lemma heap_ok_in_place:
  assumes "heap_ok s rs m l" and "gm_get (hmem s) k = Some r"
  shows "heap_ok (s\<lparr>heap := (heap s)(r := ob), hqueue := hqueue s @ [\<lparr>rop = UPDATE, rkey = k, rref = Some r\<rparr>]\<rparr>)
    (rs @ [\<lparr>rop = UPDATE, rkey = k, rref = Some r\<rparr>]) (gm_upd k ob m) (l @ [upd_entry k ob])"
proof (rule heap_ok_log [OF assms(1), where mm = "hmem s" and n' = "next_ref s" and h' = "(heap s)(r := ob)"])
  note d = heap_okD [OF assms(1)]
  show "map (apsnd ((heap s)(r := ob))) (hmem s) = gm_upd k ob m"
    using apsnd_in_place [OF d(1) assms(2), of "heap s" ob] d(6) [OF assms(2)] by (simp only: d(2))
  show "refs_ok (next_ref s) (hmem s) (rs @ [\<lparr>rop = UPDATE, rkey = k, rref = Some r\<rparr>])"
    using assms d(5,6) [OF assms(2)] by (auto simp: heap_ok_def refs_ok_def)
  show "deref ((heap s)(r := ob)) e = deref (heap s) e"
    if "e \<in> set rs" "e \<noteq> \<lparr>rop = UPDATE, rkey = k, rref = Some r\<rparr>" for e
  proof (cases "rref e = Some r")
    case True
    with d(4,7) that(1) assms(2) have "rop e = UPDATE" "rkey e = k" by blast+
    with True that(2) show ?thesis by simp
  qed (auto simp: deref_def intro!: map_option_cong)
qed (simp_all add: heap_okD(1) [OF assms(1)] deref_def upd_entry_def)

text \<open>A new object for the store, and one for the log that is new or the old one of the key.\<close>

lemma refs_ok_new:
  assumes "heap_ok s rs m l" and "r < n'" and "next_ref s < n'" and "r \<noteq> next_ref s"
    and "next_ref s < r \<or> gm_get (hmem s) k = Some r"
  shows "refs_ok n' (gm_upd k (next_ref s) (hmem s)) (rs @ [\<lparr>rop = UPDATE, rkey = k, rref = Some r\<rparr>])"
proof -
  note d = heap_okD [OF assms(1)]
  have ref: "case rref e of Some r \<Rightarrow> r < n' \<and> rop e = UPDATE | None \<Rightarrow> rop e = DELETE" if "e \<in> set rs" for e
    using assms(1,3) that by (fastforce simp: heap_ok_def refs_ok_def split: option.splits)
  have old: "r' < next_ref s" "gm_get (hmem s) j' = Some r' \<Longrightarrow> j' = j" "e \<in> set rs \<Longrightarrow> rref e = Some r' \<Longrightarrow> rkey e = j"
    if "gm_get (hmem s) j = Some r'" for j j' r' e
    using d(5-7) that by blast+
  have "r' \<noteq> r" if "gm_get (hmem s) j = Some r'" "j \<noteq> k" for j r'
    using old(1) [OF that(1)] old(2) [OF that(1)] that(2) assms(5) by fastforce
  moreover have "rref e \<noteq> Some (next_ref s)" if "e \<in> set rs" for e using d(4) [OF that] by force
  ultimately show ?thesis
    using ref old assms(2-4) unfolding refs_ok_def
    by (auto split: if_splits) (metis less_irrefl less_trans)+
qed

lemma heap_ok_new:
  assumes "heap_ok s rs m l"
  shows "heap_ok (h_set k v kd s) (rs @ [\<lparr>rop = UPDATE, rkey = k, rref = Some (Suc (next_ref s))\<rparr>])
    (Set k v kd m) (l @ [upd_entry k \<lparr>Value = v, Kind = kd, Timestamp = 0\<rparr>])"
proof -
  note d = heap_okD [OF assms]
  let ?n = "next_ref s" and ?ob = "\<lparr>Value = v, Kind = kd, Timestamp = 0\<rparr>"
  let ?h = "(heap s)(?n := ?ob, Suc ?n := ?ob)" and ?x = "\<lparr>rop = UPDATE, rkey = k, rref = Some (Suc ?n)\<rparr>"
  show ?thesis
  proof (rule heap_ok_log [OF assms, where mm = "gm_upd k ?n (hmem s)" and n' = "Suc (Suc ?n)" and h' = ?h])
    have "map (apsnd ?h) (hmem s) = map (apsnd (heap s)) (hmem s)"
      using d(5) by (intro apsnd_cong [OF d(1)]) force
    then show "map (apsnd ?h) (gm_upd k ?n (hmem s)) = Set k v kd m" by (simp add: apsnd_upd d(2) Set_def)
    show "refs_ok (Suc (Suc ?n)) (gm_upd k ?n (hmem s)) (rs @ [?x])" using assms by (intro refs_ok_new) simp_all
    show "deref ?h e = deref (heap s) e" if "e \<in> set rs" "e \<noteq> ?x" for e
      using d(4) [OF that(1)] by (auto simp: deref_def intro!: map_option_cong)
  qed (simp_all add: h_set_def Let_def d(1) deref_def upd_entry_def)
qed

lemma heap_ok_gpop:
  assumes "heap_ok s rs m l" and "gm_get (hmem s) k = Some r"
  shows "heap_ok (h_gpop k v s) (rs @ [\<lparr>rop = UPDATE, rkey = k, rref = Some r\<rparr>])
    (Set k v KList m) (l @ [upd_entry k ((heap s r)\<lparr>Value := v\<rparr>)])"
proof -
  note d = heap_okD [OF assms(1)]
  let ?n = "next_ref s" and ?ob = "(heap s r)\<lparr>Value := v\<rparr>"
  let ?h = "(heap s)(?n := \<lparr>Value = v, Kind = KList, Timestamp = 0\<rparr>, r := ?ob)"
    and ?x = "\<lparr>rop = UPDATE, rkey = k, rref = Some r\<rparr>"
  have r: "r < ?n" by (rule d(5) [OF assms(2)])
  show ?thesis
  proof (rule heap_ok_log [OF assms(1), where mm = "gm_upd k ?n (hmem s)" and n' = "Suc ?n" and h' = ?h])
    have "map (apsnd ?h) (hmem s) = map (apsnd ((heap s)(r := ?ob))) (hmem s)"
      using d(5) by (intro apsnd_cong [OF d(1)]) force
    also have "\<dots> = gm_upd k ?ob m"
      using apsnd_in_place [OF d(1) assms(2), of "heap s" ?ob] d(6) [OF assms(2)] by (simp only: d(2))
    finally show "map (apsnd ?h) (gm_upd k ?n (hmem s)) = Set k v KList m"
      using d(1,2) r by (simp add: apsnd_upd Set_def) (metis gm_upd_upd gm_ok_apsnd)
    show "refs_ok (Suc ?n) (gm_upd k ?n (hmem s)) (rs @ [?x])"
      using assms r by (intro refs_ok_new) simp_all
    show "deref ?h e = deref (heap s) e" if "e \<in> set rs" "e \<noteq> ?x" for e
    proof (cases "rref e = Some r")
      case True
      with d(4,7) that(1) assms(2) have "rop e = UPDATE" "rkey e = k" by blast+
      with True that(2) show ?thesis by simp
    qed (use d(4) [OF that(1)] in \<open>auto simp: deref_def intro!: map_option_cong\<close>)
  qed (use r in \<open>simp_all add: h_gpop_def assms(2) Let_def d(1) deref_def upd_entry_def\<close>)
qed

lemma heap_ok_delete:
  assumes "heap_ok s rs m l"
  shows "\<exists>rs'. case v_step (ODelete k) (m, l) of (m', l') \<Rightarrow> heap_ok (h_delete k s) rs' m' l'"
proof (cases "gm_get (hmem s) k")
  case None
  then show ?thesis using assms heap_okD(3) [OF assms, of k] by (auto simp: h_delete_def Delete_def)
next
  case (Some r)
  let ?s = "s\<lparr>hmem := gm_del k (hmem s)\<rparr>" and ?x = "\<lparr>rop = DELETE, rkey = k, rref = None\<rparr>"
  note del = heap_ok_del [OF assms, of k]
  have "heap_ok (h_delete k s) (rs @ [?x]) (gm_del k m) (l @ [del_entry k])"
  proof (rule heap_ok_log [OF del, where mm = "gm_del k (hmem s)" and n' = "next_ref s" and h' = "heap s"])
    show "refs_ok (next_ref s) (gm_del k (hmem s)) (rs @ [?x])" using del by (auto simp: heap_ok_def refs_ok_def)
  qed (use heap_okD(1,2) [OF del] in \<open>simp_all add: h_delete_def Some deref_def del_entry_def\<close>)
  then show ?thesis using Some heap_okD(3) [OF assms, of k] by (auto simp: Delete_def)
qed

lemma heap_ok_marshal:
  assumes "heap_ok s rs m l"
  shows "heap_ok (h_marshal s) rs m l"
proof (cases "hqueue s")
  case (Cons e es)
  let ?i = "length (hfile s)"
  have q: "drop ?i rs = e # es" and sh: "shows_later (heap s) rs l" and f: "file_ok (hfile s) rs l"
    using assms Cons by (simp_all add: heap_ok_def)
  then have i: "?i < length rs" "rs ! ?i = e" "drop (Suc ?i) rs = es"
    by (metis drop_all list.distinct(1) not_le) (metis q nth_via_drop, metis q drop_Suc list.sel(3) tl_drop)
  then obtain j where "?i \<le> j" "j < length l" "deref (heap s) e = l ! j"
    using sh unfolding shows_later_def by metis
  moreover have "EKey (deref (heap s) e) = rkey e" by (simp add: deref_def)
  ultimately have "file_ok (hfile s @ [deref (heap s) e]) rs l"
    using f i unfolding file_ok_def by (auto simp: nth_append less_Suc_eq)
  moreover have "h_marshal s = s\<lparr>hqueue := es, hfile := hfile s @ [deref (heap s) e]\<rparr>"
    using Cons by (simp add: h_marshal_def)
  moreover have "Suc ?i \<le> length rs" using i(1) by simp
  ultimately show ?thesis using assms i(3) unfolding heap_ok_def by simp
qed (simp add: h_marshal_def assms)

section \<open>Both models in step\<close>

text \<open>The clock and the durations are 64-bit integers.\<close>

fun op_ok :: "heap_op \<Rightarrow> bool" where
  "op_ok (OExpire t k s) \<longleftrightarrow> in_i64 t \<and> in_i64 s"
| "op_ok _ \<longleftrightarrow> True"

lemma heap_ok_expire:
  assumes "heap_ok s rs m l" and "in_i64 t" and "in_i64 sec"
  shows "\<exists>rs'. case v_step (OExpire t k sec) (m, l) of (m', l') \<Rightarrow> heap_ok (h_expire t k sec s) rs' m' l'"
proof (cases "gm_get (hmem s) k")
  case None
  then have "v_step (OExpire t k sec) (m, l) = (m, l)" using heap_okD(3) [OF assms(1)] by (simp add: Expire_def)
  then show ?thesis using assms(1) None by (auto simp: h_expire_def)
next
  case (Some r)
  let ?old = "heap s r" and ?ob = "(heap s r)\<lparr>Timestamp := expire_at t sec\<rparr>"
  have m: "gm_get m k = Some ?old" using Some heap_okD(3) [OF assms(1)] by simp
  have e: "(if 0 < sec then i64 (t + sec) else 0) = expire_at t sec" by (simp add: expire_at_def)
  show ?thesis
  proof (cases "0 < Timestamp ?old \<and> Timestamp ?old \<le> t")
    case True
    then have "v_step (OExpire t k sec) (m, l) = (gm_del k m, l)" by (simp add: Expire_def m)
    then show ?thesis using True Some heap_ok_del [OF assms(1), of k] by (auto simp: h_expire_def)
  next
    case False
    have n: "\<not> (0 < expire_at t sec \<and> expire_at t sec < t)"
      using new_expiry [OF assms(2,3)] by (simp add: expire_at_def)
    have "Expire t t k sec m = (gm_upd k ?ob m, True)" using False by (auto simp: Expire_def m expire_at_def)
    then have "v_step (OExpire t k sec) (m, l) = (gm_upd k ?ob m, l @ [upd_entry k ?ob])"
      using n by (auto simp: Get_def)
    moreover have "h_expire t k sec s = s\<lparr>heap := (heap s)(r := ?ob),
        hqueue := hqueue s @ [\<lparr>rop = UPDATE, rkey = k, rref = Some r\<rparr>]\<rparr>"
      using False n Some by (auto simp: h_expire_def e)
    ultimately show ?thesis using heap_ok_in_place [OF assms(1) Some, of ?ob] by auto
  qed
qed

lemma heap_ok_step:
  assumes "heap_ok s rs m l" and "op_ok x"
  shows "\<exists>rs'. case v_step x (m, l) of (m', l') \<Rightarrow> heap_ok (h_step x s) rs' m' l'"
proof (cases x)
  case (OSet k v kd)
  then show ?thesis using heap_ok_new [OF assms(1)] by auto
next
  case (OExpire t k sec)
  then show ?thesis using heap_ok_expire [OF assms(1)] assms(2) by simp
next
  case (OMapDel k v)
  show ?thesis
  proof (cases "gm_get (hmem s) k")
    case None
    then show ?thesis using assms(1) OMapDel heap_okD(3) [OF assms(1)] by (auto simp: h_mapdel_def)
  next
    case (Some r)
    then show ?thesis
      using heap_ok_in_place [OF assms(1) Some, of "(heap s r)\<lparr>Value := v\<rparr>"] OMapDel heap_okD(3) [OF assms(1), of k]
      by (auto simp: h_mapdel_def)
  qed
next
  case (OGPop k v)
  show ?thesis
  proof (cases "gm_get (hmem s) k")
    case None
    then show ?thesis using assms(1) OGPop heap_okD(3) [OF assms(1)] by (auto simp: h_gpop_def)
  next
    case (Some r)
    then show ?thesis using heap_ok_gpop [OF assms(1) Some, of v] OGPop heap_okD(3) [OF assms(1), of k] by auto
  qed
next
  case (ODelete k)
  then show ?thesis using heap_ok_delete [OF assms(1)] by auto
next
  case (ODrop k)
  then show ?thesis using heap_ok_del [OF assms(1)] by auto
next
  case OMarshal
  then show ?thesis using heap_ok_marshal [OF assms(1)] by auto
qed

lemma heap_ok_run:
  "heap_ok s rs m l \<Longrightarrow> \<forall>x \<in> set xs. op_ok x \<Longrightarrow>
     \<exists>rs'. case fold v_step xs (m, l) of (m', l') \<Rightarrow> heap_ok (fold h_step xs s) rs' m' l'"
proof (induction xs arbitrary: s rs m l)
  case (Cons x xs)
  obtain m' l' where v: "v_step x (m, l) = (m', l')" by fastforce
  with heap_ok_step [OF Cons.prems(1), of x] Cons.prems(2) obtain rs' where "heap_ok (h_step x s) rs' m' l'" by auto
  then show ?case using Cons.IH Cons.prems(2) v by simp
qed auto

text \<open>By value every entry decides.\<close>

lemma v_step_decisive:
  "\<forall>e \<in> set l. decisive e \<Longrightarrow> v_step x (m, l) = (m', l') \<Longrightarrow> \<forall>e \<in> set l'. decisive e"
  by (cases x) (auto simp: decisive_def upd_entry_def del_entry_def split: option.splits prod.splits bool.splits if_splits)

lemma v_run_decisive:
  "\<forall>e \<in> set l. decisive e \<Longrightarrow> fold v_step xs (m, l) = (m', l') \<Longrightarrow> \<forall>e \<in> set l'. decisive e"
proof (induction xs arbitrary: m l)
  case (Cons x xs)
  obtain m1 l1 where v: "v_step x (m, l) = (m1, l1)" by (cases "v_step x (m, l)")
  show ?case by (rule Cons.IH [OF v_step_decisive [OF Cons.prems(1) v]]) (use Cons.prems(2) v in simp)
qed simp

section \<open>What is written late\<close>

text \<open>C4.  The log channel holds pointers to objects that later requests change in place, and the goroutine of
  the log encodes what they show when it gets there.  In every order of requests and turns of the goroutine
  the memory is the one of the model by value; and for every key, what has been written replays to what a
  stretch of the log by value replays to, one at least as long as what has been written.  So a late entry is
  never older than what was logged, and once the channel is empty both logs replay alike.\<close>

theorem late_marshal:
  assumes "\<forall>x \<in> set xs. op_ok x" and "fold v_step xs ([], []) = (m, l)"
  shows "let s = fold h_step xs heap_start in
    map (apsnd (heap s)) (hmem s) = m \<and> length (hfile s) + length (hqueue s) = length l \<and>
    (\<forall>k. \<exists>n. length (hfile s) \<le> n \<and> n \<le> length l \<and> replay k (hfile s) = replay k (take n l))"
proof -
  define s where "s = fold h_step xs heap_start"
  obtain rs where ok: "heap_ok s rs m l"
    using heap_ok_run [OF heap_ok_start assms(1)] assms(2) by (auto simp: s_def)
  then have len: "length rs = length l" "length (hfile s) \<le> length rs" and q: "hqueue s = drop (length (hfile s)) rs"
    and sh: "shows_later (heap s) rs l" and f: "file_ok (hfile s) rs l"
    by (simp_all add: heap_ok_def shows_later_def)
  have dec: "decisive (l ! i)" if "i < length l" for i
    using v_run_decisive [OF _ assms(2)] that by simp
  have "\<exists>n. length (hfile s) \<le> n \<and> n \<le> length l \<and> replay k (hfile s) = replay k (take n l)" for k
    using len sh f dec by (intro replay_later) (auto simp: shows_later_def file_ok_def)
  moreover have "map (apsnd (heap s)) (hmem s) = m" using ok by (simp add: heap_ok_def)
  ultimately show ?thesis using len q unfolding s_def [symmetric] Let_def by simp
qed

text \<open>A key is set, expires in a minute and loses a field; the goroutine runs twice, once before the last.\<close>

theorem late_marshal_witness:
  "let xs = [OSet ''k'' ''{}'' KMap, OMarshal, OExpire 100 ''k'' 60, OMapDel ''k'' ''{1}'', OMarshal];
       s = fold h_step xs heap_start; l = snd (fold v_step xs ([], []))
   in hfile s = [l ! 0, l ! 2] \<and> l ! 1 \<noteq> l ! 2 \<and> length (hqueue s) = 1 \<and>
      (\<exists>n. 2 \<le> n \<and> n \<le> 3 \<and> replay ''k'' (hfile s) = replay ''k'' (take n l))"
proof -
  let ?xs = "[OSet ''k'' ''{}'' KMap, OMarshal, OExpire 100 ''k'' 60, OMapDel ''k'' ''{1}'', OMarshal]"
  obtain m l where ml: "fold v_step ?xs ([], []) = (m, l)" by (cases "fold v_step ?xs ([], [])")
  define s where "s = fold h_step ?xs heap_start"
  have "\<forall>x \<in> set ?xs. op_ok x" by (simp add: in_i64_def)
  from late_marshal [OF this ml]
  have "\<exists>n. length (hfile s) \<le> n \<and> n \<le> length l \<and> replay ''k'' (hfile s) = replay ''k'' (take n l)"
    unfolding Let_def s_def by blast
  moreover have "hfile s = [l ! 0, l ! 2] \<and> l ! 1 \<noteq> l ! 2 \<and> length l = 3 \<and> length (hfile s) = 2 \<and> length (hqueue s) = 1"
    using ml by (auto simp: s_def heap_start_def h_set_def h_expire_def h_mapdel_def h_marshal_def deref_def
        upd_entry_def Set_def Expire_def Get_def i64_def Let_def)
  ultimately show ?thesis unfolding Let_def s_def [symmetric] ml snd_conv by (simp add: numeral_2_eq_2)
qed

end
