(* ===== verification/Recovery_Beside.thy ===== *)
theory Recovery_Beside
  imports Restart
begin

text \<open>
  Recovery beside requests.  \<^verbatim>\<open>startServer\<close> runs \<^verbatim>\<open>RecoverMemory\<close> in a goroutine of its own and does not
  wait for it, so that requests are answered between two of its callbacks.  Here both are the events of one
  sequence (\<open>boot_run\<close>): what recovery still has to deliver for a key replaces whatever requests
  have done to it.
\<close>

section \<open>Events\<close>

text \<open>A callback of recovery, with the clock at its two readings, or a request.  Recovery reads the files
  while the log appends to them, so what it delivers is any sequence of entries.  \<open>None\<close>: the
  process has panicked.\<close>

datatype boot_event =
    Delivered int int delivery
  | Served env string "string list"

fun boot_run :: "boot_event list \<Rightarrow> db \<Rightarrow> db option" where
  "boot_run [] sm = Some sm"
| "boot_run (Delivered t t' d # es) sm =
     (case recover_cb t t' d sm of None \<Rightarrow> None | Some sm' \<Rightarrow> boot_run es sm')"
| "boot_run (Served E c args # es) sm =
     (case Execute E c args sm of (sm', r) \<Rightarrow> if r = Crash then None else boot_run es sm')"

text \<open>What the callbacks alone make of one key.\<close>

fun recovered :: "string \<Rightarrow> boot_event list \<Rightarrow> object option \<Rightarrow> object option" where
  "recovered k [] st = st"
| "recovered k (Delivered t t' d # es) st = recovered k es (cb_apply t t' k d st)"
| "recovered k (Served E c args # es) st = recovered k es st"

text \<open>A request that does not name the key, and comes before \<open>u\<close>.\<close>

fun apart_from :: "string \<Rightarrow> int \<Rightarrow> boot_event \<Rightarrow> bool" where
  "apart_from k u (Served E c args) \<longleftrightarrow> in_i64 (now E) \<and> now E \<le> u \<and> (args = [] \<or> args ! 0 \<noteq> k)"
| "apart_from k u (Delivered t t' d) \<longleftrightarrow> True"

fun clock_ok :: "boot_event \<Rightarrow> bool" where
  "clock_ok (Served E c args) \<longleftrightarrow> in_i64 (now E)"
| "clock_ok (Delivered t t' d) \<longleftrightarrow> True"

section \<open>A callback, a request\<close>

lemma recover_cb_smwal: "recover_cb t t' d sm = Some sm' \<Longrightarrow> smwal sm' = smwal sm"
  by (auto simp: recover_cb_def Let_def split: prod.splits option.splits if_splits)

lemma recover_cb_ready:
  assumes "ready sm"
  shows "\<exists>sm'. recover_cb t t' d sm = Some sm' \<and> ready sm' \<and> (\<forall>k. stored sm' k = cb_apply t t' k d (stored sm k))"
proof -
  obtain sm' where s: "recover_cb t t' d sm = Some sm'" "sm_wf sm'" "\<forall>k. stored sm' k = cb_apply t t' k d (stored sm k)"
    using recover_cb_spec [OF ready_wf [OF assms]] by blast
  then have "ready sm'" using assms recover_cb_smwal [OF s(1)] by (simp add: ready_def)
  with s show ?thesis by blast
qed

text \<open>An object that no longer shows is as good as none, whatever is delivered afterwards.\<close>

lemma alive_cb: "alive u st = alive u st' \<Longrightarrow> alive u (cb_apply t t' k d st) = alive u (cb_apply t t' k d st')"
  by (cases d) (simp add: cb_apply_def split: option.split)

lemma alive_recovered: "alive u st = alive u st' \<Longrightarrow> alive u (recovered k es st) = alive u (recovered k es st')"
proof (induction es arbitrary: st st')
  case (Cons e es)
  show ?case
  proof (cases e)
    case (Delivered t t' d)
    show ?thesis unfolding Delivered recovered.simps by (rule Cons.IH [OF alive_cb [OF Cons.prems]])
  next
    case (Served E c args)
    show ?thesis unfolding Served recovered.simps by (rule Cons.IH [OF Cons.prems])
  qed
qed simp

lemma boot_append:
  "boot_run (es @ es') sm = (case boot_run es sm of None \<Rightarrow> None | Some sm' \<Rightarrow> boot_run es' sm')"
  by (induction es sm rule: boot_run.induct) (simp_all split: option.split prod.split)

lemma boot_ready: "boot_run es sm = Some sm' \<Longrightarrow> ready sm \<Longrightarrow> \<forall>e \<in> set es. clock_ok e \<Longrightarrow> ready sm'"
proof (induction es sm rule: boot_run.induct)
  case (2 t t' d es sm)
  then show ?case using recover_cb_ready [of sm t t' d] by auto
next
  case (3 E c args es sm)
  then show ?case using Execute_ready [of sm E c args] by (auto split: prod.splits if_splits)
qed simp

lemma boot_frame:
  "boot_run es sm = Some sm' \<Longrightarrow> ready sm \<Longrightarrow> \<forall>e \<in> set es. apart_from k u e \<Longrightarrow>
     visible u sm' k = alive u (recovered k es (stored sm k))"
proof (induction es sm rule: boot_run.induct)
  case (2 t t' d es sm)
  obtain s where s: "recover_cb t t' d sm = Some s" "ready s" "stored s k = cb_apply t t' k d (stored sm k)"
    using recover_cb_ready [OF 2(3)] by blast
  with 2 show ?case by simp
next
  case (3 E c args es sm)
  obtain s r where s: "Execute E c args sm = (s, r)" by fastforce
  then have "ready s" using Execute_ready [OF 3(3), of E c args] 3(4) by simp
  have "visible u s k = visible u sm k"
    using visible_frame [of sm E args k u c] 3(3,4) s by simp
  then have "alive u (stored s k) = alive u (stored sm k)" by (simp add: visible_alive)
  then have "alive u (recovered k es (stored s k)) = alive u (recovered k es (stored sm k))"
    by (rule alive_recovered)
  moreover have "visible u sm' k = alive u (recovered k es (stored s k))"
    using 3 s \<open>ready s\<close> by (auto split: if_splits)
  ultimately show ?case by simp
qed (simp add: visible_alive)

section \<open>The result\<close>

text \<open>C17.  Once recovery has a delivery for a key still to make, no request before it counts: if the requests
  after it name other keys, clients finally see what the remaining deliveries alone make of the key, in an
  empty store, and not what a request that was answered in between has written.\<close>

theorem recovery_beside:
  assumes "ready sm" and "\<forall>e \<in> set es1. clock_ok e" and "\<forall>e \<in> set es2. apart_from k u e" and "del \<or> ob \<noteq> None"
    and "boot_run (es1 @ Delivered t t' (k, ob, del) # es2) sm = Some sm'"
  shows "visible u sm' k = alive u (recovered k (Delivered t t' (k, ob, del) # es2) None)"
proof -
  obtain s where s: "boot_run es1 sm = Some s" "boot_run (Delivered t t' (k, ob, del) # es2) s = Some sm'"
    using assms(5) by (auto simp: boot_append split: option.splits)
  have "visible u sm' k = alive u (recovered k (Delivered t t' (k, ob, del) # es2) (stored s k))"
    by (rule boot_frame [OF s(2) boot_ready [OF s(1) assms(1,2)]]) (use assms(3) in simp)
  moreover have "cb_apply t t' k (k, ob, del) (stored s k) = cb_apply t t' k (k, ob, del) None"
    using assms(4) by (auto simp: cb_apply_def)
  ultimately show ?thesis by simp
qed

text \<open>\<^verbatim>\<open>SET k v\<close> is answered; then recovery delivers an older value, and that is what stays.\<close>

theorem recovery_beside_witness:
  "\<exists>sm'. boot_run [Served (env1 5) ''SET'' [''k'', ''v''],
       Delivered 5 5 (''k'', Some (fresh_obj ''old'' KDefault), False)] db1 = Some sm' \<and>
     snd (Execute (env1 5) ''SET'' [''k'', ''v''] db1) = Resp [] \<and>
     visible 9 sm' ''k'' = Some (fresh_obj ''old'' KDefault)"
proof -
  let ?d = "(''k'', Some (fresh_obj ''old'' KDefault), False)"
  have e: "effect (env1 5) db1 (setKey (env1 5) [''k'', ''v''] db1) (\<lambda>m. m(''k'' \<mapsto> fresh_obj ''v'' KDefault)) (Resp [])"
    by (rule setKey_effect) (simp_all add: IsValidKey_def)
  obtain s where s: "Execute (env1 5) ''SET'' [''k'', ''v''] db1 = (s, Resp [])" "ready s"
    using effectD(1,3) [OF e] by (cases "setKey (env1 5) [''k'', ''v''] db1") (simp add: Execute_names ToUpper_upper byte_of_def)
  obtain sm' where "recover_cb 5 5 ?d s = Some sm'" using recover_cb_ready [OF s(2)] by blast
  then have run: "boot_run ([Served (env1 5) ''SET'' [''k'', ''v'']] @ Delivered 5 5 ?d # []) db1 = Some sm'"
    using s by simp
  have "visible 9 sm' ''k'' = alive 9 (recovered ''k'' [Delivered 5 5 ?d] None)"
    by (rule recovery_beside [OF db1_ready(1) _ _ _ run]) (simp_all add: in_i64_def)
  then have "visible 9 sm' ''k'' = Some (fresh_obj ''old'' KDefault)"
    by (simp add: cb_apply_def restore_def expired_def)
  with run s(1) show ?thesis by auto
qed

end
