(* ===== verification/Concurrent.thy ===== *)
theory Concurrent
  imports Restart
begin

text \<open>
  Requests of several clients at once.  Each connection has a goroutine of its own, the handlers hold no
  lock; the single operations of a \<^verbatim>\<open>Memory\<close> and of the log are atomic, but for \<^verbatim>\<open>Get\<close>, which deletes an
  expired object after it has given its lock back.  Here a handler is a program of such operations
  (\<open>prog\<close>); run alone it is the handler of the other theories (\<open>program_Execute\<close>), and clients interleave
  between the operations (\<open>conc_step\<close>).  An operation on a map that another goroutine is just deleting
  from without a lock ends the process (\<open>races\<close>, \<open>expired_race\<close>); the runtime does not detect every such
  race, and what an undetected one leaves is not modelled.  Requests on different keys do not disturb each
  other (\<open>concurrent_apart\<close>); on one key an update can be lost (\<open>lost_update\<close>), and the log can end up with
  another order than the store (\<open>log_overtaken\<close>).
\<close>

section \<open>Programs of operations\<close>

text \<open>
  \<^verbatim>\<open>Get\<close>, \<^verbatim>\<open>Set\<close> and \<^verbatim>\<open>Delete\<close> of the shard of a key, \<^verbatim>\<open>Put\<close> and \<^verbatim>\<open>Delete\<close> of the log.  \<^verbatim>\<open>Get\<close> looks under the
  read lock; an object that has expired it deletes afterwards, when it holds no lock.  \<open>DropOp\<close> is a
  \<^verbatim>\<open>Get\<close> that has given the lock back and is about to delete, \<open>DroppingOp\<close> one that is in the middle of it.
\<close>

datatype prog =
    Done result
  | GetOp string "object option \<Rightarrow> prog"
  | DropOp string prog
  | DroppingOp string prog
  | SetOp string bytes kind prog
  | DeleteOp string "bool \<Rightarrow> prog"
  | PutOp string object prog
  | LogDelOp string prog

text \<open>The next operation of a program, and what is left of the program; a missing shard and a closed
  channel panic.\<close>

fun op_step :: "env \<Rightarrow> prog \<Rightarrow> db \<Rightarrow> db \<times> prog" where
  "op_step E (Done r) sm = (sm, Done r)"
| "op_step E (GetOp k c) sm =
     (case GetShardByKey sm k of
        None \<Rightarrow> (sm, Done Crash)
      | Some sh \<Rightarrow> (case gm_get (M sh) k of
            None \<Rightarrow> (sm, c None)
          | Some obj \<Rightarrow>
              if 0 < Timestamp obj \<and> Timestamp obj < now E then (sm, DropOp k (c None))
              else (sm, c (Some obj))))"
| "op_step E (DropOp k p) sm = (sm, DroppingOp k p)"
| "op_step E (DroppingOp k p) sm =
     (case GetShardByKey sm k of
        None \<Rightarrow> (sm, Done Crash)
      | Some sh \<Rightarrow> (with_mem sm k (gm_del k (M sh)), p))"
| "op_step E (SetOp k v kd p) sm =
     (case GetShardByKey sm k of
        None \<Rightarrow> (sm, Done Crash)
      | Some sh \<Rightarrow> (with_mem sm k (Set k v kd (M sh)), p))"
| "op_step E (DeleteOp k c) sm =
     (case GetShardByKey sm k of
        None \<Rightarrow> (sm, Done Crash)
      | Some sh \<Rightarrow> (case Delete k (M sh) of (m, status) \<Rightarrow> (with_mem sm k m, c status)))"
| "op_step E (PutOp k ob p) sm =
     (case wPut (eproto E) (ebranches E) k (Some ob) (smwal sm) of
        (w, wr) \<Rightarrow> (sm\<lparr>smwal := w\<rparr>, if wr = WPanic then Done Crash else p))"
| "op_step E (LogDelOp k p) sm =
     (case wDelete (eproto E) (ebranches E) k (smwal sm) of
        (w, wr) \<Rightarrow> (sm\<lparr>smwal := w\<rparr>, if wr = WPanic then Done Crash else p))"

text \<open>A program that runs alone, and one whose operations are all on one key.\<close>

primrec run_prog :: "env \<Rightarrow> prog \<Rightarrow> db \<Rightarrow> db \<times> result" where
  "run_prog E (Done r) = (\<lambda>sm. (sm, r))"
| "run_prog E (GetOp k c) = (\<lambda>sm. on_shard sm k (\<lambda>m.
     case Get (now E) k m of (m', ob) \<Rightarrow> run_prog E (c ob) (with_mem sm k m')))"
| "run_prog E (DropOp k p) = (\<lambda>sm. on_shard sm k (\<lambda>m. run_prog E p (with_mem sm k (gm_del k m))))"
| "run_prog E (DroppingOp k p) = (\<lambda>sm. on_shard sm k (\<lambda>m. run_prog E p (with_mem sm k (gm_del k m))))"
| "run_prog E (SetOp k v kd p) = (\<lambda>sm. on_shard sm k (\<lambda>m. run_prog E p (with_mem sm k (Set k v kd m))))"
| "run_prog E (DeleteOp k c) = (\<lambda>sm. on_shard sm k (\<lambda>m.
     case Delete k m of (m', status) \<Rightarrow> run_prog E (c status) (with_mem sm k m')))"
| "run_prog E (PutOp k ob p) = (\<lambda>sm.
     case wPut (eproto E) (ebranches E) k (Some ob) (smwal sm) of
       (w, wr) \<Rightarrow> if wr = WPanic then (sm\<lparr>smwal := w\<rparr>, Crash) else run_prog E p (sm\<lparr>smwal := w\<rparr>))"
| "run_prog E (LogDelOp k p) = (\<lambda>sm.
     case wDelete (eproto E) (ebranches E) k (smwal sm) of
       (w, wr) \<Rightarrow> if wr = WPanic then (sm\<lparr>smwal := w\<rparr>, Crash) else run_prog E p (sm\<lparr>smwal := w\<rparr>))"

primrec keyed :: "string \<Rightarrow> prog \<Rightarrow> bool" where
  "keyed k (Done r) \<longleftrightarrow> True"
| "keyed k (GetOp k' c) \<longleftrightarrow> k' = k \<and> (\<forall>ob. keyed k (c ob))"
| "keyed k (DropOp k' p) \<longleftrightarrow> k' = k \<and> keyed k p"
| "keyed k (DroppingOp k' p) \<longleftrightarrow> k' = k \<and> keyed k p"
| "keyed k (SetOp k' v kd p) \<longleftrightarrow> k' = k \<and> keyed k p"
| "keyed k (DeleteOp k' c) \<longleftrightarrow> k' = k \<and> (\<forall>b. keyed k (c b))"
| "keyed k (PutOp k' ob p) \<longleftrightarrow> k' = k \<and> keyed k p"
| "keyed k (LogDelOp k' p) \<longleftrightarrow> k' = k \<and> keyed k p"

text \<open>The program of a request, before any of its operations: it drops nothing yet.\<close>

primrec calm :: "prog \<Rightarrow> bool" where
  "calm (Done r) \<longleftrightarrow> True"
| "calm (GetOp k c) \<longleftrightarrow> (\<forall>ob. calm (c ob))"
| "calm (DropOp k p) \<longleftrightarrow> False"
| "calm (DroppingOp k p) \<longleftrightarrow> False"
| "calm (SetOp k v kd p) \<longleftrightarrow> calm p"
| "calm (DeleteOp k c) \<longleftrightarrow> (\<forall>b. calm (c b))"
| "calm (PutOp k ob p) \<longleftrightarrow> calm p"
| "calm (LogDelOp k p) \<longleftrightarrow> calm p"

lemma op_step_run:
  assumes "sm_wf sm"
  shows "run_prog E (snd (op_step E p sm)) (fst (op_step E p sm)) = run_prog E p sm"
proof -
  have "M sh = mem_of sm k" if "GetShardByKey sm k = Some sh" for sh k using that by (simp add: mem_of_def)
  moreover note with_mem_mem_of [OF assms]
  ultimately show ?thesis
    by (cases p) (auto simp: on_shard_def Get_def split: option.split prod.split)
qed

section \<open>Handlers as programs\<close>

definition store_prog :: "string \<Rightarrow> bytes \<Rightarrow> kind \<Rightarrow> result \<Rightarrow> prog" where
  "store_prog k v kd r = SetOp k v kd (PutOp k \<lparr>Value = v, Kind = kd, Timestamp = 0\<rparr> (Done r))"

definition erase_prog :: "string \<Rightarrow> result \<Rightarrow> prog" where
  "erase_prog k r = DeleteOp k (\<lambda>_. LogDelOp k (Done r))"

lemma run_store_prog: "run_prog E (store_prog k v kd r) sm = store E sm k v kd r"
  by (auto simp: store_prog_def store_def log_put_def on_shard_def split: option.split prod.split)

lemma run_erase_prog: "run_prog E (erase_prog k r) sm = erase E sm k r"
  by (auto simp: erase_prog_def erase_def log_del_def on_shard_def split: option.split prod.split)

lemma run_GetOp: "run_prog E (GetOp k c) sm = fetch E sm k (\<lambda>sm ob. run_prog E (c ob) sm)"
  by (simp add: fetch_def)

lemma calm_write [simp]: "calm (store_prog k v kd r)" "calm (erase_prog k r)"
  by (simp_all add: store_prog_def erase_prog_def)

lemma keyed_write [simp]: "keyed k (store_prog k' v kd r) \<longleftrightarrow> k' = k" "keyed k (erase_prog k' r) \<longleftrightarrow> k' = k"
  by (auto simp: store_prog_def erase_prog_def)

definition setKey_prog :: "string list \<Rightarrow> prog" where
  "setKey_prog args =
     (if args = [] \<or> length args \<noteq> 2 then
        Done (Fail (CmdError InvalidArgsError ''Key and value must be provided''))
      else let key = args ! 0; value = args ! 1 in
        if \<not> IsValidKey key then Done (Fail badKey)
        else store_prog key value KDefault (Resp []))"

definition deleteKey_prog :: "string list \<Rightarrow> prog" where
  "deleteKey_prog args =
     (if args = [] \<or> length args \<noteq> 1 then
        Done (Fail (CmdError InvalidArgsError ''Key must be provided, example: DELETE key''))
      else let key = args ! 0 in
        if \<not> IsValidKey key then Done (Fail badKey)
        else DeleteOp key (\<lambda>status. if status then LogDelOp key (Done (Resp [])) else Done (Resp [])))"

definition strSet_prog :: "string list \<Rightarrow> prog" where
  "strSet_prog args =
     (if args = [] then Done (Fail noKey)
      else if length args \<noteq> 2 then Done (Fail badCount)
      else let key = args ! 0; value = args ! 1 in
        if \<not> IsValidKey key then Done (Fail badKey)
        else store_prog key value KString (Resp []))"

definition strAppend_prog :: "string list \<Rightarrow> prog" where
  "strAppend_prog args =
     (if args = [] then Done (Fail noKey)
      else let key = args ! 0 in
        if \<not> IsValidKey key then Done (Fail badKey)
        else GetOp key (\<lambda>ob.
          case ob of
            Some obj \<Rightarrow>
              if KString \<noteq> Kind obj then Done (Fail notString)
              else store_prog key (foldl (@) (Value obj) (drop 1 args)) KString (Resp [])
          | None \<Rightarrow> store_prog key (foldl (@) [] (drop 1 args)) KString (Resp [])))"

definition numberSet_prog :: "string list \<Rightarrow> prog" where
  "numberSet_prog args =
     (if args = [] then Done (Fail noKey)
      else if length args \<noteq> 2 then Done (Fail badCount)
      else let key = args ! 0; value = args ! 1 in
        if \<not> IsValidKey key then Done (Fail badKey)
        else case ConvertToNumber value of
          None \<Rightarrow> Done (Fail badNumber)
        | Some v \<Rightarrow> store_prog key (FloatToByte v) KNumber (Resp []))"

text \<open>\<^verbatim>\<open>NUM.INCR\<close> and \<^verbatim>\<open>NUM.DECR\<close> are the same up to the operation.\<close>

definition numberAdd_prog :: "(f64 \<Rightarrow> f64 \<Rightarrow> f64) \<Rightarrow> string list \<Rightarrow> prog" where
  "numberAdd_prog f args =
     (if args = [] then Done (Fail noKey)
      else if length args > 2 then Done (Fail badCount)
      else let key = args ! 0 in
        if \<not> IsValidKey key then Done (Fail badKey)
        else case num_arg args of
          None \<Rightarrow> Done (Fail badNumber)
        | Some v \<Rightarrow>
            GetOp key (\<lambda>ob.
              case ob of
                None \<Rightarrow> store_prog key (FloatToByte v) KNumber (Resp (FloatToByte v))
              | Some obj \<Rightarrow>
                  (case ConvertToNumber (Value obj) of
                     None \<Rightarrow> Done (Fail notNumber)
                   | Some current \<Rightarrow>
                       if KNumber \<noteq> Kind obj then Done (Fail notNumber)
                       else store_prog key (FloatToByte (f current v)) KNumber (Resp (FloatToByte (f current v))))))"

definition listPush_prog :: "string list \<Rightarrow> prog" where
  "listPush_prog args =
     (if args = [] then Done (Fail noKey)
      else let key = args ! 0 in
        if \<not> IsValidKey key then Done (Fail badKey)
        else GetOp key (\<lambda>ob.
          case (case ob of None \<Rightarrow> Some None | Some obj \<Rightarrow> unm_arr (Value obj)) of
            None \<Rightarrow> Done (Fail (JsonError InvalidCharacterError))
          | Some arr0 \<Rightarrow>
              let arr = append_args arr0 (drop 1 args)
              in store_prog key (SliceToByte arr) KList (Resp (Itoa (int (length (elems arr)))))))"

definition listPop_prog :: "string list \<Rightarrow> prog" where
  "listPop_prog args =
     (if args = [] then Done (Fail noKey)
      else let key = args ! 0 in
        if \<not> IsValidKey key then Done (Fail badKey)
        else GetOp key (\<lambda>ob.
          case ob of
            None \<Rightarrow> Done (Resp [])
          | Some obj \<Rightarrow>
              (case unm_arr (Value obj) of
                 None \<Rightarrow> Done (Fail (JsonError InvalidCharacterError))
               | Some a \<Rightarrow>
                   if KList \<noteq> Kind obj then Done (Fail notList)
                   else let arr = elems a; len = length arr in
                     if len = 0 then Done (Resp [])
                     else if len = 1 then erase_prog key (Resp (ObjectToByte (arr ! 0)))
                     else let last = arr ! (len - 1); arr' = take (len - 1) arr in
                       if last = JNull then Done (Resp [])
                       else store_prog key (SliceToByte (Some (take (len - 1) arr'))) KList
                              (Resp (ObjectToByte last)))))"

definition mapSet_prog :: "string list \<Rightarrow> prog" where
  "mapSet_prog args =
     (if args = [] \<or> length args \<noteq> 3 then
        Done (Fail (CmdError InvalidArgsError
          ''Key mapKey, and value must be provided, Syntax: MAP.SET <key> <mapKey> <value>''))
      else let key = args ! 0; mk = args ! 1; value = args ! 2 in
        if \<not> IsValidKey key then Done (Fail badKey)
        else if \<not> IsValidString mk then Done Crash
        else GetOp key (\<lambda>ob.
          case ob of
            None \<Rightarrow> store_prog key (MapToByte (Some (gm_upd mk (EnsureUnmarshal value) []))) KMap (Resp [])
          | Some obj \<Rightarrow>
              (case unm_map (Value obj) of
                 None \<Rightarrow> Done (Fail (JsonError InvalidCharacterError))
               | Some m \<Rightarrow>
                   if KMap \<noteq> Kind obj then Done (Fail notMap)
                   else (case m of
                      None \<Rightarrow> Done Crash
                    | Some ps \<Rightarrow>
                        store_prog key (MapToByte (Some (gm_upd mk (EnsureUnmarshal value) ps))) KMap
                          (Resp [])))))"

definition programs :: "(string \<times> (string list \<Rightarrow> prog)) list" where
  "programs =
     [(''SET'', setKey_prog), (''DELETE'', deleteKey_prog), (''STR.SET'', strSet_prog),
      (''STR.APPEND'', strAppend_prog), (''NUM.SET'', numberSet_prog), (''NUM.INCR'', numberAdd_prog (+)),
      (''NUM.DECR'', numberAdd_prog (-)), (''LIST.PUSH'', listPush_prog), (''LIST.POP'', listPop_prog),
      (''MAP.SET'', mapSet_prog)]"

lemma programs_run:
  "run_prog E (setKey_prog args) sm = setKey E args sm" "run_prog E (deleteKey_prog args) sm = deleteKey E args sm"
  "run_prog E (strSet_prog args) sm = strSetFunc E args sm"
  "run_prog E (strAppend_prog args) sm = strAppendFunc E args sm"
  "run_prog E (numberSet_prog args) sm = numberSetFunc E args sm"
  "run_prog E (numberAdd_prog (+) args) sm = numberIncrFunc E args sm"
  "run_prog E (numberAdd_prog (-) args) sm = numberDecrFunc E args sm"
  by (auto simp: setKey_prog_def setKey_def strSet_prog_def strSetFunc_def strAppend_prog_def strAppendFunc_def
      numberSet_prog_def numberSetFunc_def numberAdd_prog_def numberIncrFunc_def numberDecrFunc_def
      deleteKey_prog_def deleteKey_def log_del_def on_shard_def Let_def run_store_prog run_GetOp
      simp del: run_prog.simps(2) split: option.split prod.split intro!: arg_cong [of _ _ "fetch E sm _"] ext)

lemma programs_run_lists:
  "run_prog E (listPush_prog args) sm = listPushFunc E args sm" "run_prog E (listPop_prog args) sm = listPopFunc E args sm"
  "run_prog E (mapSet_prog args) sm = mapSetKey E args sm"
  by (auto simp: listPush_prog_def listPushFunc_def listPop_prog_def listPopFunc_def mapSet_prog_def mapSetKey_def
      Let_def run_store_prog run_erase_prog run_GetOp
      simp del: run_prog.simps(2) split: option.split intro!: arg_cong [of _ _ "fetch E sm _"] ext)

text \<open>Alone, the program of a command is the command.\<close>

lemma program_Execute:
  assumes "map_of programs (ToUpper (euni E) c) = Some f"
  shows "run_prog E (f args) sm = Execute E c args sm"
proof -
  have "(ToUpper (euni E) c, f) \<in> set programs" using assms by (rule map_of_SomeD)
  then show ?thesis
    unfolding programs_def by (auto simp: Execute_def ExecCommands_def programs_run programs_run_lists)
qed

lemma program_keyed:
  assumes "map_of programs n = Some f"
  shows "keyed (args ! 0) (f args)" and "calm (f args)"
proof -
  have "(n, f) \<in> set programs" using assms by (rule map_of_SomeD)
  then show "keyed (args ! 0) (f args)" "calm (f args)"
    unfolding programs_def
    by (auto simp: setKey_prog_def deleteKey_prog_def strSet_prog_def strAppend_prog_def numberSet_prog_def
        numberAdd_prog_def listPush_prog_def listPop_prog_def mapSet_prog_def Let_def split: option.split)
qed

section \<open>One key\<close>

text \<open>What an operation does to the object that is stored under its key.\<close>

fun key_step :: "int \<Rightarrow> prog \<Rightarrow> object option \<Rightarrow> object option \<times> prog" where
  "key_step t (GetOp k c) st =
     (case st of
        None \<Rightarrow> (None, c None)
      | Some ob \<Rightarrow> if 0 < Timestamp ob \<and> Timestamp ob < t then (st, DropOp k (c None)) else (st, c st))"
| "key_step t (DropOp k p) st = (st, DroppingOp k p)"
| "key_step t (DroppingOp k p) st = (None, p)"
| "key_step t (SetOp k v kd p) st = (Some \<lparr>Value = v, Kind = kd, Timestamp = 0\<rparr>, p)"
| "key_step t (DeleteOp k c) st = (None, c (st \<noteq> None))"
| "key_step t (PutOp k ob p) st = (st, p)"
| "key_step t (LogDelOp k p) st = (st, p)"
| "key_step t (Done r) st = (st, Done r)"

lemma ready_smwal: "ready (sm\<lparr>smwal := w\<rparr>) \<longleftrightarrow> sm_wf sm \<and> wal_ok w" "stored (sm\<lparr>smwal := w\<rparr>) = stored sm"
  by (auto simp: ready_def sm_wf_def stored_def mem_of_def GetShardByKey_def fun_eq_iff)

lemma op_step_key:
  assumes "ready sm" and "keyed k p"
  shows "ready (fst (op_step E p sm)) \<and> snd (op_step E p sm) = snd (key_step (now E) p (stored sm k)) \<and>
    stored (fst (op_step E p sm)) = (stored sm)(k := fst (key_step (now E) p (stored sm k)))"
proof -
  have wf: "sm_wf sm" and ok: "gm_ok (mem_of sm k)" and wal: "wal_ok (smwal sm)"
    using assms(1) by (simp_all add: ready_def)
  obtain sh where sh: "GetShardByKey sm k = Some sh" using sm_wf_shard [OF wf] by blast
  then have m: "M sh = mem_of sm k" by (simp add: mem_of_def)
  have st: "stored (with_mem sm k m) = (stored sm)(k := gm_get m k)"
    if "\<And>j. j \<noteq> k \<Longrightarrow> gm_get m j = gm_get (mem_of sm k) j" for m
    by (rule stored_with_mem [OF wf that])
  have same: "stored (with_mem sm k (mem_of sm k)) = stored sm" by (simp add: st stored_def fun_eq_iff)
  show ?thesis
  proof (cases p)
    case (GetOp k' c)
    then show ?thesis
      using assms sh m ok same
      by (cases "gm_get (mem_of sm k) k") (auto simp: Get_def st stored_def)
  next
    case (DroppingOp k' q)
    then show ?thesis using assms sh m ok by (simp add: st)
  next
    case (SetOp k' v kd q)
    then show ?thesis using assms sh m ok by (simp add: Set_def st)
  next
    case (DeleteOp k' c)
    then show ?thesis
      using assms sh m ok same
      by (cases "gm_get (mem_of sm k) k") (auto simp: Delete_def st stored_def)
  next
    case (PutOp k' ob q)
    obtain w wr where w: "wPut (eproto E) (ebranches E) k (Some ob) (smwal sm) = (w, wr)" by fastforce
    then have "wal_ok w" "wr \<noteq> WPanic"
      using wPut_wal_ok [OF wal, of "eproto E" "ebranches E" k] by (metis fst_conv, metis snd_conv)
    then show ?thesis using PutOp assms(2) w wf by (simp add: ready_smwal)
  next
    case (LogDelOp k' q)
    obtain w wr where w: "wDelete (eproto E) (ebranches E) k (smwal sm) = (w, wr)" by fastforce
    then have "wal_ok w" "wr \<noteq> WPanic"
      using wPut_wal_ok [OF wal, of "eproto E" "ebranches E" k] by (metis fst_conv, metis snd_conv)
    then show ?thesis using LogDelOp assms(2) w wf by (simp add: ready_smwal)
  qed (use assms in auto)
qed

lemma key_step_keyed: "keyed k p \<Longrightarrow> keyed k (snd (key_step t p st))"
  by (cases p) (auto split: option.split)

text \<open>What a program answers and leaves of its key, when it runs alone, depends on what is stored
  under the key only.\<close>

definition outcome :: "env \<Rightarrow> string \<Rightarrow> prog \<Rightarrow> db \<Rightarrow> result \<times> object option" where
  "outcome E k p sm = (case run_prog E p sm of (sm', r) \<Rightarrow> (r, stored sm' k))"

lemma outcome_step:
  "sm_wf sm \<Longrightarrow> outcome E k (snd (op_step E p sm)) (fst (op_step E p sm)) = outcome E k p sm"
  by (simp add: outcome_def op_step_run)

lemma outcome_next:
  assumes "keyed k p" and "ready sm" and "ready sn" and "stored sm k = stored sn k"
    and "snd (key_step (now E) p (stored sm k)) = q"
    and "\<And>a b. keyed k q \<Longrightarrow> ready a \<Longrightarrow> ready b \<Longrightarrow> stored a k = stored b k \<Longrightarrow> outcome E k q a = outcome E k q b"
  shows "outcome E k p sm = outcome E k p sn"
proof -
  note m = op_step_key [OF assms(2,1), of E] and n = op_step_key [OF assms(3,1), of E]
  have q: "snd (op_step E p sm) = q" "snd (op_step E p sn) = q" using m n assms(4,5) by simp_all
  have "stored (fst (op_step E p sm)) k = stored (fst (op_step E p sn)) k" using m n assms(4) by simp
  moreover have "keyed k q" using key_step_keyed [OF assms(1)] assms(5) by blast
  moreover have "ready (fst (op_step E p sm))" "ready (fst (op_step E p sn))" using m n by blast+
  ultimately have "outcome E k q (fst (op_step E p sm)) = outcome E k q (fst (op_step E p sn))" by (intro assms(6))
  then show ?thesis using outcome_step [of sm E k p] outcome_step [of sn E k p] q assms(2,3) by simp
qed

lemma outcome_drop:
  assumes "\<And>a b. keyed k q \<Longrightarrow> ready a \<Longrightarrow> ready b \<Longrightarrow> stored a k = stored b k \<Longrightarrow> outcome E k q a = outcome E k q b"
    and "p = DropOp k' q \<or> p = DroppingOp k' q"
    and "keyed k p" and "ready sm" and "ready sn" and "stored sm k = stored sn k"
  shows "outcome E k p sm = outcome E k p sn"
proof -
  have drop: "outcome E k (DroppingOp k' q) a = outcome E k (DroppingOp k' q) b"
    if "keyed k (DroppingOp k' q)" "ready a" "ready b" "stored a k = stored b k" for a b
    by (rule outcome_next [OF that, where q = q]) (simp, rule assms(1))
  have "outcome E k (DropOp k' q) a = outcome E k (DropOp k' q) b"
    if "keyed k (DropOp k' q)" "ready a" "ready b" "stored a k = stored b k" for a b
    by (rule outcome_next [OF that, where q = "DroppingOp k' q"]) (simp, rule drop)
  with drop show ?thesis using assms(2-6) by blast
qed

lemma outcome_cong:
  "keyed k p \<Longrightarrow> ready sm \<Longrightarrow> ready sn \<Longrightarrow> stored sm k = stored sn k \<Longrightarrow> outcome E k p sm = outcome E k p sn"
proof (induction p arbitrary: sm sn)
  case (GetOp k' c)
  have "(\<exists>x. snd (key_step (now E) (GetOp k' c) (stored sm k)) = c x) \<or>
      snd (key_step (now E) (GetOp k' c) (stored sm k)) = DropOp k' (c None)" by (auto split: option.split)
  then show ?case
  proof (elim disjE exE)
    fix x assume "snd (key_step (now E) (GetOp k' c) (stored sm k)) = c x"
    then show ?case by (rule outcome_next [OF GetOp.prems]) (rule GetOp.IH [OF rangeI])
  next
    assume "snd (key_step (now E) (GetOp k' c) (stored sm k)) = DropOp k' (c None)"
    then show ?case
      by (rule outcome_next [OF GetOp.prems]) (rule outcome_drop [OF GetOp.IH [OF rangeI] disjI1 [OF HOL.refl]])
  qed
next
  case (DropOp k' q)
  show ?case by (rule outcome_drop [OF DropOp.IH disjI1 [OF HOL.refl] DropOp.prems])
next
  case (DroppingOp k' q)
  show ?case by (rule outcome_drop [OF DroppingOp.IH disjI2 [OF HOL.refl] DroppingOp.prems])
next
  case (SetOp k' v kd q)
  show ?case by (rule outcome_next [OF SetOp.prems, where q = q]) (simp, rule SetOp.IH)
next
  case (DeleteOp k' c)
  show ?case
    by (rule outcome_next [OF DeleteOp.prems, where q = "c (stored sm k \<noteq> None)"]) (simp, rule DeleteOp.IH [OF rangeI])
next
  case (PutOp k' ob q)
  show ?case by (rule outcome_next [OF PutOp.prems, where q = q]) (simp, rule PutOp.IH)
next
  case (LogDelOp k' q)
  show ?case by (rule outcome_next [OF LogDelOp.prems, where q = q]) (simp, rule LogDelOp.IH)
qed (simp add: outcome_def)

section \<open>Clients\<close>

text \<open>
  A map that one goroutine deletes from without a lock must not be touched by another: the runtime
  finds the race and ends the process (\<^verbatim>\<open>fatal error: concurrent map read and map write\<close>).  \<open>touches\<close> is
  the key whose map an operation uses, \<open>dropping\<close> that of an unlocked deletion that is going on.
\<close>

fun touches :: "prog \<Rightarrow> string option" where
  "touches (GetOp k c) = Some k"
| "touches (DropOp k p) = Some k"
| "touches (SetOp k v kd p) = Some k"
| "touches (DeleteOp k c) = Some k"
| "touches p = None"

fun dropping :: "prog \<Rightarrow> string option" where
  "dropping (DroppingOp k p) = Some k"
| "dropping p = None"

definition races :: "db \<Rightarrow> prog list \<Rightarrow> nat \<Rightarrow> bool" where
  "races sm ps i =
     (case touches (ps ! i) of
        None \<Rightarrow> False
      | Some k \<Rightarrow> list_ex (\<lambda>p. case dropping p of
            None \<Rightarrow> False | Some k' \<Rightarrow> GetNode (smring sm) k' = GetNode (smring sm) k) ps)"

definition fatal :: "prog \<Rightarrow> prog" where
  "fatal p = (case p of Done r \<Rightarrow> Done r | _ \<Rightarrow> Done Crash)"

text \<open>A turn of a client is its next operation; \<open>start_progs\<close> are the programs of their requests.\<close>

fun conc_step :: "env list \<Rightarrow> nat \<Rightarrow> db \<times> prog list \<Rightarrow> db \<times> prog list" where
  "conc_step Es i (sm, ps) =
     (if i < length ps then
        if races sm ps i then (sm, map fatal ps)
        else case op_step (Es ! i) (ps ! i) sm of (sm', p) \<Rightarrow> (sm', ps[i := p])
      else (sm, ps))"

definition start_progs :: "(env \<times> string \<times> string list) list \<Rightarrow> prog list" where
  "start_progs reqs = map (\<lambda>(E, c, args). case map_of programs (ToUpper (euni E) c) of
     Some f \<Rightarrow> f args | None \<Rightarrow> Done (Fail (UnknownCommand c))) reqs"

text \<open>A client that has found no expired object drops nothing, and touches only the map of its own key.\<close>

definition unexpired :: "int \<Rightarrow> object option \<Rightarrow> bool" where
  "unexpired t st = (case st of None \<Rightarrow> True | Some ob \<Rightarrow> \<not> expired t ob)"

lemma key_step_calm:
  "calm p \<Longrightarrow> unexpired t st \<Longrightarrow> calm (snd (key_step t p st)) \<and> unexpired t (fst (key_step t p st))"
  by (cases p) (auto simp: unexpired_def expired_def split: option.split)

lemma visible_unexpired: "visible t sm k = stored sm k \<longleftrightarrow> unexpired t (stored sm k)"
  by (auto simp: visible_stored unexpired_def split: option.split)

lemma op_step_ring [simp]: "smring (fst (op_step E p sm)) = smring sm"
  by (cases p) (auto split: option.split prod.split)

lemma touches_keyed: "keyed k p \<Longrightarrow> touches p = Some k' \<Longrightarrow> k' = k" "keyed k p \<Longrightarrow> dropping p = Some k' \<Longrightarrow> k' = k"
  by (cases p; simp)+

lemma calm_dropping: "calm p \<Longrightarrow> dropping p = None"
  by (cases p) simp_all

lemma races_calm [simp]: "\<forall>p \<in> set ps. dropping p = None \<Longrightarrow> \<not> races sm ps i"
  by (auto simp: races_def list_ex_iff split: option.split)

text \<open>The clients on the keys \<open>ks\<close>; those in \<open>D\<close> may have found an expired object, and no other key is
  in the map of theirs.\<close>

definition apart :: "env list \<Rightarrow> string list \<Rightarrow> nat set \<Rightarrow> db \<Rightarrow> prog list \<Rightarrow> bool" where
  "apart Es ks D sm ps \<longleftrightarrow> ready sm \<and> length ks = length ps \<and> distinct ks \<and>
     (\<forall>i < length ps. keyed (ks ! i) (ps ! i)) \<and>
     (\<forall>i < length ps. i \<notin> D \<longrightarrow> calm (ps ! i) \<and> unexpired (now (Es ! i)) (stored sm (ks ! i))) \<and>
     (\<forall>i < length ps. \<forall>j < length ps. i \<in> D \<longrightarrow> j \<noteq> i \<longrightarrow>
        GetNode (smring sm) (ks ! i) \<noteq> GetNode (smring sm) (ks ! j))"

lemma apart_races:
  assumes "apart Es ks D sm ps" and "j < length ps"
  shows "\<not> races sm ps j"
proof
  assume "races sm ps j"
  then obtain k p k' where k: "touches (ps ! j) = Some k" and p: "p \<in> set ps" "dropping p = Some k'"
    and n: "GetNode (smring sm) k' = GetNode (smring sm) k"
    by (auto simp: races_def list_ex_iff split: option.splits)
  obtain i where i: "i < length ps" "p = ps ! i" using p(1) by (auto simp: in_set_conv_nth)
  have "i \<noteq> j" using k p(2) i(2) by (cases "ps ! j") auto
  moreover have "i \<in> D" using assms(1) i p(2) calm_dropping by (fastforce simp: apart_def)
  moreover have "k = ks ! j" "k' = ks ! i"
    using assms i k p(2) touches_keyed by (auto simp: apart_def)
  ultimately show False using assms i(1) n by (auto simp: apart_def)
qed

lemma conc_step_apart:
  assumes a: "apart Es ks D sm ps" and s: "conc_step Es j (sm, ps) = (sm', ps')"
  shows "apart Es ks D sm' ps'"
    and "\<forall>i < length ps. outcome (Es ! i) (ks ! i) (ps' ! i) sm' = outcome (Es ! i) (ks ! i) (ps ! i) sm"
    and "\<forall>k. k \<notin> set ks \<longrightarrow> stored sm' k = stored sm k"
proof -
  have len: "length ks = length ps" "distinct ks" and rd: "ready sm"
    and ky: "\<And>i. i < length ps \<Longrightarrow> keyed (ks ! i) (ps ! i)" using a by (auto simp: apart_def)
  have "apart Es ks D sm' ps' \<and>
      (\<forall>i < length ps. outcome (Es ! i) (ks ! i) (ps' ! i) sm' = outcome (Es ! i) (ks ! i) (ps ! i) sm) \<and>
      (\<forall>k. k \<notin> set ks \<longrightarrow> stored sm' k = stored sm k)"
  proof (cases "j < length ps")
    case True
    note o = op_step_key [OF rd ky [OF True], of "Es ! j"]
    have e: "sm' = fst (op_step (Es ! j) (ps ! j) sm)" "ps' = ps[j := snd (op_step (Es ! j) (ps ! j) sm)]"
      using s True apart_races [OF a True] by (auto split: prod.splits)
    have k: "keyed (ks ! j) (snd (op_step (Es ! j) (ps ! j) sm))" using o key_step_keyed [OF ky [OF True]] by simp
    have same: "stored sm' (ks ! i) = stored sm (ks ! i)" if "i < length ps" "i \<noteq> j" for i
      using that True len o e(1) by (simp add: nth_eq_iff_index_eq)
    have "outcome (Es ! i) (ks ! i) (ps ! i) sm' = outcome (Es ! i) (ks ! i) (ps ! i) sm"
      if "i < length ps" "i \<noteq> j" for i
      using o e(1) rd ky that same by (intro outcome_cong) auto
    moreover have "outcome (Es ! j) (ks ! j) (ps' ! j) sm' = outcome (Es ! j) (ks ! j) (ps ! j) sm"
      using outcome_step [of sm "Es ! j" "ks ! j" "ps ! j"] rd e True by simp
    ultimately have out: "\<forall>i < length ps. outcome (Es ! i) (ks ! i) (ps' ! i) sm' = outcome (Es ! i) (ks ! i) (ps ! i) sm"
      using e(2) by (metis nth_list_update_neq)
    have "calm (ps' ! i) \<and> unexpired (now (Es ! i)) (stored sm' (ks ! i))" if "i < length ps" "i \<notin> D" for i
    proof (cases "i = j")
      case True
      then show ?thesis using key_step_calm o e a that by (simp add: apart_def)
    next
      case False
      then show ?thesis using a same that e(2) by (simp add: apart_def)
    qed
    moreover have "keyed (ks ! i) (ps' ! i)" if "i < length ps" for i
      using ky that k e(2) by (cases "i = j") simp_all
    moreover have "ready sm'" "smring sm' = smring sm" "length ps' = length ps" using o e by simp_all
    ultimately have "apart Es ks D sm' ps'" using a by (simp add: apart_def)
    moreover have "stored sm' k = stored sm k" if "k \<notin> set ks" for k
      using o e(1) that True len by (metis fun_upd_other nth_mem)
    ultimately show ?thesis using out by blast
  qed (use a s in auto)
  then show "apart Es ks D sm' ps'"
    "\<forall>i < length ps. outcome (Es ! i) (ks ! i) (ps' ! i) sm' = outcome (Es ! i) (ks ! i) (ps ! i) sm"
    "\<forall>k. k \<notin> set ks \<longrightarrow> stored sm' k = stored sm k"
    by blast+
qed

lemma conc_step_length: "length (snd (conc_step Es j (sm, ps))) = length ps"
  by (simp split: prod.split)

lemma conc_apart:
  "fold (conc_step Es) sched (sm, ps) = (sm', ps') \<Longrightarrow> apart Es ks D sm ps \<Longrightarrow>
    (\<forall>i < length ps. outcome (Es ! i) (ks ! i) (ps' ! i) sm' = outcome (Es ! i) (ks ! i) (ps ! i) sm) \<and>
    (\<forall>k. k \<notin> set ks \<longrightarrow> stored sm' k = stored sm k)"
proof (induction sched arbitrary: sm ps)
  case (Cons j sched)
  obtain sm1 ps1 where s: "conc_step Es j (sm, ps) = (sm1, ps1)" by fastforce
  note a = conc_step_apart [OF Cons.prems(2) s]
  have "length ps1 = length ps" using conc_step_length [of Es j sm ps] s by simp
  then show ?case using Cons.IH [of sm1 ps1] Cons.prems s a by simp
qed simp

text \<open>Every program ends: its operations are at most five.\<close>

primrec ends :: "prog \<Rightarrow> nat \<Rightarrow> bool" where
  "ends (Done r) n \<longleftrightarrow> True"
| "ends (GetOp k c) n \<longleftrightarrow> 3 \<le> n \<and> (\<forall>ob. ends (c ob) (n - 3))"
| "ends (DropOp k p) n \<longleftrightarrow> 2 \<le> n \<and> ends p (n - 2)"
| "ends (DroppingOp k p) n \<longleftrightarrow> 1 \<le> n \<and> ends p (n - 1)"
| "ends (SetOp k v kd p) n \<longleftrightarrow> 1 \<le> n \<and> ends p (n - 1)"
| "ends (DeleteOp k c) n \<longleftrightarrow> 1 \<le> n \<and> (\<forall>b. ends (c b) (n - 1))"
| "ends (PutOp k ob p) n \<longleftrightarrow> 1 \<le> n \<and> ends p (n - 1)"
| "ends (LogDelOp k p) n \<longleftrightarrow> 1 \<le> n \<and> ends p (n - 1)"

lemma ends_0: "ends p 0 \<longleftrightarrow> (\<exists>r. p = Done r)"
  by (cases p) auto

lemma ends_mono: "ends p n \<Longrightarrow> n \<le> m \<Longrightarrow> ends p m"
  by (induction p arbitrary: n m) (auto, (meson diff_le_mono rangeI)+)

lemma op_step_ends: "ends p n \<Longrightarrow> ends (snd (op_step E p sm)) (n - 1)"
  by (cases p) (auto intro: ends_mono split: option.split prod.split)

lemma fatal_ends: "ends (fatal p) n"
  by (cases p) (simp_all add: fatal_def)

lemma write_ends [simp]: "ends (store_prog k v kd r) n \<longleftrightarrow> 2 \<le> n" "ends (erase_prog k r) n \<longleftrightarrow> 2 \<le> n"
  by (auto simp: store_prog_def erase_prog_def)

lemma program_ends:
  assumes "map_of programs n = Some f"
  shows "ends (f args) 5"
proof -
  have "(n, f) \<in> set programs" using assms by (rule map_of_SomeD)
  then show ?thesis
    unfolding programs_def
    by (auto simp: setKey_prog_def deleteKey_prog_def strSet_prog_def strAppend_prog_def numberSet_prog_def
        numberAdd_prog_def listPush_prog_def listPop_prog_def mapSet_prog_def Let_def split: option.split)
qed

lemma conc_ends:
  "fold (conc_step Es) sched (sm, ps) = (sm', ps') \<Longrightarrow> i < length ps \<Longrightarrow> ends (ps ! i) n \<Longrightarrow>
     n \<le> count_list sched i \<Longrightarrow> \<exists>r. ps' ! i = Done r"
proof (induction sched arbitrary: sm ps n)
  case Nil
  then show ?case by (simp add: ends_0)
next
  case (Cons j sched)
  obtain sm1 ps1 where s: "conc_step Es j (sm, ps) = (sm1, ps1)" by fastforce
  have "length ps1 = length ps" using conc_step_length [of Es j sm ps] s by simp
  moreover have "ends (ps1 ! i) (n - (if j = i then 1 else 0))"
    using s Cons.prems(2,3) op_step_ends [of "ps ! i" n "Es ! i" sm] fatal_ends
    by (auto simp: nth_list_update split: if_splits prod.splits)
  moreover have "n - (if j = i then 1 else 0) \<le> count_list sched i" using Cons.prems(4) by (auto split: if_splits)
  moreover have "fold (conc_step Es) sched (sm1, ps1) = (sm', ps')" using Cons.prems(1) s by simp
  ultimately show ?case using Cons.IH Cons.prems(2) by simp
qed

section \<open>Results\<close>

definition request_key :: "env \<times> string \<times> string list \<Rightarrow> string" where
  "request_key r = (case r of (E, c, args) \<Rightarrow> args ! 0)"

lemma start_prog:
  assumes "i < length reqs"
  shows "keyed (map request_key reqs ! i) (start_progs reqs ! i)" and "calm (start_progs reqs ! i)"
  using assms by (auto simp: start_progs_def request_key_def program_keyed split: prod.split option.split)

text \<open>C10.  SET, DELETE, STR.SET, STR.APPEND, NUM.SET, NUM.INCR, NUM.DECR, LIST.PUSH, LIST.POP and MAP.SET on
  different keys do not disturb each other: however the operations of their handlers interleave, each
  request is answered, after five turns at most, as if it ran alone on the database they all started on,
  and leaves the same object under its key; no other key changes.  A request whose key holds an object that
  has expired may delete it without a lock: the key of no other request may then be in the same shard
  (\<open>expired_race\<close> is the run that ends the process).\<close>

theorem concurrent_apart:
  assumes "ready sm" and "distinct (map request_key reqs)"
    and "\<forall>(E, c, args) \<in> set reqs. ToUpper (euni E) c \<in> fst ` set programs"
    and "\<forall>i < length reqs. \<forall>j < length reqs. i \<noteq> j \<longrightarrow>
      GetNode (smring sm) (request_key (reqs ! i)) = GetNode (smring sm) (request_key (reqs ! j)) \<longrightarrow>
      visible (now (fst (reqs ! i))) sm (request_key (reqs ! i)) = stored sm (request_key (reqs ! i))"
    and "fold (conc_step (map fst reqs)) sched (sm, start_progs reqs) = (sm', ps)"
  shows "(\<forall>i E c args. i < length reqs \<and> reqs ! i = (E, c, args) \<and> 5 \<le> count_list sched i \<longrightarrow>
      ps ! i = Done (snd (Execute E c args sm)) \<and>
      stored sm' (args ! 0) = stored (fst (Execute E c args sm)) (args ! 0)) \<and>
    (\<forall>k. k \<notin> set (map request_key reqs) \<longrightarrow> stored sm' k = stored sm k)"
proof -
  let ?ks = "map request_key reqs"
  let ?D = "{i. i < length reqs \<and> \<not> unexpired (now (fst (reqs ! i))) (stored sm (?ks ! i))}"
  have len: "length (start_progs reqs) = length reqs" by (simp add: start_progs_def)
  have "GetNode (smring sm) (?ks ! i) \<noteq> GetNode (smring sm) (?ks ! j)"
    if "i \<in> ?D" "j < length reqs" "j \<noteq> i" for i j
    using assms(4) that by (auto simp: visible_unexpired)
  then have "apart (map fst reqs) ?ks ?D sm (start_progs reqs)"
    using assms(1,2) start_prog by (auto simp: apart_def len)
  from conc_apart [OF assms(5) this] have
    out: "\<And>i. i < length reqs \<Longrightarrow> outcome (map fst reqs ! i) (?ks ! i) (ps ! i) sm' =
      outcome (map fst reqs ! i) (?ks ! i) (start_progs reqs ! i) sm" and
    other: "\<And>k. k \<notin> set ?ks \<Longrightarrow> stored sm' k = stored sm k"
    by (auto simp: len)
  have "ps ! i = Done (snd (Execute E c args sm)) \<and>
      stored sm' (args ! 0) = stored (fst (Execute E c args sm)) (args ! 0)"
    if i: "i < length reqs" "reqs ! i = (E, c, args)" "5 \<le> count_list sched i" for i E c args
  proof -
    have "ToUpper (euni E) c \<in> fst ` set programs" using assms(3) i(1,2) nth_mem by fastforce
    then obtain f where f: "map_of programs (ToUpper (euni E) c) = Some f"
      by (metis map_of_eq_None_iff option.exhaust)
    then have p: "start_progs reqs ! i = f args" using i by (simp add: start_progs_def)
    obtain r where r: "ps ! i = Done r"
      using conc_ends [OF assms(5) _ _ i(3)] i(1) program_ends [OF f] p by (auto simp: len)
    then have "outcome E (args ! 0) (Done r) sm' = outcome E (args ! 0) (f args) sm"
      using out [OF i(1)] i p by (simp add: request_key_def)
    then show ?thesis using r by (simp add: outcome_def program_Execute [OF f] split: prod.splits)
  qed
  with other show ?thesis by blast
qed

text \<open>A SET and a NUM.INCR of an absent key, one operation after the other.\<close>

theorem concurrent_apart_witness:
  "let reqs = [(env1 5, ''SET'', [''a'', ''v'']), (env1 6, ''NUM.INCR'', [''b''])];
       (sm', ps) = fold (conc_step (map fst reqs)) [0, 1, 0, 1, 0, 1, 0, 1, 0, 1] (db1, start_progs reqs)
   in ps ! 0 = Done (snd (Execute (env1 5) ''SET'' [''a'', ''v''] db1)) \<and>
      ps ! 1 = Done (snd (Execute (env1 6) ''NUM.INCR'' [''b''] db1)) \<and>
      stored sm' ''b'' = stored (fst (Execute (env1 6) ''NUM.INCR'' [''b''] db1)) ''b'' \<and>
      stored sm' ''c'' = stored db1 ''c''"
proof -
  let ?reqs = "[(env1 5, ''SET'', [''a'', ''v'']), (env1 6, ''NUM.INCR'', [''b''])]"
  let ?sched = "[0, 1, 0, 1, 0, 1, 0, 1, 0, 1]"
  obtain sm' ps where s: "fold (conc_step (map fst ?reqs)) ?sched (db1, start_progs ?reqs) = (sm', ps)"
    by fastforce
  have d: "distinct (map request_key ?reqs)" by (simp add: request_key_def)
  have c: "\<forall>(E, c, args) \<in> set ?reqs. ToUpper (euni E) c \<in> fst ` set programs"
    by (auto simp: programs_def ToUpper_upper byte_of_def)
  have "stored db1 k = None" for k
    using db1_ready(2) [of 0 k] by (auto simp: visible_stored expired_def split: option.splits if_splits)
  then have e: "\<forall>i < length ?reqs. \<forall>j < length ?reqs. i \<noteq> j \<longrightarrow>
      GetNode (smring db1) (request_key (?reqs ! i)) = GetNode (smring db1) (request_key (?reqs ! j)) \<longrightarrow>
      visible (now (fst (?reqs ! i))) db1 (request_key (?reqs ! i)) = stored db1 (request_key (?reqs ! i))"
    by (simp add: visible_stored)
  note r = concurrent_apart [OF db1_ready(1) d c e s]
  have "ps ! 0 = Done (snd (Execute (env1 5) ''SET'' [''a'', ''v''] db1))"
    using r [THEN conjunct1, rule_format, of 0 "env1 5" "''SET''" "[''a'', ''v'']"] by simp
  moreover have "ps ! 1 = Done (snd (Execute (env1 6) ''NUM.INCR'' [''b''] db1)) \<and>
      stored sm' ''b'' = stored (fst (Execute (env1 6) ''NUM.INCR'' [''b''] db1)) ''b''"
    using r [THEN conjunct1, rule_format, of 1 "env1 6" "''NUM.INCR''" "[''b'']"] by simp
  moreover have "stored sm' ''c'' = stored db1 ''c''"
    using r [THEN conjunct2, rule_format, of "''c''"] by (simp add: request_key_def)
  ultimately show ?thesis unfolding Let_def s prod.case by blast
qed

text \<open>Two requests on different keys of one shard, one of which has expired: while the NUM.INCR deletes the
  expired object without a lock, the SET writes to the same map, and the process ends.\<close>

lemma expired_race:
  assumes "ready sm" and "IsValidKey k" and "IsValidKey j" and "GetNode (smring sm) k = GetNode (smring sm) j"
    and "stored sm k = Some ob" and "expired (now E) ob"
    and "ToUpper (euni E) c = ''NUM.INCR''" and "ToUpper (euni E') c' = ''SET''"
  shows "fold (conc_step [E, E']) [0, 0, 1] (sm, start_progs [(E, c, [k]), (E', c', [j, v])]) =
    (sm, [Done Crash, Done Crash])"
proof -
  have start: "start_progs [(E, c, [k]), (E', c', [j, v])] = [numberAdd_prog (+) [k], setKey_prog [j, v]]"
    by (simp add: start_progs_def programs_def assms(7,8))
  obtain sh where "GetShardByKey sm k = Some sh" "gm_get (M sh) k = Some ob"
    using sm_wf_shard [of sm k] assms(1,5) by (auto simp: stored_def mem_of_def)
  then show ?thesis
    using assms(2-4,6) unfolding start
    by (simp add: numberAdd_prog_def num_arg_def store_prog_def setKey_prog_def races_def fatal_def expired_def)
qed

text \<open>On one key the operations act on one object: \<open>key_step\<close> gives what every client sees.\<close>

fun key_conc :: "env list \<Rightarrow> nat \<Rightarrow> object option \<times> prog list \<Rightarrow> object option \<times> prog list" where
  "key_conc Es i (st, ps) =
     (if i < length ps then case key_step (now (Es ! i)) (ps ! i) st of (st', p) \<Rightarrow> (st', ps[i := p]) else (st, ps))"

definition settled :: "object option \<Rightarrow> bool" where
  "settled st = (case st of None \<Rightarrow> True | Some ob \<Rightarrow> Timestamp ob = 0)"

lemma settled_unexpired: "settled st \<Longrightarrow> unexpired t st"
  by (simp add: settled_def unexpired_def expired_def split: option.splits)

lemma key_step_settled: "calm p \<Longrightarrow> settled st \<Longrightarrow> settled (fst (key_step t p st))"
  by (cases p) (auto simp: settled_def split: option.splits)

lemma conc_one_key:
  "fold (conc_step Es) sched (sm, ps) = (sm', ps') \<Longrightarrow> ready sm \<Longrightarrow> settled (stored sm k) \<Longrightarrow>
     \<forall>p \<in> set ps. keyed k p \<and> calm p \<Longrightarrow>
     ready sm' \<and> fold (key_conc Es) sched (stored sm k, ps) = (stored sm' k, ps')"
proof (induction sched arbitrary: sm ps)
  case (Cons j sched)
  obtain sm1 ps1 where s: "conc_step Es j (sm, ps) = (sm1, ps1)" by fastforce
  have "ready sm1 \<and> settled (stored sm1 k) \<and> key_conc Es j (stored sm k, ps) = (stored sm1 k, ps1) \<and>
      (\<forall>p \<in> set ps1. keyed k p \<and> calm p)"
  proof (cases "j < length ps")
    case True
    then have j: "keyed k (ps ! j)" "calm (ps ! j)" using Cons.prems(4) by simp_all
    note o = op_step_key [OF Cons.prems(2) j(1), of "Es ! j"]
    have "\<not> races sm ps j" using Cons.prems(4) calm_dropping by (intro races_calm) blast
    then have e: "sm1 = fst (op_step (Es ! j) (ps ! j) sm)" "ps1 = ps[j := snd (op_step (Es ! j) (ps ! j) sm)]"
      using s True by (auto split: prod.splits)
    have "key_conc Es j (stored sm k, ps) = (stored sm1 k, ps1)" using True e o by (simp split: prod.split)
    moreover have "\<forall>p \<in> set ps1. keyed k p \<and> calm p"
      using Cons.prems(4) e(2) o key_step_keyed [OF j(1)]
        key_step_calm [OF j(2) settled_unexpired [OF Cons.prems(3)]]
      by (auto dest!: set_update_subset_insert [THEN subsetD])
    ultimately show ?thesis using e(1) o key_step_settled [OF j(2) Cons.prems(3)] by simp
  qed (use s Cons.prems in auto)
  then show ?case using Cons.IH [of sm1 ps1] Cons.prems(1) s by simp
qed simp

text \<open>C11.  Two clients add to one number at the same time.  Both read it before either writes; both are told
  their sum, and the amount of the one that writes first is lost: the key holds what the second
  makes of the number that both have read.\<close>

theorem lost_update:
  assumes "ready sm" and "IsValidKey k" and "stored sm k = Some ob" and "Kind ob = KNumber" and "Timestamp ob = 0"
    and "ConvertToNumber (Value ob) = Some x" and "ConvertToNumber a = Some y" and "ConvertToNumber b = Some z"
    and "ToUpper (euni E) c = ''NUM.INCR''" and "ToUpper (euni E') c' = ''NUM.INCR''"
  shows "case fold (conc_step [E, E']) [0, 1, 0, 1, 0, 1] (sm, start_progs [(E, c, [k, a]), (E', c', [k, b])]) of
     (sm', ps) \<Rightarrow> ps = [Done (Resp (FloatToByte (x + y))), Done (Resp (FloatToByte (x + z)))] \<and>
       stored sm' k = Some (fresh_obj (FloatToByte (x + z)) KNumber)"
proof -
  let ?ps = "[numberAdd_prog (+) [k, a], numberAdd_prog (+) [k, b]]"
  have start: "start_progs [(E, c, [k, a]), (E', c', [k, b])] = ?ps"
    by (simp add: start_progs_def programs_def assms(9,10))
  obtain sm' ps where s: "fold (conc_step [E, E']) [0, 1, 0, 1, 0, 1] (sm, ?ps) = (sm', ps)" by fastforce
  have "map_of programs ''NUM.INCR'' = Some (numberAdd_prog (+))" by (simp add: programs_def)
  then have "\<forall>p \<in> set ?ps. keyed k p \<and> calm p"
    using program_keyed [of "''NUM.INCR''" "numberAdd_prog (+)" "[k, a]"]
      program_keyed [of "''NUM.INCR''" "numberAdd_prog (+)" "[k, b]"] by simp
  moreover have "settled (stored sm k)" using assms(3,5) by (simp add: settled_def)
  ultimately have "fold (key_conc [E, E']) [0, 1, 0, 1, 0, 1] (stored sm k, ?ps) = (stored sm' k, ps)"
    using conc_one_key [OF s assms(1)] by blast
  then
  have "fold (key_conc [E, E']) [0, 1, 0, 1, 0, 1] (Some ob, ?ps) = (stored sm' k, ps)" using assms(3) by simp
  moreover have "fold (key_conc [E, E']) [0, 1, 0, 1, 0, 1] (Some ob, ?ps) =
      (Some (fresh_obj (FloatToByte (x + z)) KNumber),
       [Done (Resp (FloatToByte (x + y))), Done (Resp (FloatToByte (x + z)))])"
    using assms(2,4-8) by (simp add: numberAdd_prog_def num_arg_def store_prog_def)
  ultimately show ?thesis unfolding start s by simp
qed

text \<open>A counter holds 1, and two clients add 1 to it.\<close>

theorem lost_update_witness:
  "let one = FloatToByte (f64_of_int 1); two = FloatToByte (f64_of_int 1 + f64_of_int 1);
       sm = fst (numberSetFunc (env1 4) [''k'', ''1''] db1)
   in visible 5 sm ''k'' = Some (fresh_obj one KNumber) \<and>
     (case fold (conc_step [env1 5, env1 5]) [0, 1, 0, 1, 0, 1]
        (sm, start_progs [(env1 5, ''NUM.INCR'', [''k'', ''1'']), (env1 5, ''NUM.INCR'', [''k'', ''1''])]) of
      (sm', ps) \<Rightarrow> ps = [Done (Resp two), Done (Resp two)] \<and> stored sm' ''k'' = Some (fresh_obj two KNumber))"
proof -
  define one where "one = FloatToByte (f64_of_int 1)"
  have c: "ConvertToNumber ''1'' = Some (f64_of_int 1)" by code_simp
  have "fmt_json (f64_of_int 1) \<noteq> None" "f64_of_int 1 \<noteq> neg_zero" by code_simp+
  then have x: "ConvertToNumber one = Some (f64_of_int 1)"
    unfolding one_def by (intro ConvertToNumber_FloatToByte) (simp_all add: ConvertToNumber_ok [OF c])
  define sm where "sm = fst (numberSetFunc (env1 4) [''k'', ''1''] db1)"
  have k: "IsValidKey ''k''" by (simp add: IsValidKey_def)
  note e = numberSet_effect [OF db1_ready(1) k c, of "env1 4", folded one_def]
  have r: "ready sm" using effectD(1) [OF e] by (simp add: sm_def)
  have v: "visible 5 sm ''k'' = Some (fresh_obj one KNumber)"
    using effectD(2) [OF e, of 5] by (simp add: sm_def)
  then have st: "stored sm ''k'' = Some (fresh_obj one KNumber)"
    by (auto simp: visible_stored split: option.splits if_splits)
  have u: "ToUpper (euni (env1 5)) ''NUM.INCR'' = ''NUM.INCR''" by (simp add: ToUpper_upper byte_of_def)
  have "case fold (conc_step [env1 5, env1 5]) [0, 1, 0, 1, 0, 1]
        (sm, start_progs [(env1 5, ''NUM.INCR'', [''k'', ''1'']), (env1 5, ''NUM.INCR'', [''k'', ''1''])]) of
      (sm', ps) \<Rightarrow> ps = [Done (Resp (FloatToByte (f64_of_int 1 + f64_of_int 1))), Done (Resp (FloatToByte (f64_of_int 1 + f64_of_int 1)))] \<and>
        stored sm' ''k'' = Some (fresh_obj (FloatToByte (f64_of_int 1 + f64_of_int 1)) KNumber)"
    by (rule lost_update [OF r k st _ _ _ c c u u]) (simp_all add: x)
  with v show ?thesis unfolding Let_def one_def [symmetric] sm_def [symmetric] by blast
qed

text \<open>C12.  Two clients set one key at the same time.  The store takes their values in one order and the log in
  the other, so that clients see the value of the second while a restart brings back that of the first.\<close>

theorem log_overtaken:
  assumes "ready sm" and "IsValidKey k" and "room (smwal sm)" and "holds P (smwal sm) h"
    and "room (fst (wPut P (ebranches E') k (Some (fresh_obj w KDefault)) (smwal sm)))"
    and "eproto E = P" and "eproto E' = P"
    and "ToUpper (euni E) c = ''SET''" and "ToUpper (euni E') c' = ''SET''"
  shows "case fold (conc_step [E, E']) [0, 1, 1, 0] (sm, start_progs [(E, c, [k, v]), (E', c', [k, w])]) of
     (sm', ps) \<Rightarrow> ps = [Done (Resp []), Done (Resp [])] \<and> (\<forall>u. visible u sm' k = Some (fresh_obj w KDefault)) \<and>
       (\<exists>h'. holds P (smwal sm') h' \<and> replay k (h' (wnode (smwal sm') k)) = Some (fresh_obj v KDefault))"
proof -
  let ?ps = "[setKey_prog [k, v], setKey_prog [k, w]]"
  let ?s1 = "with_mem sm k (Set k v KDefault (mem_of sm k))"
  let ?s2 = "with_mem ?s1 k (Set k w KDefault (mem_of ?s1 k))"
  have start: "start_progs [(E, c, [k, v]), (E', c', [k, w])] = ?ps"
    by (simp add: start_progs_def programs_def assms(8,9))
  have wf: "sm_wf sm" "sm_wf ?s1" "wal_wf (smwal sm)" using assms(1,4) by (simp_all add: Set_def holds_def)
  obtain w1 where w1: "wPut P (ebranches E') k (Some (fresh_obj w KDefault)) (smwal sm) = (w1, WOk)"
    using wPut_room [OF wf(3) assms(3)] by blast
  note h1 = wPut_holds [OF assms(4) w1]
  then have "wal_wf w1" by (simp add: holds_def)
  then obtain w2 where w2: "wPut P (ebranches E) k (Some (fresh_obj v KDefault)) w1 = (w2, WOk)"
    using wPut_room assms(5) w1 by fastforce
  note h2 = wPut_holds [OF h1 [THEN conjunct1] w2]
  have sh: "\<exists>sh. GetShardByKey s k = Some sh \<and> M sh = mem_of s k" if "sm_wf s" for s
    using sm_wf_shard [OF that, of k] by (auto simp: mem_of_def)
  obtain sh1 sh2 where g: "GetShardByKey sm k = Some sh1" "M sh1 = mem_of sm k"
    "GetShardByKey ?s1 k = Some sh2" "M sh2 = mem_of ?s1 k"
    using sh [OF wf(1)] sh [OF wf(2)] by blast
  have run: "fold (conc_step [E, E']) [0, 1, 1, 0] (sm, ?ps) = (?s2\<lparr>smwal := w2\<rparr>, [Done (Resp []), Done (Resp [])])"
    using g w1 w2 assms(2,6,7) by (simp add: setKey_prog_def store_prog_def)
  have "stored ?s2 k = Some (fresh_obj w KDefault)" using wf by (simp add: stored_def Set_def)
  then have "visible u (?s2\<lparr>smwal := w2\<rparr>) k = Some (fresh_obj w KDefault)" for u
    by (simp add: visible_stored ready_smwal(2) expired_def)
  moreover have "holds P w2 (log_add (wnode w1 k) \<lparr>Op = UPDATE, EKey = k, EObject = Some (fresh_obj v KDefault)\<rparr> WOk
      (log_add (wnode (smwal sm) k) \<lparr>Op = UPDATE, EKey = k, EObject = Some (fresh_obj w KDefault)\<rparr> WOk h))"
    using h2 by blast
  moreover have "wnode w2 = wnode (smwal sm)" "wnode w1 = wnode (smwal sm)" using h1 h2 by simp_all
  ultimately show ?thesis
    unfolding start run prod.case
    by (auto simp: log_add_def replay_def apply_entry_def intro!: exI)
qed

theorem log_overtaken_witness:
  "\<exists>sm h. ready sm \<and> holds P3 (smwal sm) h \<and>
     (case fold (conc_step [env3, env3]) [0, 1, 1, 0]
        (sm, start_progs [(env3, ''SET'', [''k'', ''v'']), (env3, ''SET'', [''k'', ''w''])]) of
      (sm', ps) \<Rightarrow> visible 6 sm' ''k'' = Some (fresh_obj ''w'' KDefault) \<and>
        (\<exists>h'. holds P3 (smwal sm') h' \<and> replay ''k'' (h' (wnode (smwal sm') ''k'')) = Some (fresh_obj ''v'' KDefault)))"
proof -
  let ?S = "UNIV :: walEntry set"
  have q: "quiet ?S 2 (smwal db1)" using quiet_new by (fastforce simp: quiet_def)
  then have "quiet ?S 1 (fst (wPut P3 [] ''k'' (Some (fresh_obj ''w'' KDefault)) (smwal db1)))"
    by (intro quiet_put) simp_all
  then have r: "room (fst (wPut P3 (ebranches env3) ''k'' (Some (fresh_obj ''w'' KDefault)) (smwal db1)))"
    by (simp add: quiet_room)
  obtain h where h: "holds P3 (smwal db1) h"
    using new_logged(1) [OF _ db1_def, of P3 5] by (auto simp: logged_def)
  have k: "IsValidKey ''k''" by (simp add: IsValidKey_def)
  have u: "ToUpper (euni env3) ''SET'' = ''SET''" by (rule names3)
  have e: "eproto env3 = P3" by simp
  obtain sm' ps where s: "fold (conc_step [env3, env3]) [0, 1, 1, 0]
      (db1, start_progs [(env3, ''SET'', [''k'', ''v'']), (env3, ''SET'', [''k'', ''w''])]) = (sm', ps)"
    by fastforce
  from log_overtaken [OF db1_ready(1) k quiet_room [OF q] h r e e u u, of "''v''"]
  have "(\<forall>u. visible u sm' ''k'' = Some (fresh_obj ''w'' KDefault)) \<and>
      (\<exists>h'. holds P3 (smwal sm') h' \<and> replay ''k'' (h' (wnode (smwal sm') ''k'')) = Some (fresh_obj ''v'' KDefault))"
    unfolding s prod.case by simp
  with h db1_ready(1) have "ready db1 \<and> holds P3 (smwal db1) h \<and> (case (sm', ps) of (sm', ps) \<Rightarrow>
      visible 6 sm' ''k'' = Some (fresh_obj ''w'' KDefault) \<and>
      (\<exists>h'. holds P3 (smwal sm') h' \<and> replay ''k'' (h' (wnode (smwal sm') ''k'')) = Some (fresh_obj ''v'' KDefault)))"
    unfolding prod.case by blast
  then show ?thesis unfolding s [symmetric] by (intro exI)
qed

end
