(* ===== verification/Spec2Isabelle.thy ===== *)
theory Spec2Isabelle
  imports Transparency Restart Typing Interleaving Process Late_Marshal Recovery_Beside Concurrent
begin

text \<open>
  \<^bold>\<open>Fleare\<close>, an in-memory database with kinds of values (strings, numbers, lists, maps, JSON documents),
  expiring keys, a write-ahead log and a server over TCP: a model of its Go code (\<^verbatim>\<open>src/\<close>) and the
  theorems that make it correct.

  \<^bold>\<open>The program.\<close>  The start (\<^verbatim>\<open>main.go\<close>, \<^verbatim>\<open>commander/root.go\<close>) reads the configuration
  (\<^verbatim>\<open>config/\<close>) and fills the user store (\<^verbatim>\<open>internal/auth/\<close>).  The service manager
  (\<^verbatim>\<open>server/service_manager.go\<close>) makes the shard manager (\<^verbatim>\<open>internal/shard/\<close>), which owns the shards, each
  a \<^verbatim>\<open>Memory\<close> (\<^verbatim>\<open>internal/store/\<close>), a ring that assigns keys to shards
  (\<^verbatim>\<open>internal/helper/consistent_hash.go\<close>) and the log (\<^verbatim>\<open>internal/wal/\<close>), which has shards, files and a ring of
  its own; with persistence on, the memory is rebuilt from the log.  The event loop
  (\<^verbatim>\<open>server/eventloop/\<close>) accepts connections over epoll or kqueue, authenticates each, and gives it a
  goroutine that reads one framed request after the other.  A request is a command name and arguments;
  the dispatch (\<^verbatim>\<open>commander/common/cmd_executor.go\<close>) looks the handler up, and the handler reads and writes
  the shard of its key and appends what it changed to the log.

  \<^bold>\<open>Theories\<close>, in the order of their imports.

  \<^item> \<open>Prelude\<close>: Go's maps as association lists (\<open>gm_get\<close>, \<open>gm_upd\<close>, \<open>gm_del\<close>, well formed when \<open>gm_ok\<close>),
    64-bit wrap-around (\<open>i64\<close>), big-endian integers.  Strings and byte slices are lists of bytes.
  \<^item> \<open>Gostd\<close>, \<open>Utf8\<close>, \<open>Float64\<close>, \<open>Float_Text\<close>, \<open>Float_Ok\<close>, \<open>Crc32\<close>, \<open>Json\<close>, \<open>Json_Round\<close>,
    \<open>Json_Grammar\<close>: what the code uses of
    Go's standard library: \<^verbatim>\<open>strings\<close>, \<^verbatim>\<open>strconv\<close>, \<^verbatim>\<open>unicode/utf8\<close>, IEEE doubles with exact rounding and their
    shortest text, \<^verbatim>\<open>hash/crc32\<close>, and \<^verbatim>\<open>encoding/json\<close> as a parser and a printer with their round trip.
  \<^item> \<open>Utils\<close>, \<open>Values\<close> (\<^verbatim>\<open>internal/utils/\<close>): durations, numbers, paths, queries, and the conversion between
    arguments, JSON values and bytes.
  \<^item> \<open>Consistent_Hash\<close>: \<^verbatim>\<open>AddNode\<close>, \<^verbatim>\<open>RemoveNode\<close>, \<^verbatim>\<open>GetNode\<close> with its binary search, against the reference
    "first node at or after the hash, or the first of all" (\<open>GetNode_ref\<close>); locale \<open>router\<close>.
  \<^item> \<open>Store\<close>: \<^verbatim>\<open>Memory\<close> with its two notions of expiry; locale \<open>imemory\<close> for the interface \<^verbatim>\<open>IMem\<close>.
  \<^item> \<open>Wal\<close>, \<open>Wal_Log\<close> (\<^verbatim>\<open>internal/wal/wal.go\<close>): a shard of the log is a record of its channel, batch buffer, file and
    the program counter of its goroutine; \<open>shard_step\<close> is the step relation of goroutine and clients;
    \<open>recover_bytes\<close> reads a file back.  The log of a shard is the bytes it has written or will write
    (\<open>log_of\<close>), and \<open>holds\<close> relates a log to the history of entries it accepted; locale \<open>wal_if\<close> for the
    interface \<^verbatim>\<open>IWal\<close>.
  \<^item> \<open>Shard_Manager\<close>, \<open>Startup\<close>, \<open>Recovery\<close>, \<open>Replay\<close>: the shards with ring and log, how they start, closing and
    rebuilding.  \<open>visible u sm k\<close>, the object a client can still see of key \<open>k\<close> from time \<open>u\<close> on, is the
    abstraction: a finite map from keys to objects, without shards, ring, log or dropped objects.
  \<^item> \<open>Auth\<close>, \<open>Config\<close>: users, sessions, the configuration and its merge.
  \<^item> \<open>Cmd_Base\<close>, \<open>Cmd_Common\<close>, \<open>Cmd_Str_Num\<close>, \<open>Cmd_List\<close>, \<open>Cmd_Map\<close>, \<open>Cmd_Json\<close>, \<open>Commander\<close> (\<^verbatim>\<open>commander/\<close>): one
    function per handler, of the environment of the request (\<open>env\<close>: clock, session, answers of the log's
    goroutines, library parameters), its arguments and the database; its result is a response, an
    error or a panic (\<open>Crash\<close>).  \<open>Execute\<close> is the dispatch.  Locale \<open>request_inv\<close> states once what a
    handler has to keep for \<open>Execute\<close> to keep it; it is interpreted for well-formedness, the frame,
    reading, the log, the domain and the types.
  \<^item> \<open>Keyspace\<close>, \<open>Command_Laws\<close>, \<open>Collection_Laws\<close>, \<open>Json_Laws\<close>, \<open>Typing\<close>, \<open>Transparency\<close>, \<open>Restart\<close>: the
    theorems on commands over the abstract map, below.
  \<^item> \<open>Late_Marshal\<close>: the store and the channel of the log with a heap, since both hold pointers to the same
    objects (\<open>h_step\<close>), beside the model by value of the other theories (\<open>v_step\<close>).  \<open>Recovery_Beside\<close>: the
    callbacks of recovery among the requests that are served meanwhile (\<open>boot_run\<close>).
    \<open>Concurrent\<close>: ten writing commands as programs of operations of store and log (\<open>prog\<close>), which alone are
    the handlers (\<open>program_Execute\<close>), and clients that take turns operation by operation (\<open>conc_step\<close>).
  \<^item> \<open>Server\<close>, \<open>Multiplexer\<close>, \<open>Eventloop\<close>, \<open>Connections\<close>, \<open>Interleaving\<close> (\<^verbatim>\<open>server/\<close>,
    \<^verbatim>\<open>internal/io-manager/\<close>): framing, authentication, requests, the registry of connections; epoll and
    kqueue behind locale \<open>event_loop\<close>; binding, accepting, the goroutine of a connection and the
    parts of its clean-up; their interleaving as \<open>net_step\<close>.  Locale \<open>accept_loop\<close> extends \<open>event_loop\<close>.
  \<^item> \<open>Program\<close>, \<open>Process\<close>: the configuration at start, the queue of the logger, the run of the event loop to
    its end; the process as its goroutines (main, signal handler, recovery, event loop) taking steps in
    any order (\<open>turn_step\<close>).

  \<^bold>\<open>What is shown.\<close>

  \<^item> The log.  A crash at any moment leaves files from which recovery delivers a prefix of what was
    accepted, with every whole record (\<open>crash_recovery\<close>); a corrupt byte is caught (\<open>corrupt_byte\<close>);
    recovery of any bytes ends (\<open>recovery_ends\<close>); closing makes everything accepted durable
    (\<open>close_durable\<close>); the result of an append tells whether it was accepted (lemma \<open>put_result\<close>).
  \<^item> Log and store.  Replaying the log of a key gives what clients see of it in every state of a run
    (\<open>log_refines_store\<close>), so closing and restarting shows the same objects (\<open>restart_restores\<close>).  Two places
    where the code breaks this are proved too (\<open>gpop_diverges\<close>, \<open>expired_resurrected\<close>) and are excluded by
    the hypotheses of the others.  That the channel holds pointers, encoded late, makes no difference in the
    end (\<open>late_marshal\<close>).  That recovery runs beside requests does: what it has still to deliver for a key
    replaces what clients have written to it (\<open>recovery_beside\<close>).
  \<^item> Sharding.  \<open>GetNode\<close> is its reference (\<open>GetNode_successor\<close>), a new node only takes keys over
    (lemma \<open>AddNode_moves\<close>), and how many shards there are is invisible to clients
    (\<open>shard_count_transparent\<close>).
  \<^item> Every request.  A server that has started stays ready (\<open>always_ready\<close>), answers unless the handler
    is one of those that can panic (\<open>answered\<close>), touches only the keys it names (\<open>Execute_frame\<close>),
    changes nothing when it reads (\<open>read_only_Execute\<close>), and keeps every object of the type its kind
    says (\<open>typed_Execute\<close>).
  \<^item> Requests at the same time.  On different keys they do not disturb each other (\<open>concurrent_apart\<close>).  On one
    key an update can be lost (\<open>lost_update\<close>), and store and log can disagree on which write came last
    (\<open>log_overtaken\<close>).
  \<^item> Commands: what SET and GET, expiry, lists, maps, JSON documents and numbers answer
    (\<open>set_get\<close> to \<open>num_incr\<close>, \<open>map_del\<close>, \<open>find_partition\<close>, \<open>getRange_spec\<close>) and that values and numbers
    survive being written as text (\<open>value_roundtrip\<close>, \<open>number_roundtrip\<close>).
  \<^item> Connections.  A client that keeps to the protocol gets the answers of its requests one by one
    (\<open>conversation\<close>; \<open>pipelined_lost\<close> shows why it must wait for each); one that does not authenticate is
    told so and closed (\<open>unauthenticated\<close>); sessions live as long as their connections
    (lemma \<open>session_lifecycle\<close>); the registry, the sessions and the count agree in every interleaving
    (\<open>connections_consistent\<close>); a clean-up that runs alone is exact (\<open>cleanup_exact\<close>), one that does not can
    close somebody else's descriptor (\<open>stale_close\<close>); edge-triggered polling with one accept per event
    strands connections (\<open>accept_progress\<close>); the address the server binds (lemma \<open>bind_address\<close>).
  \<^item> The process ends after a signal, unless a silent client keeps the accept loop reading (\<open>shutdown\<close>).

  \<^bold>\<open>Bounds and termination.\<close>  The JSON parser \<open>p_value\<close> has fuel, twice the length of the text and two, which is
  always enough (\<open>fuel_enough\<close>), and the depth limit of \<^verbatim>\<open>encoding/json\<close> (10000) as the code has it.  The search for
  the shortest text of a number tries the 17 digits that are known to be enough and falls back on the
  exact decimal expansion, so it needs no such fact.  Loops that the code ends by progress (\<open>Search\<close>,
  \<open>recover_bytes\<close>, \<open>read_full\<close>, \<open>StartSync\<close>) are total functions with a measure.  What a goroutine does next
  is given from outside (lists of branches, of rounds, of turns, the answers of the kernel), and the
  theorems hold for every choice; \<open>shutdown\<close> bounds what is left after a signal by 20 steps.  Integers wrap
  where Go's do (\<open>i64\<close>, \<open>i32\<close>, \<open>i8\<close>, words for flags, counts and checksums).

  \<^bold>\<open>Not modelled, and simplified.\<close>

  \<^item> Data races: a single operation of a \<^verbatim>\<open>Memory\<close> or of the log is atomic.  In all theories but \<open>Concurrent\<close> a
    request is one step, and so is the acceptance of a connection; goroutines interleave between steps.
    The commands that change an object in place are not among the programs of \<open>Concurrent\<close>.  A
    request reads the clock once.
  \<^item> In the theories on commands and restarts recovery is over before the first request;
    \<open>Recovery_Beside\<close> shows what changes when it is not.
  \<^item> In the theories on the log an entry is encoded as it was when it was queued; \<open>Late_Marshal\<close> treats the
    pointer the code queues, key by key, for a log that refuses nothing and with each encoding as one
    step.  Between keys of a shard that is cut short by a crash, an object that was changed in
    place can be ahead of the others.
  \<^item> File operations succeed; only the end of a file is cut or damaged, by a crash.  A connection ends with
    the end of its stream; other errors of reading it are not told apart.
  \<^item> Protobuf, YAML, zerolog, cobra, the kernel and Unicode's tables are parameters: for protobuf with its round
    trip as a hypothesis (\<open>proto_ok\<close>), for the others without any.  The identity of the client in a
    response is left to the encoder.
  \<^item> The messages of \<^verbatim>\<open>encoding/json\<close>, log output and the banner; \<^verbatim>\<open>internal/store/ttl_manager.go\<close>, which is commented out; generated code
    (\<^verbatim>\<open>internal/comm/\<close>), unused helpers and the manual test clients (\<^verbatim>\<open>test/\<close>).
\<close>

end
